(* ===== verification/Prelude.thy ===== *)
theory Prelude
  imports Main "HOL-Library.Word"
begin

text \<open>
  Shared material of the development: the machine integer types of the kernel,
  the result type of operations that can panic, the index sequence of a C counting
  loop, and the generic facts on words and lists that the component theories use.
\<close>

unbundle bit_operations_syntax

section \<open>Machine integers and faults\<close>

type_synonym u8 = "8 word"
type_synonym u16 = "16 word"
type_synonym u32 = "32 word"
type_synonym u64 = "64 word"
type_synonym u128 = "128 word"

text \<open>
  A call of the kernel's \<open>panic\<close> or a failed \<open>enforce\<close> does not return. An
  operation that can reach one returns a value of the sum type below, with the
  fault on the left.
\<close>

datatype fault =
    Panic string
  | Enforce string

type_synonym 'a res = "fault + 'a"

section \<open>Counting loops\<close>

text \<open>
  \<open>word_range lo hi\<close> is the sequence of values that \<open>i\<close> takes in
  \<^verbatim>\<open>for (uint64_t i = lo; i < hi; i++)\<close>.
\<close>

definition word_range :: "'a::len word \<Rightarrow> 'a word \<Rightarrow> 'a word list" where
  "word_range lo hi = map of_nat [unat lo..<unat hi]"

named_theorems word_nat \<open>rewrites from words to natural numbers\<close>

lemma length_word_range [simp]: "length (word_range lo hi) = unat hi - unat lo"
  by (simp add: word_range_def)

lemma unat_inject [simp]: "unat a = unat b \<longleftrightarrow> a = b"
  by (simp add: word_unat_eq_iff)

lemma uint_inject [simp]: "uint a = uint b \<longleftrightarrow> a = b"
  by (simp add: word_uint_eq_iff)

lemma unat_lt: "unat (w :: 'a::len word) < 2 ^ LENGTH('a)"
  by (rule unsigned_less)

lemma unat_lt64: "unat (w :: u64) < 2 ^ 64"
  using unat_lt [of w] by simp

lemma unat_of_nat_small:
  "n < 2 ^ LENGTH('a) \<Longrightarrow> unat (of_nat n :: 'a::len word) = n"
  by (simp add: unat_of_nat)

lemma unat_of_nat_below:
  assumes "n < unat (hi :: 'a::len word)"
  shows "unat (of_nat n :: 'a word) = n"
  by (rule unat_of_nat_small) (rule less_trans [OF assms unsigned_less])

lemma unat_inc:
  assumes "(a :: 'a::len word) < b"
  shows "unat (a + 1) = Suc (unat a)"
proof -
  have "Suc (unat a) < 2 ^ LENGTH('a)"
    using le_less_trans [OF Suc_leI unsigned_less] assms unfolding word_less_nat_alt by blast
  then show ?thesis by (simp add: unat_word_ariths)
qed

lemma word_inc_less: "(a :: 'a::len word) < b \<Longrightarrow> a + 1 \<noteq> b \<Longrightarrow> a + 1 < b"
  by (metis Suc_lessI unat_inc unat_inject word_less_nat_alt)

lemma word_less_pos: "(a :: 'a::len word) < b \<Longrightarrow> 0 < b"
  by (metis word_gt_0 word_not_simps(1))

lemma unat_add_small [word_nat]:
  "unat a + unat b < 2 ^ LENGTH('a) \<Longrightarrow> unat (a + b :: 'a::len word) = unat a + unat b"
  by (simp add: unat_word_ariths)

lemma unat_mult_small [word_nat]:
  "unat a * unat b < 2 ^ LENGTH('a) \<Longrightarrow> unat (a * b :: 'a::len word) = unat a * unat b"
  by (simp add: unat_word_ariths)

lemma unat_sub_small [word_nat]:
  "(b :: 'a::len word) \<le> a \<Longrightarrow> unat (a - b) = unat a - unat b"
  by (simp add: unat_sub)

lemma map_unat_word_range [simp]:
  "map unat (word_range lo hi) = [unat lo..<unat hi]"
  by (auto simp: word_range_def unat_of_nat_below intro!: map_idI)

lemma unat_nth_word_range:
  assumes "i < unat hi - unat lo"
  shows "unat (word_range lo hi ! i) = unat lo + i"
proof -
  have "unat (word_range lo hi ! i) = map unat (word_range lo hi) ! i"
    using assms by (simp del: map_unat_word_range)
  then show ?thesis using assms by simp
qed

lemma set_word_range: "x \<in> set (word_range lo hi) \<longleftrightarrow> lo \<le> x \<and> x < hi"
proof -
  have "x \<in> set (word_range lo hi) \<longleftrightarrow> unat x \<in> set (map unat (word_range lo hi))"
    by (auto simp del: map_unat_word_range dest: word_unat_eq_iff [THEN iffD2])
  then show ?thesis by (simp add: word_le_nat_alt word_less_nat_alt)
qed

lemma word_range_Cons:
  assumes "lo < hi"
  shows "word_range lo hi = lo # word_range (lo + 1) hi"
  using assms unat_inc [OF assms]
  by (simp add: word_range_def upt_conv_Cons word_less_nat_alt)

lemma word_range_Nil [simp]: "hi \<le> lo \<Longrightarrow> word_range lo hi = []"
  by (simp add: word_range_def word_le_nat_alt)

lemma word_range_snoc:
  assumes "lo \<le> hi" and "hi < top"
  shows "word_range lo (hi + 1) = word_range lo hi @ [hi]"
  using assms unat_inc [OF assms(2)] by (simp add: word_range_def word_le_nat_alt)

section \<open>Counting loops over a state\<close>

text \<open>
  The loop \<open>for (k = i; k < n; k++) body\<close> on a state, with \<open>None\<close> for a body that
  accesses memory outside its object, and the invariant rule for it.
\<close>

function for_loop :: "nat \<Rightarrow> nat \<Rightarrow> (nat \<Rightarrow> 's \<Rightarrow> 's option) \<Rightarrow> 's \<Rightarrow> 's option" where
  "for_loop i n body s =
     (if i < n then Option.bind (body i s) (for_loop (Suc i) n body) else Some s)"
  by pat_completeness auto
termination
  by (relation "measure (\<lambda>(i, n, body, s). n - i)") auto

declare for_loop.simps [simp del]

lemma for_loop_invariant:
  assumes "i \<le> n" "I i s"
    and "\<And>k s. i \<le> k \<Longrightarrow> k < n \<Longrightarrow> I k s \<Longrightarrow> \<exists>s'. body k s = Some s' \<and> I (Suc k) s'"
  shows "\<exists>s'. for_loop i n body s = Some s' \<and> I n s'"
  using assms
proof (induction "n - i" arbitrary: i s)
  case 0
  then show ?case by (simp add: for_loop.simps)
next
  case (Suc m)
  then obtain s' where s': "body i s = Some s'" "I (Suc i) s'" by (metis diff_is_0_eq' nat.distinct(1) linorder_le_less_linear order_refl)
  moreover have "\<exists>s''. for_loop (Suc i) n body s' = Some s'' \<and> I n s''"
    using Suc.hyps(2) s' Suc.prems(3) by (intro Suc.hyps(1)) (auto simp: Suc_le_eq)
  ultimately show ?case using Suc.hyps(2) by (subst for_loop.simps) auto
qed

end
