(* ===== verification/Bitmap.thy ===== *)
theory Bitmap
  imports Prelude
begin

text \<open>
  The boot page allocator, \<^verbatim>\<open>kernel/mem/bitmap.c\<close> with the bit helpers of
  \<^verbatim>\<open>include/mem/bitmap.h\<close>. The state is the three globals of the file: the
  bitmap (one bit per page frame, set when the page is in use), its size in bytes
  and the index where the next search starts. The lemmas characterise what a search
  finds, what an allocation sets and what a free clears.
\<close>

section \<open>State and bit helpers\<close>

definition BOOT_BITMAP_SIZE :: u64 where
  "BOOT_BITMAP_SIZE = 4096" \<comment> \<open>128 MiB / 4 KiB per page / 8 pages per byte\<close>

definition PAGE_SIZE :: u64 where
  "PAGE_SIZE = 4096"

record bitmap_state =
  bitmap :: "u8 list"
  bitmap_size :: u64
  last_allocated_index :: u64

definition to_bits :: "u64 \<Rightarrow> u64" where
  "to_bits bytes = bytes * 8"

definition bm_set_bit :: "u64 \<Rightarrow> u8 list \<Rightarrow> u8 list" where
  "bm_set_bit index bm =
     (let byte = index div 8; mask = push_bit (unat (index mod 8)) (1::u8)
      in if BOOT_BITMAP_SIZE \<le> byte then bm
         else bm[unat byte := bm ! unat byte OR mask])"

definition bm_clear_bit :: "u64 \<Rightarrow> u8 list \<Rightarrow> u8 list" where
  "bm_clear_bit index bm =
     (let byte = index div 8; mask = NOT (push_bit (unat (index mod 8)) (1::u8))
      in if BOOT_BITMAP_SIZE \<le> byte then bm
         else bm[unat byte := bm ! unat byte AND mask])"

definition bm_test_bit :: "u64 \<Rightarrow> u8 list \<Rightarrow> bool" where
  "bm_test_bit index bm =
     (let byte = index div 8
      in if BOOT_BITMAP_SIZE \<le> byte then False
         else drop_bit (unat (index mod 8)) (bm ! unat byte) AND 1 = 1)"

section \<open>Allocation and freeing\<close>

text \<open>
  One pass of the search loop over the indices \<open>is\<close>: the run length and start
  index are carried, and the pass stops as soon as the run is \<open>count\<close> long.
\<close>

fun scan_pass :: "(u64 \<Rightarrow> bool) \<Rightarrow> u64 \<Rightarrow> u64 list \<Rightarrow> u64 \<Rightarrow> u64 \<Rightarrow> u64 \<times> u64 \<times> bool" where
  "scan_pass used count [] consecutive start_index = (consecutive, start_index, False)"
| "scan_pass used count (i # is) consecutive start_index =
     (if \<not> used i
      then (let start_index' = (if consecutive = 0 then i else start_index);
                consecutive' = consecutive + 1
            in if consecutive' = count then (consecutive', start_index', True)
               else scan_pass used count is consecutive' start_index')
      else scan_pass used count is 0 start_index)"

definition bitmap_alloc_pages :: "u64 \<Rightarrow> bitmap_state \<Rightarrow> (u64 \<times> bitmap_state) res" where
  "bitmap_alloc_pages count st =
     (if count = 0 then Inl (Panic ''Zero pages requested'')
      else
        let used = (\<lambda>i. bm_test_bit i (bitmap st));
            bits = to_bits (bitmap_size st);
            (c1, s1, f1) = scan_pass used count (word_range (last_allocated_index st) bits) 0 0;
            (s2, f2) = (if f1 then (s1, True)
                        else case scan_pass used count (word_range 0 bits) c1 s1 of
                               (c, s, f) \<Rightarrow> (s, f))
        in if \<not> f2 then Inr (0, st)
           else Inr (s2 * PAGE_SIZE,
                     st\<lparr>last_allocated_index := s2,
                        bitmap := fold (\<lambda>i. bm_set_bit (s2 + i)) (word_range 0 count) (bitmap st)\<rparr>))"

definition bitmap_alloc_page :: "bitmap_state \<Rightarrow> (u64 \<times> bitmap_state) res" where
  "bitmap_alloc_page st = bitmap_alloc_pages 1 st"

definition free_one :: "u64 \<Rightarrow> u64 \<Rightarrow> u8 list \<Rightarrow> u8 list" where
  "free_one start_index i bm =
     (let index = start_index + i
      in if bm_test_bit index bm then bm_clear_bit index bm else bm)"

definition bitmap_free_pages :: "u64 \<Rightarrow> u64 \<Rightarrow> bitmap_state \<Rightarrow> bitmap_state res" where
  "bitmap_free_pages addr count st =
     (if addr = 0 \<or> count = 0 then Inl (Panic ''INVALID_ARGUMENT'')
      else
        let start_index = addr div PAGE_SIZE; bits = to_bits (bitmap_size st)
        in if bits \<le> start_index \<or> bits < start_index + count then Inr st
           else Inr (st\<lparr>bitmap :=
                  fold (free_one start_index) (word_range 0 count) (bitmap st)\<rparr>))"

section \<open>Well-formed states\<close>

text \<open>
  \<open>pmm_early_init\<close> points \<open>bitmap\<close> at the static \<open>boot_bitmap\<close> and nothing
  assigns \<open>bitmap_size\<close> after its initialiser.
\<close>

definition bitmap_wf :: "bitmap_state \<Rightarrow> bool" where
  "bitmap_wf st \<longleftrightarrow>
     length (bitmap st) = unat BOOT_BITMAP_SIZE \<and> bitmap_size st = BOOT_BITMAP_SIZE \<and>
     last_allocated_index st < to_bits BOOT_BITMAP_SIZE"

abbreviation used_in :: "bitmap_state \<Rightarrow> u64 \<Rightarrow> bool" where
  "used_in st i \<equiv> bm_test_bit i (bitmap st)"

lemmas bitmap_consts = BOOT_BITMAP_SIZE_def PAGE_SIZE_def to_bits_def

lemma length_bm_set_bit [simp]: "length (bm_set_bit i bm) = length bm"
  by (simp add: bm_set_bit_def Let_def)

lemma length_bm_clear_bit [simp]: "length (bm_clear_bit i bm) = length bm"
  by (simp add: bm_clear_bit_def Let_def)

lemma bm_test_bit_alt:
  "bm_test_bit i bm \<longleftrightarrow> i div 8 < BOOT_BITMAP_SIZE \<and> bit (bm ! unat (i div 8)) (unat (i mod 8))"
proof -
  have "(drop_bit n w AND 1 = 1) = bit w n" for w :: u8 and n
    by (metis and_one_eq bit_iff_odd_drop_bit odd_iff_mod_2_eq_one)
  then show ?thesis by (auto simp: bm_test_bit_def Let_def)
qed

section \<open>What a search pass finds\<close>

definition free_run :: "(u64 \<Rightarrow> bool) \<Rightarrow> u64 \<Rightarrow> nat \<Rightarrow> bool" where
  "free_run used s n \<longleftrightarrow> (\<forall>i. s \<le> i \<and> unat i < unat s + n \<longrightarrow> \<not> used i)"

lemma free_run_snoc:
  assumes "free_run used s (unat c)" and "unat s + unat c = unat i" and "\<not> used i"
  shows "free_run used s (Suc (unat c))"
  using assms by (auto simp: free_run_def word_less_nat_alt word_le_nat_alt less_Suc_eq)

lemma scan_pass_found:
  assumes "scan_pass used n (word_range lo hi) c s = (c', s', True)" and "c < n"
    and "c = 0 \<or> unat s + unat c = unat lo \<and> free_run used s (unat c)"
  shows "unat s' + unat n \<le> unat hi \<and> free_run used s' (unat n)"
  using assms
proof (induction "unat hi - unat lo" arbitrary: lo c s)
  case 0
  then show ?case by (simp add: word_le_nat_alt)
next
  case (Suc d)
  then have lt: "lo < hi" by (simp add: word_less_nat_alt)
  have d: "d = unat hi - unat (lo + 1)" using Suc.hyps(2) by (simp add: unat_inc [OF lt])
  note step = Suc.prems(1) [unfolded word_range_Cons [OF lt]]
  show ?case
  proof (cases "used lo")
    case True
    with step have "scan_pass used n (word_range (lo + 1) hi) 0 s = (c', s', True)" by simp
    moreover have "0 < n" using Suc.prems(2) by (rule word_less_pos)
    ultimately show ?thesis using Suc.hyps(1) [OF d] by blast
  next
    case False
    define t where "t = (if c = 0 then lo else s)"
    have run: "unat t + unat c = unat lo \<and> free_run used t (unat c)"
      using Suc.prems(3) by (auto simp: t_def free_run_def word_le_nat_alt)
    have c1: "unat (c + 1) = Suc (unat c)" by (rule unat_inc [OF Suc.prems(2)])
    have run1: "unat t + unat (c + 1) = unat (lo + 1) \<and> free_run used t (unat (c + 1))"
      using free_run_snoc run False by (auto simp: c1 unat_inc [OF lt])
    show ?thesis
    proof (cases "c + 1 = n")
      case True
      with step False have "s' = t" by (auto simp: t_def Let_def)
      then show ?thesis using run1 True lt by (auto simp: unat_inc [OF lt] word_less_nat_alt)
    next
      case ne: False
      then have "c + 1 < n" by (rule word_inc_less [OF Suc.prems(2)])
      moreover have "scan_pass used n (word_range (lo + 1) hi) (c + 1) t = (c', s', True)"
        using step False ne by (auto simp: t_def Let_def split: if_splits)
      ultimately show ?thesis using Suc.hyps(1) [OF d] run1 by blast
    qed
  qed
qed

lemma scan_pass_finds_prefix:
  assumes "c < n" and "unat c + m = unat n" and "unat lo + m \<le> unat hi" and "free_run used lo m"
  shows "\<exists>s'. scan_pass used n (word_range lo hi) c s = (n, s', True)"
  using assms
proof (induction m arbitrary: lo c s)
  case 0
  then show ?case by (simp add: word_less_nat_alt)
next
  case (Suc m)
  then have lt: "lo < hi" by (simp add: word_less_nat_alt)
  have c1: "unat (c + 1) = Suc (unat c)" by (rule unat_inc [OF Suc.prems(1)])
  have free: "\<not> used lo" using Suc.prems(4) by (simp add: free_run_def)
  have rest: "free_run used (lo + 1) m"
    using Suc.prems(4) by (auto simp: free_run_def unat_inc [OF lt] word_le_nat_alt)
  show ?case
  proof (cases "c + 1 = n")
    case True
    then show ?thesis using free by (auto simp: word_range_Cons [OF lt] Let_def)
  next
    case False
    then have "c + 1 < n" by (rule word_inc_less [OF Suc.prems(1)])
    then show ?thesis
      using Suc.IH [of "c + 1" "lo + 1" "if c = 0 then lo else s"] Suc.prems(2,3) rest False free
      by (simp add: word_range_Cons [OF lt] Let_def c1 unat_inc [OF lt])
  qed
qed

lemma scan_pass_finds:
  assumes "c < n" and "lo \<le> t" and "unat t + unat n \<le> unat hi" and "free_run used t (unat n)"
  shows "snd (snd (scan_pass used n (word_range lo hi) c s))"
  using assms
proof (induction "unat t - unat lo" arbitrary: lo c s)
  case 0
  then have "lo = t" by (simp add: word_le_nat_alt flip: unat_inject)
  moreover have "free_run used t (unat n - unat c)"
    using "0.prems"(4) by (auto simp: free_run_def)
  moreover have "unat c + (unat n - unat c) = unat n" "unat t + (unat n - unat c) \<le> unat hi"
    using "0.prems"(1,3) by (simp_all add: word_less_nat_alt)
  ultimately show ?case
    using scan_pass_finds_prefix [OF "0.prems"(1), of "unat n - unat c" lo hi used s] by auto
next
  case (Suc d)
  then have lt: "lo < t" by (simp add: word_less_nat_alt)
  have lh: "lo < hi" using lt Suc.prems(3) by (simp add: word_less_nat_alt)
  have d: "d = unat t - unat (lo + 1)" and le: "lo + 1 \<le> t"
    using Suc.hyps(2) lt by (simp_all add: unat_inc [OF lt] word_less_nat_alt word_le_nat_alt)
  have n0: "0 < n" using Suc.prems(1) by (rule word_less_pos)
  have step: "c' < n \<Longrightarrow> snd (snd (scan_pass used n (word_range (lo + 1) hi) c' s'))" for c' s'
    by (rule Suc.hyps(1) [OF d _ le Suc.prems(3,4)])
  from word_inc_less [OF Suc.prems(1)] show ?case using step n0 by (simp add: word_range_Cons [OF lh] Let_def)
qed

lemma scan_pass_not_found_lt:
  "scan_pass used n is c s = (c', s', False) \<Longrightarrow> c < n \<Longrightarrow> c' < n"
proof (induction "is" arbitrary: c s)
  case Nil
  then show ?case by simp
next
  case (Cons i "is")
  have n0: "0 < n" using Cons.prems(2) by (rule word_less_pos)
  from word_inc_less [OF Cons.prems(2)] show ?case using Cons n0 by (auto simp: Let_def split: if_splits)
qed

section \<open>Setting and clearing bits\<close>

lemma bm_index_split:
  "(i::u64) = j \<longleftrightarrow> i div 8 = j div 8 \<and> unat (i mod 8) = unat (j mod 8)"
  by (metis word_mod_div_equality unat_inject)

lemma unat_mod8: "unat ((i::u64) mod 8) < 8"
  by (simp add: unat_mod)

lemma bm_test_set_bit:
  assumes "length bm = unat BOOT_BITMAP_SIZE"
  shows "bm_test_bit j (bm_set_bit i bm) \<longleftrightarrow>
         bm_test_bit j bm \<or> j = i \<and> i div 8 < BOOT_BITMAP_SIZE"
proof (cases "i div 8 < BOOT_BITMAP_SIZE \<and> j div 8 = i div 8")
  case True
  then have "unat (i div 8) < length bm" using assms by (simp add: word_less_nat_alt)
  then show ?thesis using True unat_mod8 [of i] unat_mod8 [of j]
    by (auto simp: bm_test_bit_alt bm_set_bit_def Let_def bit_or_iff bit_exp_iff bm_index_split [of j i])
next
  case False
  then show ?thesis
    by (auto simp: bm_test_bit_alt bm_set_bit_def Let_def nth_list_update)
qed

lemma bm_test_clear_bit:
  assumes "length bm = unat BOOT_BITMAP_SIZE"
  shows "bm_test_bit j (bm_clear_bit i bm) \<longleftrightarrow> bm_test_bit j bm \<and> j \<noteq> i"
proof (cases "i div 8 < BOOT_BITMAP_SIZE \<and> j div 8 = i div 8")
  case True
  then have "unat (i div 8) < length bm" using assms by (simp add: word_less_nat_alt)
  then show ?thesis using True unat_mod8 [of i] unat_mod8 [of j]
    by (auto simp: bm_test_bit_alt bm_clear_bit_def Let_def bit_and_iff bit_not_iff
        bit_exp_iff bm_index_split [of j i])
next
  case False
  then show ?thesis
    by (auto simp: bm_test_bit_alt bm_clear_bit_def Let_def nth_list_update)
qed

lemma length_fold_set [simp]: "length (fold (\<lambda>i. bm_set_bit (s + i)) xs bm) = length bm"
  by (induction xs arbitrary: bm) simp_all

lemma bm_test_fold_set:
  assumes "length bm = unat BOOT_BITMAP_SIZE" and "\<forall>i\<in>set xs. (s + i) div 8 < BOOT_BITMAP_SIZE"
  shows "bm_test_bit j (fold (\<lambda>i. bm_set_bit (s + i)) xs bm) \<longleftrightarrow>
         bm_test_bit j bm \<or> j - s \<in> set xs"
  using assms by (induction xs arbitrary: bm) (auto simp: bm_test_set_bit)

lemma length_fold_free [simp]: "length (fold (free_one s) xs bm) = length bm"
  by (induction xs arbitrary: bm) (simp_all add: free_one_def Let_def)

lemma bm_test_fold_free:
  assumes "length bm = unat BOOT_BITMAP_SIZE"
  shows "bm_test_bit j (fold (free_one s) xs bm) \<longleftrightarrow> bm_test_bit j bm \<and> j - s \<notin> set xs"
  using assms by (induction xs arbitrary: bm) (auto simp: free_one_def Let_def bm_test_clear_bit)

section \<open>Properties\<close>

lemma bits_BOOT: "to_bits BOOT_BITMAP_SIZE = 32768"
  by (simp add: bitmap_consts)

lemma div8_below: "i < 32768 \<Longrightarrow> (i::u64) div 8 < BOOT_BITMAP_SIZE"
  by (simp add: bitmap_consts word_less_nat_alt unat_div_distrib)

text \<open>The index set of a loop over \<open>s + 0, \<dots>, s + n - 1\<close>.\<close>

lemma in_offset_range:
  assumes "unat s + unat n < 2 ^ 64"
  shows "(j::u64) - s \<in> set (word_range 0 n) \<longleftrightarrow> s \<le> j \<and> unat j < unat s + unat n"
proof -
  have "j - s < n \<longleftrightarrow> s \<le> j \<and> unat j < unat s + unat n"
  proof (cases "s \<le> j")
    case True
    then show ?thesis by (auto simp: word_less_nat_alt unat_sub_small word_le_nat_alt)
  next
    case False
    then have "unat (j - s) = unat j + 2 ^ 64 - unat s"
      by (simp add: unat_sub_if' word_le_nat_alt)
    then show ?thesis using False assms by (auto simp: word_less_nat_alt word_le_nat_alt)
  qed
  then show ?thesis by (simp add: set_word_range)
qed

text \<open>
  What a successful allocation does once the search has settled on a start index:
  exactly the pages of the run become used.
\<close>

definition takes_run :: "bitmap_state \<Rightarrow> u64 \<Rightarrow> u64 \<Rightarrow> bitmap_state \<Rightarrow> bool" where
  "takes_run st s n st' \<longleftrightarrow>
     unat s + unat n \<le> 32768 \<and> free_run (used_in st) s (unat n) \<and> bitmap_wf st' \<and>
     (\<forall>j. used_in st' j \<longleftrightarrow> used_in st j \<or> s \<le> j \<and> unat j < unat s + unat n)"

lemma takes_runI:
  assumes wf: "bitmap_wf st" and fit: "unat s + unat n \<le> 32768" and n: "0 < unat n"
    and free: "free_run (used_in st) s (unat n)"
  shows "takes_run st s n (st\<lparr>last_allocated_index := s,
     bitmap := fold (\<lambda>i. bm_set_bit (s + i)) (word_range 0 n) (bitmap st)\<rparr>)"
proof -
  have len: "length (bitmap st) = unat BOOT_BITMAP_SIZE" using wf by (simp add: bitmap_wf_def)
  have below: "(s + i) div 8 < BOOT_BITMAP_SIZE" if "i \<in> set (word_range 0 n)" for i
  proof (rule div8_below)
    from that have "unat i < unat n" by (simp add: set_word_range word_less_nat_alt)
    then have "unat (s + i) < 32768" using fit by (subst unat_add_small) auto
    then show "s + i < 32768" by (simp add: word_less_nat_alt)
  qed
  have "s < 32768" using fit n by (simp add: word_less_nat_alt)
  then show ?thesis
    using wf fit free below
    by (auto simp: takes_run_def bitmap_wf_def bits_BOOT bm_test_fold_set [OF len] in_offset_range)
qed

lemma scan_pass_last_used:
  assumes "lo < hi" and "scan_pass used n (word_range lo hi) c s = (c', s', False)" and "used (hi - 1)"
  shows "c' = 0"
  using assms
proof (induction "unat hi - unat lo" arbitrary: lo c s)
  case 0
  then show ?case by (simp add: word_less_nat_alt)
next
  case (Suc d)
  note lt = Suc.prems(1)
  have d: "d = unat hi - unat (lo + 1)" using Suc.hyps(2) by (simp add: unat_inc [OF lt])
  have nx: "lo + 1 < hi \<Longrightarrow> scan_pass used n (word_range (lo + 1) hi) c1 s1 = (c', s', False) \<Longrightarrow> c' = 0"
    for c1 s1 using Suc.hyps(1) [OF d] Suc.prems(3) by blast
  show ?case
  proof (cases "lo + 1 < hi")
    case True
    with Suc.prems(2) nx show ?thesis
      by (auto simp: word_range_Cons [OF lt] Let_def split: if_splits)
  next
    case False
    then have "unat hi = Suc (unat lo)"
      using lt by (simp add: word_less_nat_alt unat_inc [OF lt])
    then have hi: "hi = lo + 1" using unat_inc [OF lt] unat_inject by metis
    have "word_range lo hi = [lo]" using word_range_Cons [OF lt] by (simp add: hi)
    with Suc.prems(2,3) show ?thesis by (simp add: hi)
  qed
qed

text \<open>
  C12. Total correctness of the boot allocator when the last page of the bitmap is in
  use (so that the first search pass leaves no partial run behind): if the bitmap has
  a run of \<open>n\<close> free pages the call returns the address of such a run and marks
  exactly these pages used, otherwise it returns 0 and changes nothing.
\<close>

theorem bitmap_alloc_correct:
  assumes wf: "bitmap_wf st" and n: "n \<noteq> 0" and last: "used_in st 32767"
  shows "if \<exists>t. unat t + unat n \<le> 32768 \<and> free_run (used_in st) t (unat n)
         then \<exists>s st'. bitmap_alloc_pages n st = Inr (s * PAGE_SIZE, st') \<and> takes_run st s n st'
         else bitmap_alloc_pages n st = Inr (0, st)"
proof -
  let ?U = "used_in st" and ?l = "last_allocated_index st"
  have n0: "0 < n" "0 < unat n" using n by (simp_all add: word_neq_0_conv unat_gt_0)
  have sz: "bitmap_size st = BOOT_BITMAP_SIZE" and l: "?l < 32768"
    using wf by (simp_all add: bitmap_wf_def bits_BOOT)
  obtain c1 s1 f1 where p1: "scan_pass ?U n (word_range ?l 32768) 0 0 = (c1, s1, f1)"
    by (rule prod_cases3)
  obtain c2 s2 f2 where p2: "scan_pass ?U n (word_range 0 32768) 0 s1 = (c2, s2, f2)"
    by (rule prod_cases3)
  have take: "takes_run st s n (st\<lparr>last_allocated_index := s,
     bitmap := fold (\<lambda>i. bm_set_bit (s + i)) (word_range 0 n) (bitmap st)\<rparr>)"
    if "scan_pass ?U n (word_range lo 32768) 0 s0 = (c, s, True)" for lo s0 c s
    using scan_pass_found [OF that n0(1)] by (intro takes_runI [OF wf _ n0(2)]) simp_all
  show ?thesis
  proof (cases f1)
    case True
    then have p1': "scan_pass ?U n (word_range ?l 32768) 0 0 = (c1, s1, True)" using p1 by simp
    then have "\<exists>t. unat t + unat n \<le> 32768 \<and> free_run ?U t (unat n)"
      using scan_pass_found [OF p1' n0(1)] by auto
    then show ?thesis using take [OF p1'] n p1'
      by (auto simp: bitmap_alloc_pages_def sz bits_BOOT Let_def)
  next
    case False
    then have c1: "c1 = 0" using scan_pass_last_used [OF l] p1 last by simp
    have alloc: "bitmap_alloc_pages n st = (if f2 then Inr (s2 * PAGE_SIZE, st\<lparr>last_allocated_index := s2,
     bitmap := fold (\<lambda>i. bm_set_bit (s2 + i)) (word_range 0 n) (bitmap st)\<rparr>) else Inr (0, st))"
      using n p1 p2 False c1 by (auto simp: bitmap_alloc_pages_def sz bits_BOOT Let_def)
    show ?thesis
    proof (cases f2)
      case True
      then have p2': "scan_pass ?U n (word_range 0 32768) 0 s1 = (c2, s2, True)" using p2 by simp
      then have "\<exists>t. unat t + unat n \<le> 32768 \<and> free_run ?U t (unat n)"
        using scan_pass_found [OF p2' n0(1)] by auto
      then show ?thesis using take [OF p2'] alloc True by auto
    next
      case False
      then have "\<not> (\<exists>t. unat t + unat n \<le> 32768 \<and> free_run ?U t (unat n))"
        using scan_pass_finds [OF n0(1), of 0 _ 32768 ?U s1] p2 by auto
      then show ?thesis using alloc False by auto
    qed
  qed
qed

theorem bitmap_alloc_correct_witness:
  "let st = \<lparr>bitmap = replicate 4096 255, bitmap_size = 4096, last_allocated_index = 0\<rparr>;
       n = (2::u64)
   in bitmap_wf st \<and> n \<noteq> 0 \<and> used_in st 32767 \<and>
      (if \<exists>t. unat t + unat n \<le> 32768 \<and> free_run (used_in st) t (unat n)
       then \<exists>s st'. bitmap_alloc_pages n st = Inr (s * PAGE_SIZE, st') \<and> takes_run st s n st'
       else bitmap_alloc_pages n st = Inr (0, st))"
proof -
  let ?st = "\<lparr>bitmap = replicate 4096 255, bitmap_size = 4096, last_allocated_index = 0\<rparr>"
  have h: "bitmap_wf ?st" "(2::u64) \<noteq> 0" "used_in ?st 32767"
    by (simp_all add: bitmap_wf_def bm_test_bit_alt bitmap_consts)
  show ?thesis unfolding Let_def by (intro conjI h bitmap_alloc_correct)
qed

text \<open>
  C35. The boot allocator's second search pass keeps the run left over from the end of
  the first. With the search index at the last page of the bitmap, and the last and the
  first page free, a request for two pages returns the last page, so that the second
  page of the block lies beyond the bitmap; only one of the two pages is marked.
\<close>

theorem bitmap_alloc_wrap_unsound:
  assumes wf: "bitmap_wf st" and last: "last_allocated_index st = 32767"
    and free: "\<not> used_in st 32767" "\<not> used_in st 0"
  shows "\<exists>st'. bitmap_alloc_pages 2 st = Inr (32767 * PAGE_SIZE, st') \<and>
           (\<forall>j. used_in st' j \<longleftrightarrow> used_in st j \<or> j = 32767)"
proof -
  have sz: "bitmap_size st = BOOT_BITMAP_SIZE" and len: "length (bitmap st) = unat BOOT_BITMAP_SIZE"
    using wf by (simp_all add: bitmap_wf_def)
  have r1: "word_range 32767 (32768::u64) = [32767]"
    using word_range_Cons [of 32767 "32768::u64"] by simp
  have r2: "word_range 0 (32768::u64) = 0 # word_range 1 32768"
    using word_range_Cons [of 0 "32768::u64"] by simp
  have r3: "word_range 0 (2::u64) = [0, 1]"
    using word_range_Cons [of 0 "2::u64"] word_range_Cons [of 1 "2::u64"] by simp
  have "bitmap_alloc_pages 2 st = Inr (32767 * PAGE_SIZE, st\<lparr>last_allocated_index := 32767,
     bitmap := fold (\<lambda>i. bm_set_bit (32767 + i)) [0, 1] (bitmap st)\<rparr>)"
    using free by (simp add: bitmap_alloc_pages_def sz bits_BOOT last r1 r2 r3 Let_def)
  moreover have "bm_test_bit j (fold (\<lambda>i. bm_set_bit (32767 + i)) [0, 1] (bitmap st)) \<longleftrightarrow>
      used_in st j \<or> j = 32767" for j
    by (simp add: bm_test_set_bit len) (simp add: bitmap_consts)
  ultimately show ?thesis by simp
qed

theorem bitmap_alloc_wrap_unsound_witness:
  "let st = \<lparr>bitmap = replicate 4096 0, bitmap_size = 4096, last_allocated_index = 32767\<rparr>
   in \<exists>st'. bitmap_alloc_pages 2 st = Inr (32767 * PAGE_SIZE, st') \<and>
        (\<forall>j. used_in st' j \<longleftrightarrow> used_in st j \<or> j = 32767)"
  using bitmap_alloc_wrap_unsound
    [of "\<lparr>bitmap = replicate 4096 0, bitmap_size = 4096, last_allocated_index = 32767\<rparr>"]
  by (simp add: bitmap_wf_def bm_test_bit_alt bitmap_consts)

lemma bitmap_free_effect:
  assumes wf: "bitmap_wf st" and idx: "s < 32768" "s \<noteq> 0" and n: "n \<noteq> 0"
    and guard: "s + n \<le> 32768"
  shows "\<exists>st'. bitmap_free_pages (s * PAGE_SIZE) n st = Inr st' \<and> bitmap_wf st' \<and>
           (\<forall>j. used_in st' j \<longleftrightarrow> used_in st j \<and> j - s \<notin> set (word_range 0 n))"
proof -
  have sz: "bitmap_size st = BOOT_BITMAP_SIZE" and len: "length (bitmap st) = unat BOOT_BITMAP_SIZE"
    using wf by (simp_all add: bitmap_wf_def)
  have m: "unat (s * PAGE_SIZE) = unat s * 4096"
    using idx(1) by (simp add: PAGE_SIZE_def unat_mult_small word_less_nat_alt)
  then have "unat (s * PAGE_SIZE div PAGE_SIZE) = unat s"
    by (simp add: unat_div_distrib) (simp add: PAGE_SIZE_def)
  then have d: "s * PAGE_SIZE div PAGE_SIZE = s" by simp
  have ne: "s * PAGE_SIZE \<noteq> 0" using m idx(2) by (metis mult_eq_0_iff unat_0_iff zero_neq_numeral)
  show ?thesis
    using wf idx(1) guard n ne
    by (simp add: bitmap_free_pages_def d sz bits_BOOT Let_def bitmap_wf_def
        bm_test_fold_free [OF len] not_le not_less)
qed

text \<open>
  C34. Freeing what an allocation returned gives the bitmap back its contents: for a block
  of \<open>n\<close> pages at \<open>s\<close> (page 0 excepted, whose address is the failure value)
  exactly the pages that were free before the allocation are free again.
\<close>

theorem bitmap_alloc_free_roundtrip:
  assumes "takes_run st s n st'" and "s \<noteq> 0" and "n \<noteq> 0"
  shows "\<exists>st''. bitmap_free_pages (s * PAGE_SIZE) n st' = Inr st'' \<and> bitmap_wf st'' \<and>
           (\<forall>j. used_in st'' j = used_in st j)"
proof -
  have fit: "unat s + unat n \<le> 32768" and run: "free_run (used_in st) s (unat n)"
    and wf: "bitmap_wf st'"
    and upd: "used_in st' j \<longleftrightarrow> used_in st j \<or> s \<le> j \<and> unat j < unat s + unat n" for j
    using assms(1) by (auto simp: takes_run_def)
  have "0 < unat n" using assms(3) by (simp add: unat_gt_0)
  then have lt: "s < 32768" and guard: "s + n \<le> 32768"
    using fit by (auto simp: word_less_nat_alt word_le_nat_alt unat_add_small)
  obtain st'' where st'': "bitmap_free_pages (s * PAGE_SIZE) n st' = Inr st''" "bitmap_wf st''"
    "\<And>j. used_in st'' j \<longleftrightarrow> used_in st' j \<and> j - s \<notin> set (word_range 0 n)"
    using bitmap_free_effect [OF wf lt assms(2,3) guard] by blast
  have "used_in st'' j = used_in st j" for j
    using run fit by (auto simp: st''(3) upd in_offset_range free_run_def)
  with st'' show ?thesis by blast
qed

theorem bitmap_alloc_free_roundtrip_witness:
  "let st = \<lparr>bitmap = replicate 4096 0, bitmap_size = 4096, last_allocated_index = 0\<rparr>;
       st' = st\<lparr>last_allocated_index := 8,
         bitmap := fold (\<lambda>i. bm_set_bit (8 + i)) (word_range 0 2) (bitmap st)\<rparr>
   in takes_run st 8 2 st' \<and>
      (\<exists>st''. bitmap_free_pages (8 * PAGE_SIZE) 2 st' = Inr st'' \<and> bitmap_wf st'' \<and>
        (\<forall>j. used_in st'' j = used_in st j))"
proof -
  let ?st = "\<lparr>bitmap = replicate 4096 0, bitmap_size = 4096, last_allocated_index = 0\<rparr>"
  let ?st' = "?st\<lparr>last_allocated_index := 8,
         bitmap := fold (\<lambda>i. bm_set_bit (8 + i)) (word_range 0 2) (bitmap ?st)\<rparr>"
  have free: "\<not> used_in ?st j" for j
    by (auto simp: bm_test_bit_alt BOOT_BITMAP_SIZE_def word_less_nat_alt)
  then have "takes_run ?st 8 2 ?st'"
    by (intro takes_runI) (auto simp: bitmap_wf_def bitmap_consts free_run_def)
  then show ?thesis using bitmap_alloc_free_roundtrip [of ?st 8 2 ?st'] by (simp add: Let_def)
qed

text \<open>
  The range check of \<open>bitmap_free_pages\<close> adds \<open>start_index + count\<close> without an
  overflow check. A count large enough for the sum to wrap passes the check: with
  \<open>count = 2\<^sup>6\<^sup>4 - s\<close> every page from \<open>s\<close> to the end of the bitmap is freed.
\<close>

theorem bitmap_free_guard_wraps:
  assumes wf: "bitmap_wf st" and s: "s < 32768" "s \<noteq> 0"
  shows "\<exists>st'. bitmap_free_pages (s * PAGE_SIZE) (- s) st = Inr st' \<and>
           (\<forall>j. used_in st' j \<longleftrightarrow> used_in st j \<and> j < s)"
proof -
  have n: "- s \<noteq> 0" using s(2) by simp
  obtain st' where st': "bitmap_free_pages (s * PAGE_SIZE) (- s) st = Inr st'"
    "\<And>j. used_in st' j \<longleftrightarrow> used_in st j \<and> j - s \<notin> set (word_range 0 (- s))"
    using bitmap_free_effect [OF wf s n] by auto
  have m: "unat (- s) = 2 ^ 64 - unat s"
    using unat_sub_if' [of 0 s] s(2) by (simp add: unat_eq_0)
  have "j - s < - s \<longleftrightarrow> s \<le> j" for j
  proof -
    note unat_lt64 [of j]
    moreover have "0 < unat s" using s(2) by (simp add: unat_gt_0)
    ultimately show ?thesis
      by (auto simp: word_less_nat_alt word_le_nat_alt m unat_sub_if')
  qed
  then show ?thesis using st' by (auto simp: set_word_range not_le)
qed

theorem bitmap_free_guard_wraps_witness:
  "let st = \<lparr>bitmap = replicate 4096 255, bitmap_size = 4096, last_allocated_index = 0\<rparr>
   in \<exists>st'. bitmap_free_pages (16 * PAGE_SIZE) (- 16) st = Inr st' \<and>
        (\<forall>j. used_in st' j \<longleftrightarrow> used_in st j \<and> j < 16)"
  using bitmap_free_guard_wraps
    [of "\<lparr>bitmap = replicate 4096 255, bitmap_size = 4096, last_allocated_index = 0\<rparr>" 16]
  by (simp add: bitmap_wf_def bitmap_consts)

end
