(* ===== verification/CMem.thy ===== *)
theory CMem
  imports Prelude
begin

text \<open>
  The byte-copying primitives of \<^verbatim>\<open>include/string.h\<close> that
  \<^verbatim>\<open>kernel/string.c\<close> exports as \<open>memcpy\<close>, \<open>memset\<close>, \<open>memmove\<close> and
  \<open>memcmp\<close>, over a byte-addressed memory. The string instructions are modelled one
  iteration at a time: \<open>rep movsq\<close> reads a quadword and then writes it, \<open>rep movsb\<close>
  does the same for a byte, both with ascending addresses. The lemmas show that the
  copies have the effect of a simultaneous copy, for \<open>memmove\<close> also when the ranges
  overlap.
\<close>

type_synonym mem = "u64 \<Rightarrow> u8"

section \<open>String instructions\<close>

fun rep_stosq :: "nat \<Rightarrow> u64 \<Rightarrow> u8 \<Rightarrow> mem \<Rightarrow> mem" where
  "rep_stosq 0 di c m = m"
| "rep_stosq (Suc n) di c m =
     rep_stosq n (di + 8) c (\<lambda>a. if a - di < 8 then c else m a)"

fun rep_stosb :: "nat \<Rightarrow> u64 \<Rightarrow> u8 \<Rightarrow> mem \<Rightarrow> mem" where
  "rep_stosb 0 di c m = m"
| "rep_stosb (Suc n) di c m = rep_stosb n (di + 1) c (m(di := c))"

fun rep_movsq :: "nat \<Rightarrow> u64 \<Rightarrow> u64 \<Rightarrow> mem \<Rightarrow> mem" where
  "rep_movsq 0 di si m = m"
| "rep_movsq (Suc n) di si m =
     rep_movsq n (di + 8) (si + 8) (\<lambda>a. if a - di < 8 then m (si + (a - di)) else m a)"

fun rep_movsb :: "nat \<Rightarrow> u64 \<Rightarrow> u64 \<Rightarrow> mem \<Rightarrow> mem" where
  "rep_movsb 0 di si m = m"
| "rep_movsb (Suc n) di si m = rep_movsb n (di + 1) (si + 1) (m(di := m si))"

text \<open>
  \<open>repe cmpsb\<close> stops after the first differing pair, or when the count is used up;
  the result is the difference of the last pair compared.
\<close>

fun repe_cmpsb :: "nat \<Rightarrow> u64 \<Rightarrow> u64 \<Rightarrow> mem \<Rightarrow> int" where
  "repe_cmpsb 0 p1 p2 m = 0"
| "repe_cmpsb (Suc n) p1 p2 m =
     (if n = 0 \<or> m p1 \<noteq> m p2 then uint (m p1) - uint (m p2)
      else repe_cmpsb n (p1 + 1) (p2 + 1) m)"

section \<open>Memory functions\<close>

definition memset_inline :: "u64 \<Rightarrow> u8 \<Rightarrow> u64 \<Rightarrow> mem \<Rightarrow> mem" where
  "memset_inline s c n m =
     (let qwords = drop_bit 3 n; rem = n AND 7
      in rep_stosb (unat rem) (s + 8 * qwords) c (rep_stosq (unat qwords) s c m))"

definition memcpy_inline :: "u64 \<Rightarrow> u64 \<Rightarrow> u64 \<Rightarrow> mem \<Rightarrow> mem" where
  "memcpy_inline dest src n m =
     (let qwords = drop_bit 3 n; rem = n AND 7
      in rep_movsb (unat rem) (dest + 8 * qwords) (src + 8 * qwords)
           (rep_movsq (unat qwords) dest src m))"

fun copy_down :: "nat \<Rightarrow> u64 \<Rightarrow> u64 \<Rightarrow> mem \<Rightarrow> mem" where
  "copy_down 0 d s m = m"
| "copy_down (Suc n) d s m = copy_down n (d - 1) (s - 1) (m(d - 1 := m (s - 1)))"

definition memmove_inline :: "u64 \<Rightarrow> u64 \<Rightarrow> u64 \<Rightarrow> mem \<Rightarrow> mem" where
  "memmove_inline dest src n m =
     (if n \<le> dest - src then memcpy_inline dest src n m
      else copy_down (unat n) (dest + n) (src + n) m)"

definition memcmp_inline :: "u64 \<Rightarrow> u64 \<Rightarrow> u64 \<Rightarrow> mem \<Rightarrow> int" where
  "memcmp_inline s1 s2 n m = (if n = 0 then 0 else repe_cmpsb (unat n) s1 s2 m)"

definition memchr :: "u64 \<Rightarrow> u8 \<Rightarrow> nat \<Rightarrow> mem \<Rightarrow> u64 option" where
  "memchr s c n m = map_option (\<lambda>i. s + of_nat i) (find (\<lambda>i. m (s + of_nat i) = c) [0..<n])"

definition memrchr :: "u64 \<Rightarrow> u8 \<Rightarrow> nat \<Rightarrow> mem \<Rightarrow> u64 option" where
  "memrchr s c n m =
     map_option (\<lambda>i. s + of_nat i) (find (\<lambda>i. m (s + of_nat i) = c) (rev [0..<n]))"

definition memmem :: "u64 \<Rightarrow> u64 \<Rightarrow> u64 \<Rightarrow> u64 \<Rightarrow> mem \<Rightarrow> u64 option" where
  "memmem haystack haystack_len needle needle_len m =
     (if needle_len = 0 then Some haystack
      else if haystack_len < needle_len then None
      else map_option (\<lambda>i. haystack + of_nat i)
             (find (\<lambda>i. memcmp_inline (haystack + of_nat i) needle needle_len m = 0)
                [0..<Suc (unat (haystack_len - needle_len))]))"

section \<open>Ascending copies\<close>

text \<open>
  \<open>moved d s n m\<close> is the memory after a simultaneous copy of \<open>n\<close> bytes.
\<close>

definition moved :: "u64 \<Rightarrow> u64 \<Rightarrow> nat \<Rightarrow> mem \<Rightarrow> mem" where
  "moved d s n m = (\<lambda>a. if unat (a - d) < n then m (s + (a - d)) else m a)"

lemma moved_0 [simp]: "moved d s 0 m = m"
  by (simp add: moved_def)

lemma len64: "LENGTH(64) = 64"
  by simp

lemma unat_shift_base:
  "unat (a - (d + of_nat k) :: u64) =
     (if k \<le> unat (a - d) then unat (a - d) - k else 2 ^ 64 + unat (a - d) - k)"
  if "k < 2 ^ 64"
proof -
  have k: "unat (of_nat k :: u64) = k" using that by (simp add: unat_of_nat)
  have "a - (d + of_nat k) = (a - d) - of_nat k" by simp
  then show ?thesis using unat_sub_if' [of "a - d" "of_nat k"] by (simp only: k len64) (simp add: add.commute)
qed

lemma unat_base_diff:
  assumes "x < 2 ^ 64" and "unat (s - d :: u64) + x < 2 ^ 64"
  shows "unat (s + of_nat x - d) = unat (s - d) + x"
proof -
  have "unat (s - d + of_nat x) = unat (s - d) + x"
    using assms by (subst unat_add_small) (simp_all add: unat_of_nat)
  then show ?thesis by (metis diff_add_eq)
qed

text \<open>
  An ascending copy may be cut into two when the part copied first does not overwrite
  source bytes of the second part.
\<close>

lemma moved_compose:
  assumes "unat (s - d) + (k + n) \<le> 2 ^ 64" and "k < 2 ^ 64"
  shows "moved (d + of_nat k) (s + of_nat k) n (moved d s k m) = moved d s (k + n) m"
proof
  fix a
  let ?x = "a - d"
  have shift: "s + of_nat k + (a - (d + of_nat k)) = s + ?x" by simp
  show "moved (d + of_nat k) (s + of_nat k) n (moved d s k m) a = moved d s (k + n) m a"
  proof (cases "k \<le> unat ?x")
    case True
    have "k \<le> unat (s + ?x - d)" if "unat ?x < k + n"
    proof -
      have "unat (s + of_nat (unat ?x) - d) = unat (s - d) + unat ?x"
        using that assms(1) by (intro unat_base_diff) (simp_all add: unat_lt64)
      then show ?thesis using True by simp
    qed
    then show ?thesis using True assms(2) by (auto simp: moved_def shift unat_shift_base)
  next
    case False
    then show ?thesis using assms by (auto simp: moved_def unat_shift_base)
  qed
qed

lemma rep_movsb_moved:
  "unat (s - d) + n \<le> 2 ^ 64 \<Longrightarrow> rep_movsb n d s m = moved d s n m"
proof (induction n arbitrary: d s m)
  case 0
  then show ?case by simp
next
  case (Suc n)
  have one: "m(d := m s) = moved d s 1 m"
    by (auto simp: moved_def fun_eq_iff unat_eq_0)
  have "rep_movsb (Suc n) d s m = moved (d + 1) (s + 1) n (moved d s 1 m)"
    using Suc by (simp add: one)
  also have "\<dots> = moved d s (Suc n) m"
    using moved_compose [of s d 1 n m] Suc.prems by simp
  finally show ?case .
qed

lemma rep_movsq_moved:
  "unat (s - d) + 8 * n \<le> 2 ^ 64 \<Longrightarrow> rep_movsq n d s m = moved d s (8 * n) m"
proof (induction n arbitrary: d s m)
  case 0
  then show ?case by simp
next
  case (Suc n)
  have one: "(\<lambda>a. if a - d < 8 then m (s + (a - d)) else m a) = moved d s 8 m"
    by (simp add: moved_def word_less_nat_alt)
  have "rep_movsq (Suc n) d s m = moved (d + 8) (s + 8) (8 * n) (moved d s 8 m)"
    using Suc by (simp add: one)
  also have "\<dots> = moved d s (8 * Suc n) m"
    using moved_compose [of s d 8 "8 * n" m] Suc.prems by simp
  finally show ?case .
qed

lemma qword_split: "8 * unat (drop_bit 3 (n :: u64)) + unat (n AND 7) = unat n"
proof -
  have "unat (n AND 7) = unat n mod 8"
    using take_bit_eq_mask [of 3 n] unat_mod [of n 8]
    by (simp add: mask_eq_exp_minus_1 take_bit_eq_mod)
  moreover have "unat (drop_bit 3 n) = unat n div 8" by (simp add: drop_bit_eq_div unat_div)
  ultimately show ?thesis by simp
qed

lemma memcpy_moved:
  assumes "unat (s - d) + unat n \<le> 2 ^ 64"
  shows "memcpy_inline d s n m = moved d s (unat n) m"
proof -
  let ?q = "drop_bit 3 n" and ?r = "unat (n AND 7)"
  have sum: "8 * unat ?q + ?r = unat n" by (rule qword_split)
  have q: "8 * ?q = of_nat (8 * unat ?q)" by simp
  have "memcpy_inline d s n m = moved (d + 8 * ?q) (s + 8 * ?q) ?r (moved d s (8 * unat ?q) m)"
    using assms sum by (simp add: memcpy_inline_def Let_def rep_movsq_moved rep_movsb_moved)
  also have "\<dots> = moved d s (8 * unat ?q + ?r) m"
    unfolding q using assms sum unat_lt64 [of n] by (intro moved_compose) auto
  finally show ?thesis by (simp add: sum)
qed

lemma copy_down_moved:
  "unat (d - s) + n \<le> 2 ^ 64 \<Longrightarrow> copy_down n (d + of_nat n) (s + of_nat n) m = moved d s n m"
proof (induction n arbitrary: m)
  case 0
  then show ?case by simp
next
  case (Suc n)
  let ?m = "m(d + of_nat n := m (s + of_nat n))"
  have n: "n < 2 ^ 64" and un: "unat (of_nat n :: u64) = n"
    using Suc.prems by (simp_all add: unat_of_nat)
  have "copy_down (Suc n) (d + of_nat (Suc n)) (s + of_nat (Suc n)) m
      = copy_down n (d + of_nat n) (s + of_nat n) ?m" by (simp add: algebra_simps)
  also have "\<dots> = moved d s n ?m" using Suc by simp
  also have "\<dots> = moved d s (Suc n) m"
  proof
    fix a
    have keep: "s + (a - d) \<noteq> d + of_nat n" if "unat (a - d) < n"
    proof
      assume "s + (a - d) = d + of_nat n"
      then have "a - d = d + of_nat n - s" by (simp add: algebra_simps)
      moreover have "unat (d + of_nat n - s) = unat (d - s) + n"
        using Suc.prems n by (intro unat_base_diff) simp_all
      ultimately have "unat (a - d) = unat (d - s) + n" by (simp only:)
      then show False using that by simp
    qed
    have eq: "a = d + of_nat n \<longleftrightarrow> unat (a - d) = n"
    proof -
      have "a = d + of_nat n \<longleftrightarrow> a - d = of_nat n" by (auto simp: algebra_simps)
      also have "\<dots> \<longleftrightarrow> unat (a - d) = n" using un by (metis unat_inject)
      finally show ?thesis .
    qed
    show "moved d s n ?m a = moved d s (Suc n) m a"
      using keep eq by (auto simp: moved_def less_Suc_eq)
  qed
  finally show ?case .
qed

text \<open>
  C25. \<open>memmove\<close> copies as if through a temporary buffer: for any two ranges that do
  not run off the end of the address space, overlapping or not, the destination range
  receives the bytes the source range had before the call and every other byte is
  unchanged.
\<close>

theorem memmove_correct:
  assumes "unat dest + unat n \<le> 2 ^ 64" and "unat src + unat n \<le> 2 ^ 64"
  shows "memmove_inline dest src n m =
           (\<lambda>a. if unat (a - dest) < unat n then m (src + (a - dest)) else m a)"
proof -
  have "memmove_inline dest src n m = moved dest src (unat n) m"
  proof (cases "n \<le> dest - src")
    case True
    then have "unat (src - dest) + unat n \<le> 2 ^ 64"
      using assms unat_lt64 [of n] by (auto simp: word_le_nat_alt unat_sub_if' split: if_splits)
    then show ?thesis using True by (simp add: memmove_inline_def memcpy_moved)
  next
    case False
    then have "unat (dest - src) + unat n \<le> 2 ^ 64"
      using assms unat_lt64 [of n] by (auto simp: word_le_nat_alt unat_sub_if' split: if_splits)
    then have "copy_down (unat n) (dest + of_nat (unat n)) (src + of_nat (unat n)) m
      = moved dest src (unat n) m" by (rule copy_down_moved)
    then show ?thesis using False by (simp add: memmove_inline_def)
  qed
  then show ?thesis by (simp add: moved_def)
qed

theorem memmove_correct_witness:
  "let dest = 0x1003 :: u64; src = 0x1000; n = 16; m = (\<lambda>a. ucast a) :: mem
   in memmove_inline dest src n m =
        (\<lambda>a. if unat (a - dest) < unat n then m (src + (a - dest)) else m a)"
  using memmove_correct [of "0x1003" 16 "0x1000" "\<lambda>a. ucast a"] by (simp add: Let_def)

section \<open>Filling and comparing\<close>

definition filled :: "u64 \<Rightarrow> nat \<Rightarrow> u8 \<Rightarrow> mem \<Rightarrow> mem" where
  "filled d n c m = (\<lambda>a. if unat (a - d) < n then c else m a)"

lemma filled_0 [simp]: "filled d 0 c m = m"
  by (simp add: filled_def)

lemma filled_compose:
  assumes "k + n \<le> 2 ^ 64" and "k < 2 ^ 64"
  shows "filled (d + of_nat k) n c (filled d k c m) = filled d (k + n) c m"
  using assms by (auto simp: filled_def fun_eq_iff unat_shift_base)

lemma rep_stosb_filled: "n \<le> 2 ^ 64 \<Longrightarrow> rep_stosb n d c m = filled d n c m"
proof (induction n arbitrary: d m)
  case 0
  then show ?case by simp
next
  case (Suc n)
  have one: "m(d := c) = filled d 1 c m"
    by (auto simp: filled_def fun_eq_iff unat_eq_0)
  show ?case using Suc filled_compose [of 1 n d c m] by (simp add: one)
qed

lemma rep_stosq_filled: "8 * n \<le> 2 ^ 64 \<Longrightarrow> rep_stosq n d c m = filled d (8 * n) c m"
proof (induction n arbitrary: d m)
  case 0
  then show ?case by simp
next
  case (Suc n)
  have one: "(\<lambda>a. if a - d < 8 then c else m a) = filled d 8 c m"
    by (simp add: filled_def word_less_nat_alt)
  show ?case using Suc filled_compose [of 8 "8 * n" d c m] by (simp add: one)
qed

lemma memset_filled: "memset_inline s c n m = filled s (unat n) c m"
proof -
  let ?q = "drop_bit 3 n" and ?r = "unat (n AND 7)"
  have sum: "8 * unat ?q + ?r = unat n" by (rule qword_split)
  have q: "8 * ?q = of_nat (8 * unat ?q)" by simp
  have "memset_inline s c n m = filled (s + 8 * ?q) ?r c (filled s (8 * unat ?q) c m)"
    using sum unat_lt64 [of n] by (simp add: memset_inline_def Let_def rep_stosq_filled rep_stosb_filled)
  also have "\<dots> = filled s (8 * unat ?q + ?r) c m"
    unfolding q using sum unat_lt64 [of n] by (intro filled_compose) auto
  finally show ?thesis by (simp add: sum)
qed

lemma repe_cmpsb_eq_0:
  "repe_cmpsb n p1 p2 m = 0 \<longleftrightarrow> (\<forall>i<n. m (p1 + of_nat i) = m (p2 + of_nat i))"
proof (induction n arbitrary: p1 p2)
  case 0
  then show ?case by simp
next
  case (Suc n)
  have split: "(\<forall>i<Suc n. m (p1 + of_nat i) = m (p2 + of_nat i)) \<longleftrightarrow>
      m p1 = m p2 \<and> (\<forall>i<n. m (p1 + 1 + of_nat i) = m (p2 + 1 + of_nat i))"
    by (auto simp: less_Suc_eq_0_disj add.assoc)
  show ?case by (auto simp: split Suc.IH)
qed

lemma memcmp_eq_0:
  "memcmp_inline s1 s2 n m = 0 \<longleftrightarrow> (\<forall>i<unat n. m (s1 + of_nat i) = m (s2 + of_nat i))"
  by (simp add: memcmp_inline_def repe_cmpsb_eq_0)

text \<open>The first index of a counting loop that satisfies its exit test.\<close>

lemma find_upt_Some:
  "find P [0..<n] = Some i \<longleftrightarrow> i < n \<and> P i \<and> (\<forall>j<i. \<not> P j)"
  by (auto simp: find_Some_iff)

lemma find_upt_None: "find P [0..<n] = None \<longleftrightarrow> (\<forall>j<n. \<not> P j)"
  by (auto simp: find_None_iff)

text \<open>
  \<open>memmem\<close> returns the first place where the needle occurs in the haystack, and
  NULL exactly when it occurs nowhere.
\<close>

theorem memmem_correct:
  "let occurs = (\<lambda>i. i + unat nl \<le> unat hl \<and> (\<forall>k<unat nl. m (h + of_nat i + of_nat k) = m (nd + of_nat k)))
   in case memmem h hl nd nl m of
        Some p \<Rightarrow> \<exists>i. p = h + of_nat i \<and> occurs i \<and> (\<forall>j<i. \<not> occurs j)
      | None \<Rightarrow> \<forall>i. \<not> occurs i"
proof (cases "nl = 0 \<or> hl < nl")
  case True
  then show ?thesis
    by (auto simp: memmem_def Let_def word_less_nat_alt intro: exI [of _ "0::nat"])
next
  case False
  then have "unat (hl - nl) = unat hl - unat nl" and le: "unat nl \<le> unat hl"
    by (simp_all add: unat_sub_small word_le_nat_alt not_less)
  then have bound: "i < Suc (unat (hl - nl)) \<longleftrightarrow> i + unat nl \<le> unat hl" for i by auto
  let ?f = "find (\<lambda>i. memcmp_inline (h + of_nat i) nd nl m = 0) [0..<Suc (unat (hl - nl))]"
  have mm: "memmem h hl nd nl m = map_option (\<lambda>i. h + of_nat i) ?f"
    using False by (simp add: memmem_def)
  show ?thesis
  proof (cases ?f)
    case None
    then have "\<forall>i. \<not> (i + unat nl \<le> unat hl \<and> (\<forall>k<unat nl. m (h + of_nat i + of_nat k) = m (nd + of_nat k)))"
      by (simp add: find_upt_None memcmp_eq_0 bound del: upt_Suc)
    then show ?thesis unfolding mm Let_def None by auto
  next
    case (Some i)
    then have "i + unat nl \<le> unat hl \<and> (\<forall>k<unat nl. m (h + of_nat i + of_nat k) = m (nd + of_nat k)) \<and>
       (\<forall>j<i. \<not> (\<forall>k<unat nl. m (h + of_nat j + of_nat k) = m (nd + of_nat k)))"
      by (simp add: find_upt_Some memcmp_eq_0 bound del: upt_Suc)
    then show ?thesis unfolding mm Let_def Some by auto
  qed
qed

theorem memmem_correct_witness:
  "let m = (\<lambda>a. if a = 5 then 7 else 0) in
   memmem 0 10 5 1 m = Some 5 \<and>
   (\<exists>i. 5 = (0::u64) + of_nat i \<and> (\<forall>k<unat (1::u64). m (0 + of_nat i + of_nat k) = m (5 + of_nat k)))"
proof -
  let ?m = "\<lambda>a::u64. if a = 5 then 7 else (0::u8)"
  have "memmem 0 10 5 1 ?m = Some 5" by code_simp
  then show ?thesis using memmem_correct [of 1 10 ?m 0 5] by (auto simp: Let_def)
qed

end
