(* ===== verification/CString.thy ===== *)
theory CString
  imports Prelude "HOL-Library.Char_ord"
begin

text \<open>
  The string functions of \<^verbatim>\<open>kernel/string.c\<close>. A \<open>const char *\<close> argument is
  the list of the characters before its terminating NUL, so reading the character at
  the end of the list gives NUL (\<open>peek\<close>). A destination buffer is the list of all its
  bytes; a write outside it has no result (\<open>None\<close>). A returned pointer into an
  argument is an offset. The lemmas relate comparison, search, tokenising and bounded
  copying to their specifications on lists.
\<close>

section \<open>Characters\<close>

abbreviation NUL :: char where
  "NUL \<equiv> CHR 0x00"

definition cstring :: "string \<Rightarrow> bool" where
  "cstring s \<longleftrightarrow> NUL \<notin> set s"

definition peek :: "string \<Rightarrow> char" where
  "peek s = (case s of [] \<Rightarrow> NUL | c # _ \<Rightarrow> c)"

text \<open>The value of a character read as \<open>unsigned char\<close> and as (signed) \<open>char\<close>.\<close>

definition cval :: "char \<Rightarrow> int" where
  "cval c = int (of_char c)"

definition schar :: "char \<Rightarrow> int" where
  "schar c = (if cval c < 128 then cval c else cval c - 256)"

definition uchar :: "char \<Rightarrow> u32" where
  "uchar c = of_nat (of_char c)"

definition islower :: "u32 \<Rightarrow> bool" where "islower c \<longleftrightarrow> c - 97 < 26"
definition isupper :: "u32 \<Rightarrow> bool" where "isupper c \<longleftrightarrow> c - 65 < 26"
definition isdigit :: "u32 \<Rightarrow> bool" where "isdigit c \<longleftrightarrow> c - 48 < 10"
definition isalpha :: "u32 \<Rightarrow> bool" where "isalpha c \<longleftrightarrow> islower c \<or> isupper c"
definition isalnum :: "u32 \<Rightarrow> bool" where "isalnum c \<longleftrightarrow> isalpha c \<or> isdigit c"

definition isspace :: "u32 \<Rightarrow> bool" where
  "isspace c \<longleftrightarrow> c = 32 \<or> c = 9 \<or> c = 10 \<or> c = 13 \<or> c = 12 \<or> c = 11"

definition isprint :: "u32 \<Rightarrow> bool" where "isprint c \<longleftrightarrow> c - 0x20 < 0x5f"
definition isblank :: "u32 \<Rightarrow> bool" where "isblank c \<longleftrightarrow> c = 32 \<or> c = 9"
definition iscntrl :: "u32 \<Rightarrow> bool" where "iscntrl c \<longleftrightarrow> c < 0x20 \<or> c = 0x7f"
definition isgraph :: "u32 \<Rightarrow> bool" where "isgraph c \<longleftrightarrow> c - 0x21 < 0x5e"
definition ispunct :: "u32 \<Rightarrow> bool" where "ispunct c \<longleftrightarrow> isgraph c \<and> \<not> isalnum c"

definition isxdigit :: "u32 \<Rightarrow> bool" where
  "isxdigit c \<longleftrightarrow> isdigit c \<or> c - 97 < 6 \<or> c - 65 < 6"

definition toupper :: "u32 \<Rightarrow> u32" where
  "toupper c = (if islower c then c AND 0x5f else c)"

definition tolower :: "u32 \<Rightarrow> u32" where
  "tolower c = (if isupper c then c OR 0x20 else c)"

section \<open>Length and comparison\<close>

fun strlen :: "string \<Rightarrow> nat" where
  "strlen [] = 0"
| "strlen (c # s) = (if c = NUL then 0 else Suc (strlen s))"

fun strnlen :: "string \<Rightarrow> nat \<Rightarrow> nat" where
  "strnlen s 0 = 0"
| "strnlen [] (Suc n) = 0"
| "strnlen (c # s) (Suc n) = (if c = NUL then 0 else Suc (strnlen s n))"

fun strcmp :: "string \<Rightarrow> string \<Rightarrow> int" where
  "strcmp (a # s) (b # t) = (if a \<noteq> b then cval a - cval b else strcmp s t)"
| "strcmp s t = cval (peek s) - cval (peek t)"

fun strncmp :: "string \<Rightarrow> string \<Rightarrow> nat \<Rightarrow> int" where
  "strncmp s t 0 = 0"
| "strncmp s t (Suc n) =
     (let a = peek s; b = peek t
      in if a \<noteq> b \<or> a = NUL then cval a - cval b else strncmp (tl s) (tl t) n)"

definition lower_diff :: "char \<Rightarrow> char \<Rightarrow> int" where
  "lower_diff a b = uint (tolower (uchar a)) - uint (tolower (uchar b))"

fun strcasecmp :: "string \<Rightarrow> string \<Rightarrow> int" where
  "strcasecmp (a # s) (b # t) =
     (let d = lower_diff a b in if d \<noteq> 0 then d else strcasecmp s t)"
| "strcasecmp s t = lower_diff (peek s) (peek t)"

text \<open>
  \<open>n\<close> is decremented before the characters are looked at; only when it was zero does
  it become \<open>(size_t) -1\<close>, and then the result is 0.
\<close>

fun strncasecmp :: "string \<Rightarrow> string \<Rightarrow> nat \<Rightarrow> int" where
  "strncasecmp s t 0 = 0"
| "strncasecmp (a # s) (b # t) (Suc n) =
     (let d = lower_diff a b in if d \<noteq> 0 then d else strncasecmp s t n)"
| "strncasecmp s t (Suc n) = lower_diff (peek s) (peek t)"

section \<open>Searching\<close>

text \<open>\<open>strchr\<close> compares a (signed) character with the \<open>int\<close> argument as it is.\<close>

fun strchr :: "string \<Rightarrow> int \<Rightarrow> nat option" where
  "strchr [] c = (if c = 0 then Some 0 else None)"
| "strchr (x # s) c = (if schar x = c then Some 0 else map_option Suc (strchr s c))"

text \<open>\<open>strrchr\<close> and \<open>strchrnul\<close> convert the argument to \<open>char\<close> first.\<close>

definition to_char :: "int \<Rightarrow> int" where
  "to_char c = (let v = c mod 256 in if v < 128 then v else v - 256)"

fun strrchr_from :: "nat \<Rightarrow> nat option \<Rightarrow> string \<Rightarrow> int \<Rightarrow> nat option" where
  "strrchr_from i prev [] c = (if to_char c = 0 then Some i else prev)"
| "strrchr_from i prev (x # s) c =
     strrchr_from (Suc i) (if schar x = to_char c then Some i else prev) s c"

definition strrchr :: "string \<Rightarrow> int \<Rightarrow> nat option" where
  "strrchr s c = strrchr_from 0 None s c"

fun strchrnul :: "string \<Rightarrow> int \<Rightarrow> nat" where
  "strchrnul [] c = 0"
| "strchrnul (x # s) c = (if schar x = to_char c then 0 else Suc (strchrnul s c))"

fun char_in :: "char \<Rightarrow> string \<Rightarrow> bool" where
  "char_in c [] = False"
| "char_in c (a # as) = (if c = a then True else char_in c as)"

fun strspn :: "string \<Rightarrow> string \<Rightarrow> nat" where
  "strspn [] accept = 0"
| "strspn (c # s) accept = (if char_in c accept then Suc (strspn s accept) else 0)"

fun strcspn :: "string \<Rightarrow> string \<Rightarrow> nat" where
  "strcspn [] reject = 0"
| "strcspn (c # s) reject = (if char_in c reject then 0 else Suc (strcspn s reject))"

fun strpbrk :: "string \<Rightarrow> string \<Rightarrow> nat option" where
  "strpbrk [] accept = None"
| "strpbrk (c # s) accept = (if char_in c accept then Some 0 else map_option Suc (strpbrk s accept))"

text \<open>\<open>memcmp\<close> on the first \<open>n\<close> characters of two character sequences.\<close>

fun memcmp_chars :: "string \<Rightarrow> string \<Rightarrow> nat \<Rightarrow> int" where
  "memcmp_chars s t 0 = 0"
| "memcmp_chars s t (Suc n) =
     (if peek s \<noteq> peek t then cval (peek s) - cval (peek t) else memcmp_chars (tl s) (tl t) n)"

definition strnstr_internal :: "string \<Rightarrow> string \<Rightarrow> nat \<Rightarrow> bool \<Rightarrow> nat option" where
  "strnstr_internal haystack needle len ignore_case =
     (let nlen = strlen needle
      in if nlen = 0 then Some 0
         else let hlen = strnlen haystack len
         in if hlen < nlen then None
            else find (\<lambda>i. (if ignore_case then strncasecmp (drop i haystack) needle nlen
                            else memcmp_chars (drop i haystack) needle nlen) = 0)
                   [0..<Suc (hlen - nlen)])"

definition strnstr :: "string \<Rightarrow> string \<Rightarrow> nat \<Rightarrow> nat option" where
  "strnstr haystack needle len = strnstr_internal haystack needle len False"

definition strncasestr :: "string \<Rightarrow> string \<Rightarrow> nat \<Rightarrow> nat option" where
  "strncasestr haystack needle len = strnstr_internal haystack needle len True"

definition SIZE_MAX :: nat where
  "SIZE_MAX = 2 ^ 64 - 1"

definition strstr :: "string \<Rightarrow> string \<Rightarrow> nat option" where
  "strstr haystack needle = strnstr_internal haystack needle SIZE_MAX False"

definition strcasestr :: "string \<Rightarrow> string \<Rightarrow> nat option" where
  "strcasestr haystack needle = strnstr_internal haystack needle SIZE_MAX True"

section \<open>Tokenising\<close>

text \<open>
  The save pointer is NULL or the rest of the string. A call returns the token and the
  new save pointer; the character after the token is overwritten by NUL in the source,
  so the token ends there.
\<close>

definition strtok_r :: "string option \<Rightarrow> string \<Rightarrow> string option \<Rightarrow> string option \<times> string option" where
  "strtok_r str delim saveptr =
     (let save1 = (case str of Some s \<Rightarrow> Some s | None \<Rightarrow> saveptr)
      in case save1 of
           None \<Rightarrow> (None, save1)
         | Some p \<Rightarrow>
             if p = [] then (None, save1)
             else let p1 = drop (strspn p delim) p
                  in if p1 = [] then (None, None)
                     else let n = strcspn p1 delim; p2 = drop n p1
                          in (Some (take n p1), if p2 \<noteq> [] then Some (tl p2) else None))"

definition strsep :: "string option \<Rightarrow> string \<Rightarrow> string option \<times> string option" where
  "strsep stringp delim =
     (case stringp of
        None \<Rightarrow> (None, None)
      | Some start \<Rightarrow>
          (case strpbrk start delim of
             Some i \<Rightarrow> (Some (take i start), Some (drop (Suc i) start))
           | None \<Rightarrow> (Some start, None)))"

section \<open>Copying into buffers\<close>

definition bput :: "char list \<Rightarrow> nat \<Rightarrow> char \<Rightarrow> char list option" where
  "bput buf i c = (if i < length buf then Some (buf[i := c]) else None)"

fun copy_str :: "char list \<Rightarrow> nat \<Rightarrow> string \<Rightarrow> char list option" where
  "copy_str dest i [] = bput dest i NUL"
| "copy_str dest i (c # s) = Option.bind (bput dest i c) (\<lambda>d. copy_str d (Suc i) s)"

fun nul_at :: "char list \<Rightarrow> nat option" where
  "nul_at [] = None"
| "nul_at (c # s) = (if c = NUL then Some 0 else map_option Suc (nul_at s))"

definition strcpy :: "char list \<Rightarrow> string \<Rightarrow> char list option" where
  "strcpy dest src = copy_str dest 0 src"

definition stpcpy :: "char list \<Rightarrow> string \<Rightarrow> (nat \<times> char list) option" where
  "stpcpy dest src = map_option (Pair (strlen src)) (copy_str dest 0 src)"

definition strcat :: "char list \<Rightarrow> string \<Rightarrow> char list option" where
  "strcat dest src = Option.bind (nul_at dest) (\<lambda>i. copy_str dest i src)"

fun strncpy_from :: "char list \<Rightarrow> nat \<Rightarrow> string \<Rightarrow> nat \<Rightarrow> char list option" where
  "strncpy_from dest i src 0 = Some dest"
| "strncpy_from dest i src (Suc n) =
     Option.bind (bput dest i (peek src)) (\<lambda>d. strncpy_from d (Suc i) (tl src) n)"

definition strncpy :: "char list \<Rightarrow> string \<Rightarrow> nat \<Rightarrow> char list option" where
  "strncpy dest src n = strncpy_from dest 0 src n"

definition stpncpy :: "char list \<Rightarrow> string \<Rightarrow> nat \<Rightarrow> (nat \<times> char list) option" where
  "stpncpy dest src n = map_option (Pair (strnlen src n)) (strncpy_from dest 0 src n)"

fun put_chars :: "char list \<Rightarrow> nat \<Rightarrow> string \<Rightarrow> char list option" where
  "put_chars dest i [] = Some dest"
| "put_chars dest i (c # s) = Option.bind (bput dest i c) (\<lambda>d. put_chars d (Suc i) s)"

definition strncat :: "char list \<Rightarrow> string \<Rightarrow> nat \<Rightarrow> char list option" where
  "strncat dest src n = Option.bind (nul_at dest) (\<lambda>i. copy_str dest i (take n src))"

definition strlcpy :: "char list \<Rightarrow> string \<Rightarrow> nat \<Rightarrow> (nat \<times> char list) option" where
  "strlcpy dst src sz =
     (let srclen = strlen src
      in if sz = 0 then Some (srclen, dst)
         else let n = (if srclen < sz - 1 then srclen else sz - 1)
              in Option.bind (put_chars dst 0 (take n src)) (\<lambda>d.
                 map_option (Pair srclen) (bput d n NUL)))"

definition strlcat :: "char list \<Rightarrow> string \<Rightarrow> nat \<Rightarrow> (nat \<times> char list) option" where
  "strlcat dst src sz =
     (let dstlen = strnlen dst sz; srclen = strlen src
      in if dstlen = sz then Some (sz + srclen, dst)
         else let avail = sz - dstlen;
                  n = (if srclen < avail - 1 then srclen else avail - 1)
              in Option.bind (put_chars dst dstlen (take n src)) (\<lambda>d.
                 map_option (Pair (dstlen + srclen)) (bput d (dstlen + n) NUL)))"

text \<open>\<open>strdup\<close> and \<open>strndup\<close>, with the result of the allocation as an argument.\<close>

definition strdup :: "string \<Rightarrow> char list option \<Rightarrow> char list option" where
  "strdup str copy = (case copy of None \<Rightarrow> None | Some buf \<Rightarrow> copy_str buf 0 str)"

definition strndup :: "string \<Rightarrow> nat \<Rightarrow> char list option \<Rightarrow> char list option" where
  "strndup str n copy =
     (let len = strnlen str n
      in case copy of None \<Rightarrow> None
         | Some buf \<Rightarrow> Option.bind (put_chars buf 0 (take len str)) (\<lambda>d. bput d len NUL))"

section \<open>In-place transformations\<close>

function swap_ends :: "int \<Rightarrow> int \<Rightarrow> string \<Rightarrow> string" where
  "swap_ends l r s =
     (if l < r then swap_ends (l + 1) (r - 1) (s[nat l := s ! nat r, nat r := s ! nat l])
      else s)"
  by pat_completeness auto
termination
  by (relation "measure (\<lambda>(l, r, s). nat (r - l))") auto

declare swap_ends.simps [simp del]

definition strrev :: "string \<Rightarrow> string" where
  "strrev s = swap_ends 0 (int (strlen s) - 1) s"

definition char_of_u32 :: "u32 \<Rightarrow> char" where
  "char_of_u32 c = char_of (unat c)"

definition strtoupper :: "string \<Rightarrow> string" where
  "strtoupper s = map (\<lambda>c. char_of_u32 (toupper (uchar c))) s"

definition strtolower :: "string \<Rightarrow> string" where
  "strtolower s = map (\<lambda>c. char_of_u32 (tolower (uchar c))) s"

section \<open>Basic facts\<close>

lemma cstring_Nil [simp]: "cstring []"
  by (simp add: cstring_def)

lemma cstring_Cons [simp]: "cstring (c # s) \<longleftrightarrow> c \<noteq> NUL \<and> cstring s"
  by (auto simp: cstring_def)

lemma cstring_drop [simp]: "cstring s \<Longrightarrow> cstring (drop n s)"
  by (auto simp: cstring_def dest: in_set_dropD)

lemma peek_simps [simp]: "peek [] = NUL" "peek (c # s) = c"
  by (simp_all add: peek_def)

lemma cval_NUL [simp]: "cval NUL = 0"
  by (simp add: cval_def)

lemma cval_inject [simp]: "cval a = cval b \<longleftrightarrow> a = b"
  by (simp add: cval_def)

lemma cval_less [simp]: "cval a < cval b \<longleftrightarrow> a < b"
  by (simp add: cval_def less_char_def)

lemma cval_nonneg [simp]: "0 \<le> cval a"
  by (simp add: cval_def)

lemma cval_not_neg [simp]: "\<not> cval a < 0"
  by (simp add: cval_def)

lemma cval_zero [simp]: "cval a = 0 \<longleftrightarrow> a = NUL"
  using cval_inject [of a NUL] by (simp del: cval_inject)

lemma cval_pos [simp]: "0 < cval a \<longleftrightarrow> a \<noteq> NUL"
  using cval_nonneg [of a] cval_zero [of a] by linarith

lemma strlen_cstring [simp]: "cstring s \<Longrightarrow> strlen s = length s"
  by (induction s) simp_all

lemma strnlen_cstring [simp]: "cstring s \<Longrightarrow> strnlen s n = min (length s) n"
proof (induction s arbitrary: n)
  case Nil
  show ?case by (cases n) simp_all
next
  case (Cons c s)
  then show ?case by (cases n) simp_all
qed

lemma strnlen_le: "strnlen s n \<le> n"
  by (induction s n rule: strnlen.induct) auto

section \<open>Comparison\<close>

text \<open>
  \<open>strcmp\<close> decides the lexicographic order of byte strings: it is zero exactly on
  equal strings and negative exactly when the first string comes before the second.
\<close>

theorem strcmp_lexicographic:
  assumes "cstring s" and "cstring t"
  shows "(strcmp s t = 0 \<longleftrightarrow> s = t) \<and> (strcmp s t < 0 \<longleftrightarrow> (s, t) \<in> lexord {(a, b). a < b})"
  using assms
proof (induction s arbitrary: t)
  case Nil
  then show ?case by (cases t) auto
next
  case (Cons a s)
  then show ?case by (cases t) auto
qed

theorem strcmp_lexicographic_witness:
  "cstring ''rwlock'' \<and> cstring ''rcu'' \<and>
   (strcmp ''rwlock'' ''rcu'' = 0 \<longleftrightarrow> ''rwlock'' = ''rcu'') \<and>
   (strcmp ''rwlock'' ''rcu'' < 0 \<longleftrightarrow> (''rwlock'', ''rcu'') \<in> lexord {(a, b). a < b})"
proof -
  have h: "cstring ''rwlock''" "cstring ''rcu''" by simp_all
  show ?thesis using h strcmp_lexicographic [OF h] by blast
qed

lemma of_char_less_256: "(of_char c :: nat) < 256"
  by simp

lemma unat_uchar: "unat (uchar c) = of_char c"
  unfolding uchar_def by (rule unat_of_nat_small) (rule less_trans [OF of_char_less_256], simp)

lemma uchar_eq_0 [simp]: "uchar c = 0 \<longleftrightarrow> c = NUL"
  using cval_zero [of c] unat_uchar [of c] by (metis cval_def of_nat_eq_0_iff unat_eq_0)

lemma tolower_eq_0 [simp]: "tolower c = 0 \<longleftrightarrow> c = 0"
  by (auto simp: tolower_def isupper_def or_eq_0_iff)

definition lower :: "char \<Rightarrow> u32" where
  "lower c = tolower (uchar c)"

lemma lower_eq_0 [simp]: "lower c = 0 \<longleftrightarrow> c = NUL"
  by (simp add: lower_def)

lemma zero_eq_lower [simp]: "0 = lower c \<longleftrightarrow> c = NUL"
  by (metis lower_eq_0)

lemma lower_diff_eq_0 [simp]: "lower_diff a b = 0 \<longleftrightarrow> lower a = lower b"
  by (simp add: lower_diff_def lower_def)

lemma lower_NUL: "lower NUL = 0"
  by simp

text \<open>
  \<open>strncasecmp\<close> is zero exactly when the first \<open>n\<close> characters of the two strings
  agree up to ASCII case.
\<close>

theorem strncasecmp_eq_0:
  assumes "cstring s" and "cstring t"
  shows "strncasecmp s t n = 0 \<longleftrightarrow> map lower (take n s) = map lower (take n t)"
  using assms
proof (induction n arbitrary: s t)
  case (Suc n)
  then show ?case by (cases s; cases t) (auto simp: Let_def lower_NUL)
qed simp

theorem strncasecmp_eq_0_witness:
  "cstring ''SecondsX'' \<and> cstring ''seconds'' \<and>
   (strncasecmp ''SecondsX'' ''seconds'' 7 = 0 \<longleftrightarrow>
    map lower (take 7 ''SecondsX'') = map lower (take 7 ''seconds''))"
proof -
  have h: "cstring ''SecondsX''" "cstring ''seconds''" by simp_all
  show ?thesis using h strncasecmp_eq_0 [OF h] by blast
qed

section \<open>Searching\<close>

lemma memcmp_chars_eq_0:
  "n \<le> length s \<Longrightarrow> n \<le> length t \<Longrightarrow> memcmp_chars s t n = 0 \<longleftrightarrow> take n s = take n t"
proof (induction s t n rule: memcmp_chars.induct)
  case (1 s t)
  then show ?case by simp
next
  case (2 s t n)
  then show ?case by (cases s; cases t) auto
qed

lemma find_upt_Some_iff:
  "find P [0..<n] = Some i \<longleftrightarrow> i < n \<and> P i \<and> (\<forall>j<i. \<not> P j)"
  by (auto simp: find_Some_iff)

definition occurs_at :: "string \<Rightarrow> string \<Rightarrow> nat \<Rightarrow> bool" where
  "occurs_at h nd i \<longleftrightarrow> i + length nd \<le> length h \<and> take (length nd) (drop i h) = nd"

lemma strstr_spec:
  assumes "cstring h" and "cstring nd" and "length h \<le> SIZE_MAX"
  shows "case strstr h nd of
           Some i \<Rightarrow> occurs_at h nd i \<and> (\<forall>j<i. \<not> occurs_at h nd j)
         | None \<Rightarrow> \<forall>i. \<not> occurs_at h nd i"
proof (cases "nd = [] \<or> length h < length nd")
  case True
  then show ?thesis
    using assms by (auto simp: strstr_def strnstr_internal_def occurs_at_def Let_def)
next
  case False
  let ?test = "\<lambda>i. memcmp_chars (drop i h) nd (length nd) = 0"
  let ?n = "Suc (length h - length nd)"
  have test: "i < ?n \<Longrightarrow> ?test i \<longleftrightarrow> occurs_at h nd i" for i
    using False by (subst memcmp_chars_eq_0) (auto simp: occurs_at_def)
  have out: "\<not> i < ?n \<Longrightarrow> \<not> occurs_at h nd i" for i
    using False by (auto simp: occurs_at_def)
  have f: "strstr h nd = find ?test [0..<?n]"
    using assms False by (simp add: strstr_def strnstr_internal_def Let_def min_absorb1)
  show ?thesis
  proof (cases "find ?test [0..<?n]")
    case None
    then have "\<forall>i<?n. \<not> ?test i" by (auto simp: find_None_iff simp del: upt_Suc)
    then have "\<not> occurs_at h nd i" for i using test out by blast
    then show ?thesis by (simp add: f None del: upt_Suc)
  next
    case (Some i)
    then have "i < ?n" "?test i" "\<forall>j<i. \<not> ?test j"
      by (simp_all add: find_upt_Some_iff del: upt_Suc)
    then have "occurs_at h nd i \<and> (\<forall>j<i. \<not> occurs_at h nd j)"
      using test less_trans by blast
    then show ?thesis by (simp add: f Some del: upt_Suc)
  qed
qed

text \<open>
  C26. \<open>strstr\<close> returns the offset of the first occurrence of the needle, and NULL
  exactly when the needle does not occur.
\<close>

theorem strstr_first_occurrence:
  assumes "cstring h" and "cstring nd" and "length h \<le> SIZE_MAX"
  shows "case strstr h nd of
           Some i \<Rightarrow> occurs_at h nd i \<and> (\<forall>j<i. \<not> occurs_at h nd j)
         | None \<Rightarrow> \<forall>i. \<not> occurs_at h nd i"
  using assms by (rule strstr_spec)

theorem strstr_first_occurrence_witness:
  "cstring ''10..20..30'' \<and> cstring ''..'' \<and> length ''10..20..30'' \<le> SIZE_MAX \<and>
   (case strstr ''10..20..30'' ''..'' of
      Some i \<Rightarrow> occurs_at ''10..20..30'' ''..'' i \<and> (\<forall>j<i. \<not> occurs_at ''10..20..30'' ''..'' j)
    | None \<Rightarrow> \<forall>i. \<not> occurs_at ''10..20..30'' ''..'' i)"
proof -
  have h: "cstring ''10..20..30''" "cstring ''..''" "length ''10..20..30'' \<le> SIZE_MAX"
    by (simp_all add: SIZE_MAX_def)
  show ?thesis using h strstr_first_occurrence [OF h] by blast
qed

section \<open>Tokenising\<close>

lemma char_in_set [simp]: "char_in c as \<longleftrightarrow> c \<in> set as"
  by (induction "as") auto

lemma strspn_takeWhile: "strspn s accept = length (takeWhile (\<lambda>c. c \<in> set accept) s)"
  by (induction s) auto

lemma strcspn_takeWhile: "strcspn s reject = length (takeWhile (\<lambda>c. c \<notin> set reject) s)"
  by (induction s) auto

lemma strpbrk_strcspn:
  "strpbrk s accept = (if strcspn s accept < length s then Some (strcspn s accept) else None)"
  by (induction s) auto

lemma drop_takeWhile: "drop (length (takeWhile P s)) s = dropWhile P s"
  by (simp add: dropWhile_eq_drop)

lemma take_takeWhile: "take (length (takeWhile P s)) s = takeWhile P s"
  by (simp flip: takeWhile_eq_take)

text \<open>The fields of a string, cut at every delimiter.\<close>

fun fields :: "string \<Rightarrow> string \<Rightarrow> string list" where
  "fields d [] = [[]]"
| "fields d (c # s) =
     (if c \<in> set d then [] # fields d s
      else case fields d s of [] \<Rightarrow> [[c]] | f # fs \<Rightarrow> (c # f) # fs)"

lemma fields_step:
  "fields d s = (case dropWhile (\<lambda>c. c \<notin> set d) s of
      [] \<Rightarrow> [s] | _ # r \<Rightarrow> takeWhile (\<lambda>c. c \<notin> set d) s # fields d r)"
  by (induction s) (auto split: list.splits simp del: dropWhile_eq_Nil_conv)

lemma fields_skip:
  "filter (\<lambda>f. f \<noteq> []) (fields d (dropWhile (\<lambda>c. c \<in> set d) s)) = filter (\<lambda>f. f \<noteq> []) (fields d s)"
  by (induction s) auto

text \<open>The loops that callers of \<open>strsep\<close> and \<open>strtok_r\<close> run.\<close>

function strsep_all :: "string option \<Rightarrow> string \<Rightarrow> string list" where
  "strsep_all p d = (case strsep p d of (None, _) \<Rightarrow> [] | (Some t, p') \<Rightarrow> t # strsep_all p' d)"
  by pat_completeness auto
termination
  by (relation "measure (\<lambda>(p, d). case p of None \<Rightarrow> 0 | Some s \<Rightarrow> Suc (length s))")
    (auto simp: strsep_def strpbrk_strcspn split: option.splits if_splits)

function strtok_all :: "string option \<Rightarrow> string \<Rightarrow> string list" where
  "strtok_all p d =
     (case strtok_r None d p of (None, _) \<Rightarrow> [] | (Some t, p') \<Rightarrow> t # strtok_all p' d)"
  by pat_completeness auto
termination
  by (relation "measure (\<lambda>(p, d). case p of None \<Rightarrow> 0 | Some s \<Rightarrow> Suc (length s))")
    (auto simp: strtok_r_def Let_def strspn_takeWhile split: option.splits if_splits)

declare strsep_all.simps [simp del] strtok_all.simps [simp del]

text \<open>
  Calling \<open>strsep\<close> until it returns NULL yields every field of the string, empty
  fields included, in order.
\<close>

theorem strsep_all_fields: "strsep_all (Some s) d = fields d s"
proof (induction "length s" arbitrary: s rule: less_induct)
  case less
  let ?P = "\<lambda>c. c \<notin> set d"
  have none: "strsep_all None d = []" by (simp add: strsep_all.simps strsep_def)
  show ?case
  proof (cases "dropWhile ?P s")
    case Nil
    then have all: "takeWhile ?P s = s" by (metis append_Nil2 takeWhile_dropWhile_id)
    then have "strsep (Some s) d = (Some s, None)"
      by (simp add: strsep_def strpbrk_strcspn strcspn_takeWhile all)
    then show ?thesis by (simp add: strsep_all.simps [of "Some s"] none fields_step [of d s] Nil)
  next
    case (Cons c r)
    then have app: "s = takeWhile ?P s @ c # r" by (metis takeWhile_dropWhile_id)
    then have len: "length s = length (takeWhile ?P s) + Suc (length r)"
      by (metis length_append length_Cons)
    then have "drop (Suc (length (takeWhile ?P s))) s = r"
      using Cons by (metis drop_Suc drop_takeWhile list.sel(3) tl_drop)
    then have "strsep (Some s) d = (Some (takeWhile ?P s), Some r)"
      using len by (simp add: strsep_def strpbrk_strcspn strcspn_takeWhile take_takeWhile)
    moreover have "strsep_all (Some r) d = fields d r" using less len by simp
    ultimately show ?thesis
      using Cons by (simp add: strsep_all.simps [of "Some s"] fields_step [of d s])
  qed
qed

text \<open>
  C27. Calling \<open>strtok_r\<close> until it returns NULL yields exactly the non-empty fields of
  the string, in order.
\<close>

theorem strtok_all_nonempty_fields:
  "strtok_all (Some s) d = filter (\<lambda>f. f \<noteq> []) (fields d s)"
proof (induction "length s" arbitrary: s rule: less_induct)
  case less
  let ?Q = "\<lambda>c. c \<notin> set d" and ?P = "\<lambda>c. c \<in> set d" and ?ne = "\<lambda>f. f \<noteq> []"
  define p where "p = dropWhile ?P s"
  have none: "strtok_all None d = []" by (simp add: strtok_all.simps strtok_r_def)
  have rhs: "filter ?ne (fields d s) = filter ?ne (fields d p)"
    unfolding p_def by (rule fields_skip [symmetric])
  have step: "strtok_all (Some s) d =
      (if p = [] then [] else takeWhile ?Q p #
        strtok_all (case dropWhile ?Q p of [] \<Rightarrow> None | _ # r \<Rightarrow> Some r) d)"
    unfolding strtok_all.simps [of "Some s"]
    by (cases "s = []", simp add: strtok_r_def p_def) (auto simp: strtok_r_def Let_def strspn_takeWhile drop_takeWhile
        strcspn_takeWhile take_takeWhile p_def [symmetric] split: list.split
        simp del: drop_eq_Nil drop_eq_Nil2 dropWhile_eq_Nil_conv)
  show ?case
  proof (cases "p = []")
    case True
    then show ?thesis unfolding rhs step by simp
  next
    case False
    have first: "takeWhile ?Q p \<noteq> []"
      using False hd_dropWhile [of ?P s] by (cases p) (auto simp: p_def)
    show ?thesis
    proof (cases "dropWhile ?Q p")
      case Nil
      then have "takeWhile ?Q p = p" by (metis append_Nil2 takeWhile_dropWhile_id)
      then show ?thesis unfolding rhs step fields_step [of d p] Nil using False by (simp add: none)
    next
      case (Cons c r)
      have "length p = length (takeWhile ?Q p) + length (c # r)"
        by (metis Cons length_append takeWhile_dropWhile_id)
      then have "length r < length s" using length_dropWhile_le [of ?P s] by (simp add: p_def)
      then have "strtok_all (Some r) d = filter ?ne (fields d r)" by (rule less)
      then show ?thesis unfolding rhs step fields_step [of d p] Cons using False first by simp
    qed
  qed
qed

section \<open>Bounded copies\<close>

lemma put_chars_ok:
  "i + length s \<le> length dst \<Longrightarrow>
   put_chars dst i s = Some (take i dst @ s @ drop (i + length s) dst)"
proof (induction s arbitrary: dst i)
  case Nil
  then show ?case by simp
next
  case (Cons c s)
  then have "i < length dst" by simp
  then have "take (Suc i) (dst[i := c]) = take i dst @ [c]"
    by (simp add: take_Suc_conv_app_nth)
  then show ?case using Cons by (simp add: bput_def)
qed

lemma copy_str_put: "copy_str dst i s = Option.bind (put_chars dst i s) (\<lambda>d. bput d (i + length s) NUL)"
  by (induction s arbitrary: dst i) (auto simp: bput_def cong: if_cong)

lemma length_put_chars: "put_chars dst i s = Some d \<Longrightarrow> length d = length dst"
  by (induction s arbitrary: dst i) (auto simp: bput_def split: if_splits)

lemma put_chars_NUL:
  assumes "i + length s < length dst"
  shows "Option.bind (put_chars dst i s) (\<lambda>d. bput d (i + length s) NUL)
       = Some (take i dst @ s @ NUL # drop (Suc (i + length s)) dst)"
  using assms by (simp add: put_chars_ok bput_def list_update_append Cons_nth_drop_Suc [symmetric])

text \<open>
  C28. \<open>strlcpy\<close> into a buffer of at least \<open>size > 0\<close> bytes stays within the first
  \<open>size\<close> bytes, leaves a terminated string that is the longest prefix of the source
  that fits, and returns the length of the source.
\<close>

theorem strlcpy_bounded:
  assumes "cstring src" and "0 < sz" and "sz \<le> length dst"
  shows "strlcpy dst src sz =
           Some (length src, let p = take (sz - 1) src in p @ NUL # drop (Suc (length p)) dst)"
proof -
  define n where "n = (if length src < sz - 1 then length src else sz - 1)"
  have tk: "take n src = take (sz - 1) src" and ln: "min (length src) n = n"
    by (auto simp: n_def)
  have "n < length dst" using assms by (auto simp: n_def)
  then have "Option.bind (put_chars dst 0 (take n src)) (\<lambda>d. bput d n NUL)
      = Some (take n src @ NUL # drop (Suc n) dst)"
    using put_chars_NUL [of 0 "take n src" dst] by (simp add: ln)
  then have "Option.bind (put_chars dst 0 (take n src)) (\<lambda>d. map_option (Pair (length src)) (bput d n NUL))
      = Some (length src, take n src @ NUL # drop (Suc n) dst)"
    by (cases "put_chars dst 0 (take n src)") auto
  moreover have "strlcpy dst src sz = Option.bind (put_chars dst 0 (take n src))
      (\<lambda>d. map_option (Pair (length src)) (bput d n NUL))"
    using assms unfolding strlcpy_def Let_def n_def by simp
  ultimately show ?thesis using ln by (simp only: Let_def tk [symmetric] length_take)
qed

theorem strlcpy_bounded_witness:
  "let dst = replicate 8 CHR ''x''; src = ''scheduler''; sz = 6
   in cstring src \<and> 0 < sz \<and> sz \<le> length dst \<and>
      strlcpy dst src sz =
        Some (length src, let p = take (sz - 1) src in p @ NUL # drop (Suc (length p)) dst)"
  using strlcpy_bounded [of "''scheduler''" 6 "replicate 8 CHR ''x''"]
  by (simp only: Let_def) (simp add: eval_nat_numeral)

text \<open>
  \<open>strlcat\<close> on a buffer that holds a terminated string within its first \<open>size\<close>
  bytes appends the longest prefix of the source that fits, keeps the result
  terminated, touches nothing beyond \<open>size\<close> bytes and returns the length it tried to
  create.
\<close>

theorem strlcat_bounded:
  assumes "cstring src" and "strnlen dst sz = dl" and "dl < sz" and "sz \<le> length dst"
  shows "strlcat dst src sz =
           Some (dl + length src,
                 let p = take (sz - dl - 1) src
                 in take dl dst @ p @ NUL # drop (Suc (dl + length p)) dst)"
proof -
  define n where "n = (if length src < sz - dl - 1 then length src else sz - dl - 1)"
  have tk: "take n src = take (sz - dl - 1) src" and ln: "min (length src) n = n"
    by (auto simp: n_def)
  have "dl + n < length dst" using assms by (auto simp: n_def)
  then have "Option.bind (put_chars dst dl (take n src)) (\<lambda>d. bput d (dl + n) NUL)
      = Some (take dl dst @ take n src @ NUL # drop (Suc (dl + n)) dst)"
    using put_chars_NUL [of dl "take n src" dst] by (simp add: ln)
  then have "Option.bind (put_chars dst dl (take n src))
        (\<lambda>d. map_option (Pair (dl + length src)) (bput d (dl + n) NUL))
      = Some (dl + length src, take dl dst @ take n src @ NUL # drop (Suc (dl + n)) dst)"
    by (cases "put_chars dst dl (take n src)") auto
  moreover have "strlcat dst src sz = Option.bind (put_chars dst dl (take n src))
      (\<lambda>d. map_option (Pair (dl + length src)) (bput d (dl + n) NUL))"
    using assms unfolding strlcat_def Let_def n_def by simp
  ultimately show ?thesis using ln by (simp only: Let_def tk [symmetric] length_take)
qed

theorem strlcat_bounded_witness:
  "let dst = ''irq'' @ NUL # replicate 4 CHR ''x''; src = ''level''; sz = 7
   in cstring src \<and> strnlen dst sz = 3 \<and> 3 < sz \<and> sz \<le> length dst \<and>
      strlcat dst src sz =
        Some (3 + length src,
              let p = take (sz - 3 - 1) src
              in take 3 dst @ p @ NUL # drop (Suc (3 + length p)) dst)"
  using strlcat_bounded [of "''level''" "''irq'' @ NUL # replicate 4 CHR ''x''" 7 3]
  by (simp only: Let_def) (simp add: eval_nat_numeral)

section \<open>Reversal\<close>

lemma swap_ends_nth:
  assumes "0 \<le> l" and "r < int (length s)" and "i < length s"
  shows "length (swap_ends l r s) = length s \<and>
         swap_ends l r s ! i = (if l \<le> int i \<and> int i \<le> r then s ! nat (l + r - int i) else s ! i)"
  using assms
proof (induction l r s rule: swap_ends.induct)
  case (1 l r s)
  show ?case
  proof (cases "l < r")
    case True
    let ?s = "s[nat l := s ! nat r, nat r := s ! nat l]"
    have IH: "length (swap_ends (l + 1) (r - 1) ?s) = length ?s \<and>
        swap_ends (l + 1) (r - 1) ?s ! i =
        (if l + 1 \<le> int i \<and> int i \<le> r - 1 then ?s ! nat (l + 1 + (r - 1) - int i) else ?s ! i)"
      using "1.IH" [OF True] "1.prems" by simp
    have mid: "?s ! nat (l + r - int i) = s ! nat (l + r - int i)" if "l + 1 \<le> int i" "int i \<le> r - 1"
      using that "1.prems" by (subst nth_list_update) (auto simp: nth_list_update)
    have ends: "?s ! i = (if int i = l then s ! nat r else if int i = r then s ! nat l else s ! i)"
      using True "1.prems" by (auto simp: nth_list_update)
    show ?thesis
      unfolding swap_ends.simps [of l r s] using IH mid ends True by auto
  next
    case False
    then have "l \<le> int i \<and> int i \<le> r \<Longrightarrow> nat (l + r - int i) = i" by auto
    then show ?thesis using False by (auto simp: swap_ends.simps [of l r s])
  qed
qed

text \<open>
  \<open>strrev\<close>, which swaps characters from both ends inward, reverses the string.
\<close>

theorem strrev_correct: "cstring s \<Longrightarrow> strrev s = rev s"
proof (rule nth_equalityI)
  assume c: "cstring s"
  show "length (strrev s) = length (rev s)"
  proof (cases "s = []")
    case True
    then show ?thesis by (simp add: strrev_def swap_ends.simps)
  next
    case False
    then show ?thesis using swap_ends_nth [of 0 "int (length s) - 1" s 0] c by (simp add: strrev_def)
  qed
  fix i assume "i < length (strrev s)"
  then have "i < length s" using \<open>length (strrev s) = length (rev s)\<close> by simp
  moreover from this have "nat (0 + (int (length s) - 1) - int i) = length s - Suc i" by simp
  ultimately show "strrev s ! i = rev s ! i"
    using swap_ends_nth [of 0 "int (length s) - 1" s i] c by (simp add: strrev_def rev_nth)
qed

theorem strrev_correct_witness: "cstring ''charmos'' \<and> strrev ''charmos'' = rev ''charmos''"
  using strrev_correct [of "''charmos''"] by simp

end
