(* ===== verification/CNum.thy ===== *)
theory CNum
  imports CString
begin

text \<open>
  The conversions between numbers and text of \<^verbatim>\<open>kernel/string.c\<close>: \<open>utoa\<close>,
  \<open>itoa\<close>, \<open>atoi\<close>, \<open>atoui\<close>, \<open>atohex\<close>, \<open>strtol\<close>, \<open>strtoull\<close> and their aliases.
  A \<open>long\<close> is the word of its bits, read with \<open>sint\<close>; the returned end pointer is the
  part of the argument it points to. The lemmas show that printing and reading are
  inverse, that \<open>strtoull\<close> saturates, and what \<open>strtol\<close> does at the limit of its range.
\<close>

section \<open>Printing\<close>

definition digits :: string where
  "digits = ''0123456789abcdefghijklmnopqrstuvwxyz''"

text \<open>
  The \<open>do\<close> loop that emits the digits from the lowest up. Bases below 2 are rejected by
  the callers; here they end the recursion.
\<close>

function emit_digits :: "u64 \<Rightarrow> u64 \<Rightarrow> string" where
  "emit_digits b v =
     digits ! unat (v mod b) #
     (if v div b = 0 \<or> b < 2 then [] else emit_digits b (v div b))"
  by pat_completeness auto

lemma unat_div_less:
  fixes v b :: u64
  assumes "v div b \<noteq> 0" "\<not> b < 2"
  shows "unat (v div b) < unat v"
proof -
  have "2 \<le> unat b" using assms(2) by (simp add: word_less_nat_alt not_less)
  moreover have "0 < unat v" using assms(1) by (auto simp: unat_gt_0)
  ultimately show ?thesis by (simp add: unat_div)
qed

termination emit_digits
  by (relation "measure (\<lambda>(b, v). unat v)") (auto intro: unat_div_less)

declare emit_digits.simps [simp del]

text \<open>The string left in the buffer; \<open>swap_ends\<close> is the reversing loop at the end.\<close>

definition utoa :: "u64 \<Rightarrow> int \<Rightarrow> string" where
  "utoa value base =
     (if base < 2 \<or> 36 < base then []
      else let p = emit_digits (of_int base) value in swap_ends 0 (int (length p) - 1) p)"

definition itoa :: "u64 \<Rightarrow> int \<Rightarrow> string" where
  "itoa value base =
     (if base < 2 \<or> 36 < base then []
      else let negative = (base = 10 \<and> sint value < 0);
               uval = (if negative then - value else value);
               p = emit_digits (of_int base) uval @ (if negative then ''-'' else [])
           in swap_ends 0 (int (length p) - 1) p)"

section \<open>Reading\<close>

definition skip_space :: "string \<Rightarrow> string" where
  "skip_space s = dropWhile (\<lambda>c. isspace (uchar c)) s"

fun ato_digits :: "u64 \<Rightarrow> string \<Rightarrow> u64" where
  "ato_digits result [] = result"
| "ato_digits result (c # s) =
     (if isdigit (uchar c) then ato_digits (result * 10 + of_int (schar c - 48)) s else result)"

definition atoi :: "string \<Rightarrow> u64" where
  "atoi str =
     (let s = skip_space str
      in if peek s = CHR ''-'' then (-1) * ato_digits 0 (tl s)
         else if peek s = CHR ''+'' then ato_digits 0 (tl s)
         else ato_digits 0 s)"

definition atoui :: "string \<Rightarrow> u64" where
  "atoui str =
     (let s = skip_space str
      in ato_digits 0 (if peek s = CHR ''+'' then tl s else s))"

definition has_0x :: "string \<Rightarrow> bool" where
  "has_0x s \<longleftrightarrow> peek s = CHR ''0'' \<and> (peek (tl s) = CHR ''x'' \<or> peek (tl s) = CHR ''X'')"

fun hex_digits :: "u64 \<Rightarrow> string \<Rightarrow> u64" where
  "hex_digits result [] = result"
| "hex_digits result (c # s) =
     (if 48 \<le> schar c \<and> schar c \<le> 57 then hex_digits (result * 16 + of_int (schar c - 48)) s
      else if 97 \<le> schar c \<and> schar c \<le> 102 then hex_digits (result * 16 + of_int (schar c - 97 + 10)) s
      else if 65 \<le> schar c \<and> schar c \<le> 70 then hex_digits (result * 16 + of_int (schar c - 65 + 10)) s
      else result)"

definition atohex :: "string \<Rightarrow> u64" where
  "atohex str = (let s = skip_space str in hex_digits 0 (if has_0x s then drop 2 s else s))"

definition digit_of :: "char \<Rightarrow> int option" where
  "digit_of c =
     (if 48 \<le> schar c \<and> schar c \<le> 57 then Some (schar c - 48)
      else if 97 \<le> schar c \<and> schar c \<le> 122 then Some (10 + (schar c - 97))
      else if 65 \<le> schar c \<and> schar c \<le> 90 then Some (10 + (schar c - 65))
      else None)"

definition take_sign :: "string \<Rightarrow> bool \<times> string" where
  "take_sign s =
     (if peek s = CHR ''+'' \<or> peek s = CHR ''-'' then (peek s = CHR ''-'', tl s) else (False, s))"

definition bad_base :: "int \<Rightarrow> bool" where
  "bad_base base \<longleftrightarrow> base \<noteq> 0 \<and> (base < 2 \<or> 36 < base)"

text \<open>\<open>strtoull\<close>: its digit loop keeps the accumulator and an overflow flag.\<close>

fun ull_digits :: "int \<Rightarrow> u64 \<Rightarrow> bool \<Rightarrow> string \<Rightarrow> u64 \<times> bool \<times> string" where
  "ull_digits base acc overflow [] = (acc, overflow, [])"
| "ull_digits base acc overflow (c # s) =
     (case digit_of c of
        None \<Rightarrow> (acc, overflow, c # s)
      | Some digit \<Rightarrow>
          if base \<le> digit then (acc, overflow, c # s)
          else if overflow \<or> (- 1 - of_int digit) div of_int base < acc
          then ull_digits base acc True s
          else ull_digits base (acc * of_int base + of_int digit) overflow s)"

definition ull_base :: "int \<Rightarrow> string \<Rightarrow> int \<times> string" where
  "ull_base base s =
     (if base = 0 then
        (if has_0x s then (16, drop 2 s)
         else if peek s = CHR ''0'' then (8, s)
         else (10, s))
      else if base = 16 \<and> has_0x s then (base, drop 2 s)
      else (base, s))"

definition strtoull :: "string \<Rightarrow> int \<Rightarrow> u64 \<times> string" where
  "strtoull nptr base =
     (let (neg, s) = take_sign (skip_space nptr)
      in if bad_base base then (0, nptr)
         else let (base, start_digits) = ull_base base s;
                  (acc, overflow, s) = ull_digits base 0 False start_digits;
                  endptr = (if s = start_digits then nptr else s)
              in if s = start_digits then (0, endptr)
                 else if overflow then (- 1, endptr)
                 else (if neg then 0 - acc else acc, endptr))"

definition strtoul :: "string \<Rightarrow> int \<Rightarrow> u64 \<times> string" where
  "strtoul nptr base = strtoull nptr base"

text \<open>\<open>strtol\<close>: on overflow it skips the remaining digits and leaves the loop.\<close>

definition LONG_MAX :: u64 where "LONG_MAX = 0x7fffffffffffffff"
definition LONG_MIN :: u64 where "LONG_MIN = 0x8000000000000000"

definition in_base :: "int \<Rightarrow> char \<Rightarrow> bool" where
  "in_base base c \<longleftrightarrow> (case digit_of c of None \<Rightarrow> False | Some digit \<Rightarrow> digit < base)"

fun l_digits :: "u64 \<Rightarrow> int \<Rightarrow> u64 \<Rightarrow> string \<Rightarrow> u64 \<times> string" where
  "l_digits limit base acc [] = (acc, [])"
| "l_digits limit base acc (c # s) =
     (case digit_of c of
        None \<Rightarrow> (acc, c # s)
      | Some digit \<Rightarrow>
          if base \<le> digit then (acc, c # s)
          else if (limit - of_int digit) div of_int base < acc
          then (acc, dropWhile (in_base base) s)
          else l_digits limit base (acc * of_int base + of_int digit) s)"

definition l_base :: "int \<Rightarrow> string \<Rightarrow> int \<times> string" where
  "l_base base s =
     (if base = 0 then
        (if peek s = CHR ''0'' then
           (if peek (tl s) = CHR ''x'' \<or> peek (tl s) = CHR ''X'' then (16, drop 2 s) else (8, drop 1 s))
         else (10, s))
      else if base = 16 \<and> has_0x s then (base, drop 2 s)
      else (base, s))"

definition strtol :: "string \<Rightarrow> int \<Rightarrow> u64 \<times> string" where
  "strtol nptr base =
     (let (neg, s) = take_sign (skip_space nptr)
      in if bad_base base then (0, nptr)
         else let (base, start_digits) = l_base base s;
                  limit = (if neg then LONG_MAX + 1 else LONG_MAX);
                  (acc, s) = l_digits limit base 0 start_digits
              in if s = start_digits then (0, s)
                 else if neg then (if acc = LONG_MAX + 1 then (LONG_MIN, s) else (- acc, s))
                 else (acc, s))"

definition strtoll :: "string \<Rightarrow> int \<Rightarrow> u64 \<times> string" where
  "strtoll nptr base = strtol nptr base"

section \<open>The value of a digit string\<close>

definition value_of :: "int \<Rightarrow> int \<Rightarrow> string \<Rightarrow> int" where
  "value_of base a s = foldl (\<lambda>a c. a * base + the (digit_of c)) a s"

lemma value_of_simps [simp]:
  "value_of base a [] = a"
  "value_of base a (c # s) = value_of base (a * base + the (digit_of c)) s"
  "value_of base a (s @ [c]) = value_of base a s * base + the (digit_of c)"
  by (simp_all add: value_of_def)

lemma digit_of_range: "digit_of c = Some d \<Longrightarrow> 0 \<le> d \<and> d < 36"
  by (auto simp: digit_of_def split: if_splits)

lemma in_base_digit: "in_base base c \<longleftrightarrow> (\<exists>d. digit_of c = Some d \<and> d < base)"
  by (auto simp: in_base_def split: option.splits)

lemma value_of_ge:
  assumes "1 \<le> base" "0 \<le> a" "\<forall>c \<in> set s. in_base base c"
  shows "a \<le> value_of base a s"
  using assms
proof (induction s arbitrary: a)
  case (Cons c s)
  then obtain d where d: "digit_of c = Some d" by (auto simp: in_base_digit)
  have "a * 1 \<le> a * base" using Cons.prems by (intro mult_left_mono) auto
  then have "a \<le> a * base + d" using digit_of_range [OF d] by simp
  moreover have "a * base + d \<le> value_of base (a * base + d) s"
    using Cons.IH [of "a * base + d"] Cons.prems calculation by simp
  ultimately show ?case using d by simp
qed simp

text \<open>The overflow test before each digit is exact.\<close>

lemma uint_lt: "uint (x :: u64) < 2 ^ 64"
  using uint_bounded [of x] by simp

lemma uint_max: "uint (- 1 :: u64) = 2 ^ 64 - 1"
  by (simp add: unsigned_minus_1_eq_mask mask_eq_exp_minus_1)

lemma uint_small: "0 \<le> d \<Longrightarrow> d < 2 ^ 64 \<Longrightarrow> uint (of_int d :: u64) = d"
  by (simp add: uint_word_of_int)

lemma int_div_less_iff:
  fixes a b x :: int
  assumes "0 < b"
  shows "x div b < a \<longleftrightarrow> x < a * b"
proof
  assume "x div b < a"
  then have "(x div b + 1) * b \<le> a * b" using assms by (intro mult_right_mono) auto
  moreover have "x < (x div b + 1) * b"
    using pos_mod_bound [OF assms, of x] div_mult_mod_eq [of x b] by (simp only: distrib_right)
  ultimately show "x < a * b" by linarith
next
  assume x: "x < a * b"
  show "x div b < a"
  proof (rule ccontr)
    assume "\<not> x div b < a"
    then have "a * b \<le> x div b * b" using assms by (intro mult_right_mono) auto
    then show False using x pos_mod_sign [OF assms, of x] div_mult_mod_eq [of x b] by linarith
  qed
qed

lemma digit_overflow_iff:
  fixes M acc :: u64
  assumes "0 \<le> d" "d < base" "base \<le> 36" "36 \<le> uint M"
  shows "(M - of_int d) div of_int base < acc \<longleftrightarrow> uint M < uint acc * base + d"
proof -
  have d: "uint (of_int d :: u64) = d" "uint (of_int base :: u64) = base"
    using assms by (auto intro!: uint_small)
  have "uint (M - of_int d) = uint M - d" using assms d by (simp add: uint_sub_if')
  then have "(M - of_int d) div of_int base < acc \<longleftrightarrow> (uint M - d) div base < uint acc"
    using d by (simp add: word_less_def uint_div)
  also have "\<dots> \<longleftrightarrow> uint M - d < uint acc * base"
    using assms by (simp add: int_div_less_iff)
  finally show ?thesis by linarith
qed

lemma uint_mul_add:
  fixes acc :: u64
  assumes "0 \<le> d" "d < base" "uint acc * base + d < 2 ^ 64" "base \<le> 36"
  shows "uint (acc * of_int base + of_int d) = uint acc * base + d"
proof -
  have "acc * of_int base + of_int d = of_int (uint acc * base + d)" by simp
  then show ?thesis using assms by (simp only:) (rule uint_small, auto)
qed

section \<open>What the digit loops compute\<close>

lemma ull_digits_overflowed:
  "\<exists>acc'. ull_digits base acc True s = (acc', True, dropWhile (in_base base) s)"
  by (induction s arbitrary: acc) (auto simp: in_base_def split: option.splits)

lemma ull_digits_spec:
  assumes "2 \<le> base" "base \<le> 36"
  shows "\<exists>acc'. ull_digits base acc False s =
           (acc', 2 ^ 64 \<le> value_of base (uint acc) (takeWhile (in_base base) s), dropWhile (in_base base) s) \<and>
         (value_of base (uint acc) (takeWhile (in_base base) s) < 2 ^ 64 \<longrightarrow>
          uint acc' = value_of base (uint acc) (takeWhile (in_base base) s))"
proof (induction s arbitrary: acc)
  case Nil
  then show ?case using uint_lt [of acc] by (simp add: not_le)
next
  case (Cons c s)
  let ?t = "takeWhile (in_base base) s"
  show ?case
  proof (cases "in_base base c")
    case False
    then show ?thesis using uint_lt [of acc]
      by (auto simp: in_base_def not_le split: option.splits)
  next
    case True
    then obtain d where d: "digit_of c = Some d" "d < base" by (auto simp: in_base_digit)
    have r: "0 \<le> d" using digit_of_range d by auto
    have ovf: "((- 1 :: u64) - of_int d) div of_int base < acc \<longleftrightarrow> 2 ^ 64 \<le> uint acc * base + d"
      using digit_overflow_iff [of d base "-1" acc] r d assms uint_max by auto
    show ?thesis
    proof (cases "2 ^ 64 \<le> uint acc * base + d")
      case big: True
      have "uint acc * base + d \<le> value_of base (uint acc * base + d) ?t"
        using r assms by (intro value_of_ge) (auto dest: set_takeWhileD)
      then have "2 ^ 64 \<le> value_of base (uint acc * base + d) ?t" using big by linarith
      then show ?thesis using ull_digits_overflowed [of base acc s] True d ovf big by auto
    next
      case small: False
      then have "uint (acc * of_int base + of_int d) = uint acc * base + d"
        using uint_mul_add r d assms by simp
      then show ?thesis
        using Cons.IH [of "acc * of_int base + of_int d"] True d ovf small by simp
    qed
  qed
qed

lemma l_digits_spec:
  assumes "2 \<le> base" "base \<le> 36" "36 \<le> uint limit"
    "value_of base (uint acc) (takeWhile (in_base base) s) \<le> uint limit"
  shows "l_digits limit base acc s =
           (of_int (value_of base (uint acc) (takeWhile (in_base base) s)), dropWhile (in_base base) s)"
  using assms(4)
proof (induction s arbitrary: acc)
  case (Cons c s)
  let ?t = "takeWhile (in_base base) s"
  show ?case
  proof (cases "in_base base c")
    case False
    then show ?thesis by (auto simp: in_base_def split: option.splits)
  next
    case True
    then obtain d where d: "digit_of c = Some d" "d < base" by (auto simp: in_base_digit)
    have r: "0 \<le> d" using digit_of_range d by auto
    have "uint acc * base + d \<le> value_of base (uint acc * base + d) ?t"
      using r assms by (intro value_of_ge) (auto dest: set_takeWhileD)
    then have le: "uint acc * base + d \<le> uint limit" using Cons.prems True d by simp
    then have ovf: "\<not> (limit - of_int d) div of_int base < acc"
      using digit_overflow_iff [of d base limit acc] r d assms by simp
    have "uint acc * base + d < 2 ^ 64" using le uint_lt [of limit] by simp
    then have "uint (acc * of_int base + of_int d) = uint acc * base + d"
      using uint_mul_add r d assms by simp
    then show ?thesis
      using Cons.IH [of "acc * of_int base + of_int d"] Cons.prems True d ovf by simp
  qed
qed simp

section \<open>Printed numbers\<close>

lemma digit_of_digits:
  assumes "k < 36"
  shows "digit_of (digits ! k) = Some (int k)"
proof -
  have "\<forall>k \<in> set [0..<36]. digit_of (digits ! k) = Some (int k)" by code_simp
  then show ?thesis using assms by (auto simp del: upt_Suc)
qed

lemma emit_digits_value:
  assumes "2 \<le> base" "base \<le> 36"
  shows "(\<forall>c \<in> set (emit_digits (of_int base) v). in_base base c) \<and>
         value_of base 0 (rev (emit_digits (of_int base) v)) = uint v"
proof (induction v rule: measure_induct_rule [of unat])
  case (less v)
  let ?b = "of_int base :: u64"
  have b: "uint ?b = base" using assms by (auto intro!: uint_small)
  then have unb: "unat ?b = nat base" by (simp add: unat_eq_nat_uint)
  have k: "unat (v mod ?b) < nat base" using assms by (simp add: unat_mod unb)
  then have dg: "digit_of (digits ! unat (v mod ?b)) = Some (uint v mod base)"
    using assms digit_of_digits [of "unat (v mod ?b)"] b by (simp add: uint_mod)
  have m: "uint v mod base < base" using assms by simp
  have b2: "\<not> ?b < 2" using b assms by (simp add: word_less_def)
  show ?case
  proof (cases "v div ?b = 0")
    case True
    then have "uint v div base = 0" using b uint_div [of v ?b] by simp
    then have "uint v mod base = uint v" using div_mult_mod_eq [of "uint v" base] by simp
    then show ?thesis using dg m True by (simp add: emit_digits.simps [of ?b v] in_base_digit)
  next
    case False
    then have "unat (v div ?b) < unat v" using unat_div_less b2 by blast
    from less.IH [OF this] have IH: "(\<forall>c \<in> set (emit_digits ?b (v div ?b)). in_base base c)"
      "value_of base 0 (rev (emit_digits ?b (v div ?b))) = uint v div base"
      using b by (simp_all add: uint_div)
    then show ?thesis using dg m False b2 by (simp add: emit_digits.simps [of ?b v] in_base_digit)
  qed
qed

lemma swap_ends_rev: "swap_ends 0 (int (length p) - 1) p = rev p"
proof (cases p)
  case (Cons a q)
  show ?thesis
  proof (rule nth_equalityI)
    show "length (swap_ends 0 (int (length p) - 1) p) = length (rev p)"
      using Cons swap_ends_nth [of 0 "int (length p) - 1" p 0] by simp
    fix i assume "i < length (swap_ends 0 (int (length p) - 1) p)"
    then have "i < length p" using Cons swap_ends_nth [of 0 "int (length p) - 1" p 0] by simp
    then show "swap_ends 0 (int (length p) - 1) p ! i = rev p ! i"
      using swap_ends_nth [of 0 "int (length p) - 1" p i] by (simp add: rev_nth nat_diff_distrib)
  qed
qed (simp add: swap_ends.simps)

lemma utoa_digits:
  assumes "2 \<le> base" "base \<le> 36"
  shows "utoa v base \<noteq> [] \<and> (\<forall>c \<in> set (utoa v base). in_base base c) \<and>
         value_of base 0 (utoa v base) = uint v"
  using assms emit_digits_value [OF assms, of v]
  by (simp add: utoa_def swap_ends_rev Let_def emit_digits.simps [of _ v])

section \<open>Digits are neither blanks nor signs\<close>

lemma digit_not_space:
  assumes "digit_of c = Some d"
  shows "\<not> isspace (uchar c)" "c \<noteq> CHR ''+''" "c \<noteq> CHR ''-''" "c \<noteq> NUL"
proof -
  have "48 \<le> cval c" using assms by (auto simp: digit_of_def schar_def split: if_splits)
  then have "48 \<le> unat (uchar c)" by (simp add: unat_uchar cval_def)
  then show "\<not> isspace (uchar c)" by (auto simp: isspace_def)
  show "c \<noteq> CHR ''+''" "c \<noteq> CHR ''-''" "c \<noteq> NUL"
    using assms by (auto simp: digit_of_def schar_def cval_def)
qed

lemma skip_space_append:
  assumes "\<forall>c \<in> set ws. isspace (uchar c)"
  shows "skip_space (ws @ s) = skip_space s"
  using assms by (simp add: skip_space_def)

lemma sign_not_space: "\<not> isspace (uchar (CHR ''+''))" "\<not> isspace (uchar (CHR ''-''))"
  by code_simp+

lemma skip_space_digits:
  assumes "ds \<noteq> []" "in_base base (hd ds)"
  shows "skip_space (ds @ rest) = ds @ rest"
  using assms digit_not_space by (cases ds) (auto simp: skip_space_def in_base_digit)

definition signs :: "string set" where
  "signs = {[], ''+'', ''-''}"

lemma read_sign:
  assumes "\<forall>c \<in> set ws. isspace (uchar c)" "sg \<in> signs"
    and "ds \<noteq> []" "in_base base (hd ds)"
  shows "take_sign (skip_space (ws @ sg @ ds @ rest)) = (sg = ''-'', ds @ rest)"
proof -
  have "peek (ds @ rest) \<noteq> CHR ''+'' \<and> peek (ds @ rest) \<noteq> CHR ''-''"
    using assms(3,4) by (cases ds) (auto simp: peek_def in_base_digit dest: digit_not_space)
  moreover have "skip_space (sg @ ds @ rest) = sg @ ds @ rest"
    using assms(2-4) skip_space_digits sign_not_space by (auto simp: skip_space_def signs_def)
  ultimately show ?thesis
    using assms(1,2) by (auto simp: skip_space_append take_sign_def peek_def signs_def)
qed

lemma takeWhile_digits:
  assumes "\<forall>c \<in> set ds. in_base base c" "rest = [] \<or> \<not> in_base base (hd rest)"
  shows "takeWhile (in_base base) (ds @ rest) = ds" "dropWhile (in_base base) (ds @ rest) = rest"
  using assms by (cases rest; simp)+

lemma strtoull_digits:
  assumes "2 \<le> base" "base \<le> 36"
    and "\<forall>c \<in> set ws. isspace (uchar c)" "sg \<in> signs"
    and "ds \<noteq> []" "\<forall>c \<in> set ds. in_base base c" "rest = [] \<or> \<not> in_base base (hd rest)"
    and "base = 16 \<longrightarrow> \<not> has_0x (ds @ rest)"
  shows "strtoull (ws @ sg @ ds @ rest) base =
           (let v = value_of base 0 ds
            in if 2 ^ 64 \<le> v then - 1 else if sg = ''-'' then - of_int v else of_int v, rest)"
proof -
  note tw = takeWhile_digits [OF assms(6,7)]
  have sg: "take_sign (skip_space (ws @ sg @ ds @ rest)) = (sg = ''-'', ds @ rest)"
    using assms by (intro read_sign) auto
  have b: "\<not> bad_base base" "ull_base base (ds @ rest) = (base, ds @ rest)"
    using assms(1,2,8) by (auto simp: bad_base_def ull_base_def)
  obtain acc where acc: "ull_digits base 0 False (ds @ rest) = (acc, 2 ^ 64 \<le> value_of base 0 ds, rest)"
    "value_of base 0 ds < 2 ^ 64 \<longrightarrow> uint acc = value_of base 0 ds"
    using ull_digits_spec [OF assms(1,2), of 0 "ds @ rest"] tw by auto
  have "value_of base 0 ds < 2 ^ 64 \<Longrightarrow> acc = of_int (value_of base 0 ds)"
    using acc(2) by (metis word_of_int_uint)
  then show ?thesis
    unfolding strtoull_def sg using b acc(1) assms(5) by (auto simp: Let_def not_le)
qed

lemma strtol_digits:
  assumes "2 \<le> base" "base \<le> 36" "sg \<in> signs" "base = 16 \<longrightarrow> \<not> has_0x (ds @ rest)"
    and "ds \<noteq> []" "\<forall>c \<in> set ds. in_base base c" "rest = [] \<or> \<not> in_base base (hd rest)"
    and "value_of base 0 ds \<le> (if sg = ''-'' then 2 ^ 63 else 2 ^ 63 - 1)"
  shows "strtol (sg @ ds @ rest) base =
           (if sg = ''-'' then - of_int (value_of base 0 ds) else of_int (value_of base 0 ds), rest)"
proof -
  note tw = takeWhile_digits [OF assms(6,7)]
  have sg: "take_sign (skip_space (sg @ ds @ rest)) = (sg = ''-'', ds @ rest)"
    using read_sign [of "[]" sg ds base rest] assms by simp
  have b: "\<not> bad_base base" "l_base base (ds @ rest) = (base, ds @ rest)"
    using assms(1,2,4) by (auto simp: bad_base_def l_base_def)
  let ?limit = "if sg = ''-'' then LONG_MAX + 1 else LONG_MAX"
  have "uint ?limit = (if sg = ''-'' then 2 ^ 63 else 2 ^ 63 - 1)" by (simp add: LONG_MAX_def)
  then have acc: "l_digits ?limit base 0 (ds @ rest) = (of_int (value_of base 0 ds), rest)"
    using l_digits_spec [OF assms(1,2), of ?limit 0 "ds @ rest"] tw assms(8) by (simp split: if_splits)
  have min: "(of_int (value_of base 0 ds) :: u64) = LONG_MAX + 1 \<Longrightarrow> LONG_MIN = - of_int (value_of base 0 ds)"
    by (simp add: LONG_MIN_def LONG_MAX_def)
  show ?thesis
    unfolding strtol_def sg using b acc assms(5) min by (simp add: Let_def)
qed

lemma utoa_no_0x:
  assumes "2 \<le> base" "base \<le> 36"
  shows "base = 16 \<longrightarrow> \<not> has_0x (utoa v base)"
proof (intro impI notI)
  assume "base = 16" and "has_0x (utoa v base)"
  then obtain c t where "utoa v base = CHR ''0'' # c # t" "c = CHR ''x'' \<or> c = CHR ''X''"
    by (cases "utoa v base"; cases "tl (utoa v base)") (auto simp: has_0x_def peek_def)
  then show False using utoa_digits [OF assms, of v] \<open>base = 16\<close>
    by (auto simp: in_base_def digit_of_def schar_def cval_def)
qed

lemma itoa_utoa:
  "itoa v 10 = (if sint v < 0 then ''-'' @ utoa (- v) 10 else utoa v 10)"
proof -
  have "swap_ends 0 (int (length p)) (p @ ''-'') = ''-'' @ rev p" for p
    using swap_ends_rev [of "p @ ''-''"] by simp
  then show ?thesis by (simp add: itoa_def utoa_def Let_def swap_ends_rev)
qed

lemma sint_neg_iff: "sint (v :: u64) < 0 \<longleftrightarrow> 2 ^ 63 \<le> uint v"
proof -
  have "sint v = (uint v + 2 ^ 63) mod 2 ^ 64 - 2 ^ 63"
    by (simp add: sint_uint signed_take_bit_eq_take_bit_shift take_bit_eq_mod)
  moreover have "(uint v + 2 ^ 63) mod 2 ^ 64 = (if 2 ^ 63 \<le> uint v then uint v - 2 ^ 63 else uint v + 2 ^ 63)"
  proof (cases "2 ^ 63 \<le> uint v")
    case True
    have "(uint v + 2 ^ 63) mod 2 ^ 64 = (uint v - 2 ^ 63 + 2 ^ 64) mod 2 ^ 64" by (simp add: add.commute)
    also have "\<dots> = uint v - 2 ^ 63" using True uint_lt [of v] by (simp only: mod_add_self2) simp
    finally show ?thesis using True by simp
  next
    case False
    then show ?thesis using uint_ge_0 [of v] by simp
  qed
  ultimately show ?thesis using uint_lt [of v] by auto
qed

lemma uint_neg:
  assumes "sint (v :: u64) < 0"
  shows "uint (- v) \<le> 2 ^ 63"
proof -
  have "v \<noteq> 0" using assms by auto
  then have "uint v \<noteq> 0" by (simp add: uint_0_iff)
  then have "uint (- v) = 2 ^ 64 - uint v"
    using uint_lt [of v] uint_ge_0 [of v] by (simp add: uint_word_ariths zmod_zminus1_eq_if)
  then show ?thesis using assms by (simp add: sint_neg_iff)
qed

section \<open>Properties\<close>

text \<open>
  C23. \<open>strtoull\<close> in an explicit base, on blanks, an optional sign, a non-empty run of
  digits of the base (no \<open>0x\<close> prefix) and a rest: it returns the value of the digits,
  negated modulo \<open>2^64\<close> after a minus sign, or the greatest value if it does not fit, and
  the end pointer is the rest.
\<close>

theorem strtoull_correct:
  assumes "2 \<le> base" "base \<le> 36"
    and "\<forall>c \<in> set ws. isspace (uchar c)" "sg \<in> signs"
    and "ds \<noteq> []" "\<forall>c \<in> set ds. in_base base c" "rest = [] \<or> \<not> in_base base (hd rest)"
    and "base = 16 \<longrightarrow> \<not> has_0x (ds @ rest)"
  shows "strtoull (ws @ sg @ ds @ rest) base =
           (let v = value_of base 0 ds
            in if 2 ^ 64 \<le> v then - 1 else if sg = ''-'' then - of_int v else of_int v, rest)"
  using assms by (rule strtoull_digits)

theorem strtoull_correct_witness:
  "strtoull '' -ffz'' 16 = (- 255, ''z'')"
  using strtoull_correct [of 16 "'' ''" "''-''" "''ff''" "''z''"]
  by (simp add: Let_def in_base_def digit_of_def schar_def cval_def has_0x_def peek_def isspace_def
    uchar_def signs_def)

text \<open>
  C24. Printing and reading are inverse: for every base the kernel supports, \<open>strtoull\<close>
  reads back the number that \<open>utoa\<close> printed and consumes the whole text.
\<close>

theorem utoa_strtoull_roundtrip:
  assumes "2 \<le> base" "base \<le> 36"
  shows "strtoull (utoa v base) base = (v, [])"
  using strtoull_digits [OF assms, of "[]" "[]" "utoa v base" "[]"] utoa_digits [OF assms, of v]
    utoa_no_0x [OF assms, of v] uint_lt [of v]
  by (simp add: signs_def Let_def)

theorem utoa_strtoull_roundtrip_witness:
  "strtoull (utoa 3735928559 16) 16 = (3735928559, [])"
  using utoa_strtoull_roundtrip [of 16 3735928559] by simp

text \<open>
  C40. \<open>strtol\<close> reads back every 64-bit signed number that \<open>itoa\<close> printed in decimal, the
  least one included.
\<close>

theorem itoa_strtol_roundtrip: "strtol (itoa v 10) 10 = (v, [])"
proof (cases "sint v < 0")
  case True
  then show ?thesis
    using strtol_digits [of 10 "''-''" "utoa (- v) 10" "[]"] utoa_digits [of 10 "- v"] uint_neg
    by (simp add: itoa_utoa signs_def)
next
  case False
  then have "uint v \<le> 2 ^ 63 - 1" by (simp add: sint_neg_iff)
  then show ?thesis
    using False strtol_digits [of 10 "[]" "utoa v 10" "[]"] utoa_digits [of 10 v]
    by (simp add: itoa_utoa signs_def)
qed

text \<open>
  At the limit of its range \<open>strtol\<close> returns the digits read so far and not the
  greatest or least \<open>long\<close>, and without any digit it reports the sign or the \<open>0x\<close> prefix
  as consumed.
\<close>

theorem strtol_limit_and_empty:
  "strtol ''9223372036854775808'' 10 = (922337203685477580, []) \<and>
   strtol ''-'' 0 = (0, []) \<and> strtol ''0x'' 0 = (0, []) \<and> strtoull ''-'' 0 = (0, ''-'')"
  by code_simp

end
