(* ===== verification/BitVec.thy ===== *)
theory BitVec
  imports Prelude
begin

text \<open>
  The bit maps of \<^verbatim>\<open>include/structures/bitmap.h\<close>, arrays of 64-bit words, and the CPU
  masks of \<^verbatim>\<open>include/structures/cpu_mask.h\<close> built on them. A bit map is the list of its
  words; an access outside the array is \<open>None\<close>. Bit numbers are \<open>nat\<close>: an array that
  exists has fewer than \<open>2^64\<close> bits, so that no index computation wraps. The lemmas
  describe each operation on the set of its members, and the searches and counts that
  work on whole words as searches and counts over single bits.
\<close>

type_synonym bitmap_word = u64

section \<open>Words\<close>

definition BITMAP_BITS_PER_WORD :: nat where
  "BITMAP_BITS_PER_WORD = 64"

definition bitmap_words :: "nat \<Rightarrow> nat" where
  "bitmap_words nbits =
     nbits div BITMAP_BITS_PER_WORD + (if nbits mod BITMAP_BITS_PER_WORD \<noteq> 0 then 1 else 0)"

definition BITMAP_BIT_MASK :: "nat \<Rightarrow> bitmap_word" where
  "BITMAP_BIT_MASK b = push_bit (b mod BITMAP_BITS_PER_WORD) 1"

text \<open>The compiler intrinsics behind \<open>ci_ctzll\<close> (of a non-zero word) and \<open>ci_popcountll\<close>.\<close>

definition ci_ctzll :: "bitmap_word \<Rightarrow> nat" where
  "ci_ctzll w = length (takeWhile (\<lambda>i. \<not> bit w i) [0..<64])"

definition ci_popcountll :: "bitmap_word \<Rightarrow> nat" where
  "ci_popcountll w = length (filter (bit w) [0..<64])"

definition rd :: "'a list \<Rightarrow> nat \<Rightarrow> 'a option" where
  "rd m i = (if i < length m then Some (m ! i) else None)"

definition wr :: "'a list \<Rightarrow> nat \<Rightarrow> 'a \<Rightarrow> 'a list option" where
  "wr m i w = (if i < length m then Some (m[i := w]) else None)"

section \<open>Single bits\<close>

definition bitmap_set :: "bitmap_word list \<Rightarrow> nat \<Rightarrow> bitmap_word list option" where
  "bitmap_set m b =
     (let i = b div BITMAP_BITS_PER_WORD
      in Option.bind (rd m i) (\<lambda>w. wr m i (w OR BITMAP_BIT_MASK b)))"

definition bitmap_clear :: "bitmap_word list \<Rightarrow> nat \<Rightarrow> bitmap_word list option" where
  "bitmap_clear m b =
     (let i = b div BITMAP_BITS_PER_WORD
      in Option.bind (rd m i) (\<lambda>w. wr m i (w AND NOT (BITMAP_BIT_MASK b))))"

definition bitmap_toggle :: "bitmap_word list \<Rightarrow> nat \<Rightarrow> bitmap_word list option" where
  "bitmap_toggle m b =
     (let i = b div BITMAP_BITS_PER_WORD
      in Option.bind (rd m i) (\<lambda>w. wr m i (w XOR BITMAP_BIT_MASK b)))"

definition bitmap_test :: "bitmap_word list \<Rightarrow> nat \<Rightarrow> bool option" where
  "bitmap_test m b =
     map_option (\<lambda>w. w AND BITMAP_BIT_MASK b \<noteq> 0) (rd m (b div BITMAP_BITS_PER_WORD))"

definition bitmap_test_and_set :: "bitmap_word list \<Rightarrow> nat \<Rightarrow> (bool \<times> bitmap_word list) option" where
  "bitmap_test_and_set m b =
     Option.bind (bitmap_test m b) (\<lambda>old. map_option (Pair old) (bitmap_set m b))"

definition bitmap_test_and_clear :: "bitmap_word list \<Rightarrow> nat \<Rightarrow> (bool \<times> bitmap_word list) option" where
  "bitmap_test_and_clear m b =
     Option.bind (bitmap_test m b) (\<lambda>old. map_option (Pair old) (bitmap_clear m b))"

section \<open>Whole maps\<close>

definition bitmap_zero :: "bitmap_word list \<Rightarrow> nat \<Rightarrow> bitmap_word list option" where
  "bitmap_zero m nbits = for_loop 0 (bitmap_words nbits) (\<lambda>i m. wr m i 0) m"

definition bitmap_copy :: "bitmap_word list \<Rightarrow> bitmap_word list \<Rightarrow> nat \<Rightarrow> bitmap_word list option" where
  "bitmap_copy dst src nbits =
     for_loop 0 (bitmap_words nbits) (\<lambda>i m. Option.bind (rd src i) (wr m i)) dst"

text \<open>\<open>bitmap_fill\<close>: \<open>i * 64 < nbits\<close> holds for exactly the first \<open>bitmap_words nbits\<close> words.\<close>

function bitmap_fill_from :: "nat \<Rightarrow> bitmap_word list \<Rightarrow> nat \<Rightarrow> bitmap_word list option" where
  "bitmap_fill_from i m nbits =
     (if i * BITMAP_BITS_PER_WORD < nbits then
        let left = nbits - i * BITMAP_BITS_PER_WORD
        in Option.bind (wr m i (if BITMAP_BITS_PER_WORD \<le> left then NOT 0 else push_bit left 1 - 1))
             (\<lambda>m. bitmap_fill_from (Suc i) m nbits)
      else Some m)"
  by pat_completeness auto
termination
  by (relation "measure (\<lambda>(i, m, nbits). nbits - i)") (auto simp: BITMAP_BITS_PER_WORD_def)

declare bitmap_fill_from.simps [simp del]

definition bitmap_fill :: "bitmap_word list \<Rightarrow> nat \<Rightarrow> bitmap_word list option" where
  "bitmap_fill m nbits = bitmap_fill_from 0 m nbits"

definition bitmap_set_range :: "bitmap_word list \<Rightarrow> nat \<Rightarrow> nat \<Rightarrow> bitmap_word list option" where
  "bitmap_set_range m start len = for_loop 0 len (\<lambda>i m. bitmap_set m (start + i)) m"

definition bitmap_clear_range :: "bitmap_word list \<Rightarrow> nat \<Rightarrow> nat \<Rightarrow> bitmap_word list option" where
  "bitmap_clear_range m start len = for_loop 0 len (\<lambda>i m. bitmap_clear m (start + i)) m"

text \<open>The word-wise combinations; \<open>dst\<close> may be one of the sources.\<close>

definition word_wise ::
  "(bitmap_word \<Rightarrow> bitmap_word \<Rightarrow> bitmap_word) \<Rightarrow> bitmap_word list \<Rightarrow> bitmap_word list \<Rightarrow> bitmap_word list \<Rightarrow> nat
   \<Rightarrow> bitmap_word list option" where
  "word_wise f dst src1 src2 nbits =
     for_loop 0 (bitmap_words nbits)
       (\<lambda>i m. Option.bind (rd src1 i) (\<lambda>x. Option.bind (rd src2 i) (\<lambda>y. wr m i (f x y)))) dst"

definition bitmap_and :: "bitmap_word list \<Rightarrow> bitmap_word list \<Rightarrow> bitmap_word list \<Rightarrow> nat \<Rightarrow> bitmap_word list option" where
  "bitmap_and = word_wise (\<lambda>x y. x AND y)"

definition bitmap_or :: "bitmap_word list \<Rightarrow> bitmap_word list \<Rightarrow> bitmap_word list \<Rightarrow> nat \<Rightarrow> bitmap_word list option" where
  "bitmap_or = word_wise (\<lambda>x y. x OR y)"

definition bitmap_xor :: "bitmap_word list \<Rightarrow> bitmap_word list \<Rightarrow> bitmap_word list \<Rightarrow> nat \<Rightarrow> bitmap_word list option" where
  "bitmap_xor = word_wise (\<lambda>x y. x XOR y)"

definition bitmap_andnot :: "bitmap_word list \<Rightarrow> bitmap_word list \<Rightarrow> bitmap_word list \<Rightarrow> nat \<Rightarrow> bitmap_word list option" where
  "bitmap_andnot = word_wise (\<lambda>x y. x AND NOT y)"

text \<open>A loop over the words that returns early: the first index with the exit test.\<close>

function scan_words :: "nat \<Rightarrow> nat \<Rightarrow> (nat \<Rightarrow> 'a option) \<Rightarrow> ('a \<Rightarrow> bool) \<Rightarrow> (nat \<times> 'a) option option" where
  "scan_words i n rd_word stop =
     (if i < n then Option.bind (rd_word i)
        (\<lambda>w. if stop w then Some (Some (i, w)) else scan_words (Suc i) n rd_word stop)
      else Some None)"
  by pat_completeness auto
termination
  by (relation "measure (\<lambda>(i, n, _). n - i)") auto

declare scan_words.simps [simp del]

definition rd2 :: "bitmap_word list \<Rightarrow> bitmap_word list \<Rightarrow> nat \<Rightarrow> (bitmap_word \<times> bitmap_word) option" where
  "rd2 a b i = Option.bind (rd a i) (\<lambda>x. map_option (Pair x) (rd b i))"

definition bitmap_equal :: "bitmap_word list \<Rightarrow> bitmap_word list \<Rightarrow> nat \<Rightarrow> bool option" where
  "bitmap_equal src1 src2 nbits =
     map_option (\<lambda>r. r = None) (scan_words 0 (bitmap_words nbits) (rd2 src1 src2) (\<lambda>(x, y). x \<noteq> y))"

definition bitmap_intersects :: "bitmap_word list \<Rightarrow> bitmap_word list \<Rightarrow> nat \<Rightarrow> bool option" where
  "bitmap_intersects src1 src2 nbits =
     map_option (\<lambda>r. r \<noteq> None) (scan_words 0 (bitmap_words nbits) (rd2 src1 src2) (\<lambda>(x, y). x AND y \<noteq> 0))"

definition bitmap_subset :: "bitmap_word list \<Rightarrow> bitmap_word list \<Rightarrow> nat \<Rightarrow> bool option" where
  "bitmap_subset sub super nbits =
     map_option (\<lambda>r. r = None) (scan_words 0 (bitmap_words nbits) (rd2 sub super) (\<lambda>(x, y). x AND NOT y \<noteq> 0))"

definition bitmap_empty :: "bitmap_word list \<Rightarrow> nat \<Rightarrow> bool option" where
  "bitmap_empty m nbits = map_option (\<lambda>r. r = None) (scan_words 0 (bitmap_words nbits) (rd m) (\<lambda>w. w \<noteq> 0))"

definition last_mask :: "nat \<Rightarrow> bitmap_word" where
  "last_mask nbits =
     (let rem = nbits mod BITMAP_BITS_PER_WORD in if rem \<noteq> 0 then push_bit rem 1 - 1 else NOT 0)"

definition bitmap_full :: "bitmap_word list \<Rightarrow> nat \<Rightarrow> bool option" where
  "bitmap_full m nbits =
     (let words = bitmap_words nbits
      in if words = 0 then Some True
         else Option.bind (scan_words 0 (words - 1) (rd m) (\<lambda>w. w \<noteq> NOT 0)) (\<lambda>r.
              if r \<noteq> None then Some False
              else map_option (\<lambda>w. w AND last_mask nbits = last_mask nbits) (rd m (words - 1))))"

definition bitmap_weight :: "bitmap_word list \<Rightarrow> nat \<Rightarrow> nat option" where
  "bitmap_weight m nbits =
     (let words = bitmap_words nbits
      in if words = 0 then Some 0
         else Option.bind (for_loop 0 (words - 1) (\<lambda>i n. map_option (\<lambda>w. n + ci_popcountll w) (rd m i)) 0) (\<lambda>n.
              Option.bind (rd m (words - 1)) (\<lambda>w.
              let last = (if nbits mod BITMAP_BITS_PER_WORD \<noteq> 0
                          then w AND (push_bit (nbits mod BITMAP_BITS_PER_WORD) 1 - 1) else w)
              in Some (n + ci_popcountll last))))"

section \<open>Searches\<close>

definition hit :: "nat \<Rightarrow> nat \<Rightarrow> bitmap_word \<Rightarrow> nat" where
  "hit nbits i w =
     (let b = i * BITMAP_BITS_PER_WORD + ci_ctzll w in if b < nbits then b else nbits)"

definition bitmap_find_first_set :: "bitmap_word list \<Rightarrow> nat \<Rightarrow> nat option" where
  "bitmap_find_first_set m nbits =
     map_option (case_option nbits (\<lambda>(i, w). hit nbits i w))
       (scan_words 0 (bitmap_words nbits) (rd m) (\<lambda>w. w \<noteq> 0))"

definition bitmap_find_first_zero :: "bitmap_word list \<Rightarrow> nat \<Rightarrow> nat option" where
  "bitmap_find_first_zero m nbits =
     map_option (case_option nbits (\<lambda>(i, inv). hit nbits i inv))
       (scan_words 0 (bitmap_words nbits) (\<lambda>i. map_option (\<lambda>w. NOT w) (rd m i)) (\<lambda>inv. inv \<noteq> 0))"

definition bitmap_find_next_bit :: "bitmap_word list \<Rightarrow> nat \<Rightarrow> nat \<Rightarrow> nat option" where
  "bitmap_find_next_bit m nbits start =
     (if nbits \<le> start then Some nbits
      else let word_index = start div BITMAP_BITS_PER_WORD;
               bit_offset = start mod BITMAP_BITS_PER_WORD
           in Option.bind (rd m word_index) (\<lambda>w.
              let word = w AND push_bit bit_offset (NOT 0)
              in if word \<noteq> 0 then Some (hit nbits word_index word)
                 else map_option (case_option nbits (\<lambda>(i, w). hit nbits i w))
                        (scan_words (word_index + 1) (bitmap_words nbits) (rd m) (\<lambda>w. w \<noteq> 0))))"

definition bitmap_find_next_zero_bit :: "bitmap_word list \<Rightarrow> nat \<Rightarrow> nat \<Rightarrow> nat option" where
  "bitmap_find_next_zero_bit m nbits start =
     (if nbits \<le> start then Some nbits
      else let word_index = start div BITMAP_BITS_PER_WORD;
               bit_offset = start mod BITMAP_BITS_PER_WORD
           in Option.bind (rd m word_index) (\<lambda>w.
              let inv = NOT w AND push_bit bit_offset (NOT 0)
              in if inv \<noteq> 0 then Some (hit nbits word_index inv)
                 else map_option (case_option nbits (\<lambda>(i, inv). hit nbits i inv))
                        (scan_words (word_index + 1) (bitmap_words nbits)
                          (\<lambda>i. map_option (\<lambda>w. NOT w) (rd m i)) (\<lambda>inv. inv \<noteq> 0))))"

section \<open>Members\<close>

text \<open>The bits that are set, as a predicate on bit numbers.\<close>

definition member :: "bitmap_word list \<Rightarrow> nat \<Rightarrow> bool" where
  "member m b \<longleftrightarrow> b < 64 * length m \<and> bit (m ! (b div 64)) (b mod 64)"

lemma rd_Some_iff [simp]: "rd m i = Some w \<longleftrightarrow> i < length m \<and> m ! i = w"
  by (auto simp: rd_def)

lemma rd_in: "i < length m \<Longrightarrow> rd m i = Some (m ! i)"
  by (simp add: rd_def)

lemma wr_in: "i < length m \<Longrightarrow> wr m i w = Some (m[i := w])"
  by (simp add: wr_def)

lemma bit_index: "b div 64 < length m \<longleftrightarrow> b < 64 * length m"
  by auto

lemma bit_mask_bit [simp]: "bit (BITMAP_BIT_MASK b) k \<longleftrightarrow> k = b mod 64"
  by (auto simp: BITMAP_BIT_MASK_def BITMAP_BITS_PER_WORD_def push_bit_eq_mult bit_exp_iff)

lemma and_mask_iff: "w AND BITMAP_BIT_MASK b \<noteq> 0 \<longleftrightarrow> bit w (b mod 64)"
proof -
  have "BITMAP_BIT_MASK b = 2 ^ (b mod 64)"
    by (simp add: BITMAP_BIT_MASK_def BITMAP_BITS_PER_WORD_def push_bit_eq_mult)
  then show ?thesis by (simp add: and_exp_eq_0_iff_not_bit)
qed

lemma bitmap_test_member:
  "bitmap_test m b = (if b < 64 * length m then Some (member m b) else None)"
  by (auto simp: bitmap_test_def BITMAP_BITS_PER_WORD_def rd_def bit_index and_mask_iff member_def)

lemma member_update:
  assumes "i < length m"
  shows "member (m[i := w]) b \<longleftrightarrow> (if b div 64 = i then bit w (b mod 64) else member m b)"
  using assms by (auto simp: member_def nth_list_update bit_index [symmetric])

lemma same_bit: "b div 64 = c div 64 \<Longrightarrow> b mod 64 = c mod 64 \<longleftrightarrow> b = (c :: nat)"
  by (metis div_mult_mod_eq)

lemma member_update_bit:
  assumes "b < 64 * length m" "\<And>k. k < 64 \<Longrightarrow> bit w k \<longleftrightarrow> (if k = b mod 64 then v else bit (m ! (b div 64)) k)"
  shows "member (m[b div 64 := w]) x \<longleftrightarrow> (if x = b then v else member m x)"
proof (cases "x div 64 = b div 64")
  case True
  then show ?thesis using assms same_bit [OF True] bit_index [of x m] bit_index [of b m]
    by (auto simp: member_update member_def)
next
  case False
  then show ?thesis using assms(1) bit_index [of b m] by (auto simp: member_update)
qed

lemmas bit_ops = BITMAP_BITS_PER_WORD_def rd_in wr_in Let_def bit_or_iff bit_and_iff bit_xor_iff bit_not_iff

lemma bitmap_set_member:
  assumes "b < 64 * length m"
  shows "\<exists>m'. bitmap_set m b = Some m' \<and> length m' = length m \<and> (\<forall>x. member m' x \<longleftrightarrow> x = b \<or> member m x)"
  using assms bit_index [of b m] member_update_bit [OF assms, of "m ! (b div 64) OR BITMAP_BIT_MASK b" True]
  by (auto simp: bitmap_set_def bit_ops)

lemma bitmap_clear_member:
  assumes "b < 64 * length m"
  shows "\<exists>m'. bitmap_clear m b = Some m' \<and> length m' = length m \<and> (\<forall>x. member m' x \<longleftrightarrow> x \<noteq> b \<and> member m x)"
  using assms bit_index [of b m] member_update_bit [OF assms, of "m ! (b div 64) AND NOT (BITMAP_BIT_MASK b)" False]
  by (auto simp: bitmap_clear_def bit_ops)

lemma bitmap_toggle_member:
  assumes "b < 64 * length m"
  shows "\<exists>m'. bitmap_toggle m b = Some m' \<and> length m' = length m \<and> (\<forall>x. member m' x \<longleftrightarrow> (x = b) \<noteq> member m x)"
  using assms bit_index [of b m]
    member_update_bit [OF assms, of "m ! (b div 64) XOR BITMAP_BIT_MASK b" "\<not> member m b"]
  by (auto simp: bitmap_toggle_def bit_ops member_def)

section \<open>Sets of indices\<close>

text \<open>
  What the users of bit maps and CPU masks rely on: adding and removing an index below
  the capacity succeeds and changes the membership of that index only.
\<close>

locale index_set =
  fixes invar :: "'s \<Rightarrow> bool" and isin :: "'s \<Rightarrow> nat \<Rightarrow> bool"
    and add :: "'s \<Rightarrow> nat \<Rightarrow> 's option" and remove :: "'s \<Rightarrow> nat \<Rightarrow> 's option" and cap :: nat
  assumes add_law: "invar s \<Longrightarrow> i < cap \<Longrightarrow>
      \<exists>s'. add s i = Some s' \<and> invar s' \<and> (\<forall>x. isin s' x \<longleftrightarrow> x = i \<or> isin s x)"
    and remove_law: "invar s \<Longrightarrow> i < cap \<Longrightarrow>
      \<exists>s'. remove s i = Some s' \<and> invar s' \<and> (\<forall>x. isin s' x \<longleftrightarrow> x \<noteq> i \<and> isin s x)"
begin

lemma add_range:
  assumes "invar s" "start + len \<le> cap"
  shows "\<exists>s'. for_loop 0 len (\<lambda>i s. add s (start + i)) s = Some s' \<and> invar s' \<and>
           (\<forall>x. isin s' x \<longleftrightarrow> start \<le> x \<and> x < start + len \<or> isin s x)"
proof (rule for_loop_invariant)
  fix k t
  assume k: "k < len" and I: "invar t \<and> (\<forall>x. isin t x \<longleftrightarrow> start \<le> x \<and> x < start + k \<or> isin s x)"
  then obtain t' where "add t (start + k) = Some t'" "invar t'" "\<forall>x. isin t' x \<longleftrightarrow> x = start + k \<or> isin t x"
    using add_law [of t "start + k"] assms(2) by auto
  then show "\<exists>t'. add t (start + k) = Some t' \<and> invar t' \<and>
      (\<forall>x. isin t' x \<longleftrightarrow> start \<le> x \<and> x < start + Suc k \<or> isin s x)"
    using I by (auto simp: less_Suc_eq)
qed (use assms in auto)

lemma remove_range:
  assumes "invar s" "start + len \<le> cap"
  shows "\<exists>s'. for_loop 0 len (\<lambda>i s. remove s (start + i)) s = Some s' \<and> invar s' \<and>
           (\<forall>x. isin s' x \<longleftrightarrow> \<not> (start \<le> x \<and> x < start + len) \<and> isin s x)"
proof (rule for_loop_invariant)
  fix k t
  assume k: "k < len" and I: "invar t \<and> (\<forall>x. isin t x \<longleftrightarrow> \<not> (start \<le> x \<and> x < start + k) \<and> isin s x)"
  then obtain t' where "remove t (start + k) = Some t'" "invar t'" "\<forall>x. isin t' x \<longleftrightarrow> x \<noteq> start + k \<and> isin t x"
    using remove_law [of t "start + k"] assms(2) by auto
  then show "\<exists>t'. remove t (start + k) = Some t' \<and> invar t' \<and>
      (\<forall>x. isin t' x \<longleftrightarrow> \<not> (start \<le> x \<and> x < start + Suc k) \<and> isin s x)"
    using I by (auto simp: less_Suc_eq)
qed (use assms in auto)

lemma add_span:
  assumes "invar s" "lo \<le> Suc hi" "hi < cap"
  shows "\<exists>s'. for_loop lo (Suc hi) (\<lambda>i s. add s i) s = Some s' \<and> invar s' \<and>
           (\<forall>x. isin s' x \<longleftrightarrow> lo \<le> x \<and> x \<le> hi \<or> isin s x)"
proof -
  have "\<exists>s'. for_loop lo (Suc hi) (\<lambda>i s. add s i) s = Some s' \<and> (invar s' \<and>
           (\<forall>x. isin s' x \<longleftrightarrow> lo \<le> x \<and> x < Suc hi \<or> isin s x))"
  proof (rule for_loop_invariant)
    fix k t
    assume k: "lo \<le> k" "k < Suc hi" and I: "invar t \<and> (\<forall>x. isin t x \<longleftrightarrow> lo \<le> x \<and> x < k \<or> isin s x)"
    then obtain t' where "add t k = Some t'" "invar t'" "\<forall>x. isin t' x \<longleftrightarrow> x = k \<or> isin t x"
      using add_law [of t k] assms(3) by auto
    then show "\<exists>t'. add t k = Some t' \<and> invar t' \<and> (\<forall>x. isin t' x \<longleftrightarrow> lo \<le> x \<and> x < Suc k \<or> isin s x)"
      using I k by (auto simp: less_Suc_eq)
  qed (use assms in auto)
  then show ?thesis by (simp add: less_Suc_eq_le)
qed

end

interpretation bm: index_set "\<lambda>m. length m = n" member bitmap_set bitmap_clear "64 * n" for n
  using bitmap_set_member bitmap_clear_member by unfold_locales blast+

lemma bitmap_set_range_member:
  assumes "start + len \<le> 64 * length m"
  shows "\<exists>m'. bitmap_set_range m start len = Some m' \<and> length m' = length m \<and>
           (\<forall>x. member m' x \<longleftrightarrow> start \<le> x \<and> x < start + len \<or> member m x)"
  using bm.add_range [OF refl assms] by (simp add: bitmap_set_range_def)

lemma bitmap_clear_range_member:
  assumes "start + len \<le> 64 * length m"
  shows "\<exists>m'. bitmap_clear_range m start len = Some m' \<and> length m' = length m \<and>
           (\<forall>x. member m' x \<longleftrightarrow> \<not> (start \<le> x \<and> x < start + len) \<and> member m x)"
  using bm.remove_range [OF refl assms] by (simp add: bitmap_clear_range_def)

section \<open>Word-wise operations on members\<close>

lemma bitmap_words_le: "nbits \<le> 64 * bitmap_words nbits" "64 * bitmap_words nbits < nbits + 64"
  unfolding bitmap_words_def BITMAP_BITS_PER_WORD_def
  using div_mult_mod_eq [of nbits 64] mod_less_divisor [of 64 nbits] by (simp_all split: if_splits, linarith+)

lemma word_wise_words:
  assumes "n = bitmap_words nbits" "n \<le> length dst" "n \<le> length src1" "n \<le> length src2"
  shows "\<exists>m. word_wise f dst src1 src2 nbits = Some m \<and> length m = length dst \<and>
           (\<forall>j < length dst. m ! j = (if j < n then f (src1 ! j) (src2 ! j) else dst ! j))"
  unfolding word_wise_def assms(1) [symmetric]
  using assms
  by (intro for_loop_invariant [where I = "\<lambda>k m. length m = length dst \<and>
        (\<forall>j < length dst. m ! j = (if j < k then f (src1 ! j) (src2 ! j) else dst ! j))"])
     (auto simp: rd_in wr_in nth_list_update less_Suc_eq)

lemma member_div: "member m b \<longleftrightarrow> b div 64 < length m \<and> bit (m ! (b div 64)) (b mod 64)"
  by (simp add: member_def bit_index)

lemma div_words: "b < nbits \<Longrightarrow> b div 64 < bitmap_words nbits"
  using bitmap_words_le [of nbits] by auto

text \<open>On maps of whole words the combinations are those of the member sets.\<close>

lemma word_wise_members:
  assumes "bitmap_words nbits = length dst" "length src1 = length dst" "length src2 = length dst"
    and "\<And>x y k. bit (f x y) k \<longleftrightarrow> k < 64 \<and> g (bit x k) (bit y k)"
  shows "\<exists>m. word_wise f dst src1 src2 nbits = Some m \<and> length m = length dst \<and>
           (\<forall>b. member m b \<longleftrightarrow> b < 64 * length dst \<and> g (member src1 b) (member src2 b))"
  using word_wise_words [of "length dst" nbits dst src1 src2 f] assms
  by (auto simp: member_div simp flip: bit_index)

lemma scan_words_find:
  assumes "\<And>k. i \<le> k \<Longrightarrow> k < n \<Longrightarrow> rdw k = Some (g k)"
  shows "scan_words i n rdw stop = Some (map_option (\<lambda>k. (k, g k)) (find (\<lambda>k. stop (g k)) [i..<n]))"
  using assms
proof (induction "n - i" arbitrary: i)
  case 0
  then show ?case by (simp add: scan_words.simps)
next
  case (Suc d)
  then have "i < n" by simp
  moreover have "scan_words (Suc i) n rdw stop =
      Some (map_option (\<lambda>k. (k, g k)) (find (\<lambda>k. stop (g k)) [Suc i..<n]))"
    using Suc.hyps(2) Suc.prems by (intro Suc.hyps(1)) auto
  ultimately show ?case using Suc.prems [of i]
    by (subst scan_words.simps) (simp add: upt_conv_Cons)
qed

section \<open>Searches\<close>

lemma ctz_spec:
  assumes "w \<noteq> 0"
  shows "ci_ctzll w < 64" "bit w (ci_ctzll w)" "\<And>j. j < ci_ctzll w \<Longrightarrow> \<not> bit w j"
proof -
  let ?t = "takeWhile (\<lambda>i. \<not> bit w i) [0..<64]"
  obtain k where k: "k < 64" "bit w k"
    using assms by (auto simp: bit_eq_iff)
  have lt: "length ?t < length [0..<64]"
  proof (rule ccontr)
    assume "\<not> length ?t < length [0..<64]"
    then have "?t = [0..<64]" by (metis takeWhile_eq_take linorder_not_less take_all)
    then have "k \<in> set ?t" using k by (simp del: upt_rec_numeral)
    then show False using k by (auto dest: set_takeWhileD)
  qed
  then show "ci_ctzll w < 64" by (simp add: ci_ctzll_def)
  show "bit w (ci_ctzll w)" using nth_length_takeWhile [OF lt] lt by (simp add: ci_ctzll_def)
  fix j assume j: "j < ci_ctzll w"
  then have "?t ! j = j" using lt takeWhile_nth [of j _ "[0..<64]"] by (simp add: ci_ctzll_def)
  then have "j \<in> set ?t" using j by (metis ci_ctzll_def nth_mem)
  then show "\<not> bit w j" by (auto dest: set_takeWhileD)
qed

text \<open>What the searches promise: the first set bit at or after a start, or \<open>nbits\<close>.\<close>

definition first_from :: "(nat \<Rightarrow> bool) \<Rightarrow> nat \<Rightarrow> nat \<Rightarrow> nat \<Rightarrow> bool" where
  "first_from P start nbits r \<longleftrightarrow>
     r \<le> nbits \<and> (\<forall>b. start \<le> b \<and> b < r \<longrightarrow> \<not> P b) \<and> (r < nbits \<longrightarrow> start \<le> r \<and> P r)"

lemma first_from_extend:
  assumes "first_from P s' nbits r" "s \<le> s'" "\<And>b. s \<le> b \<Longrightarrow> b < s' \<Longrightarrow> \<not> P b"
  shows "first_from P s nbits r"
proof -
  have "\<not> P b" if "s \<le> b" "b < r" for b
    using that assms by (cases "s' \<le> b") (auto simp: first_from_def)
  then show ?thesis using assms(1,2) by (auto simp: first_from_def)
qed

lemma hit_first:
  assumes "w \<noteq> 0" "start < 64 * Suc i" "64 * i \<le> start"
    and "\<And>j. j < 64 \<Longrightarrow> bit w j \<longleftrightarrow> start \<le> 64 * i + j \<and> P (64 * i + j)"
  shows "first_from P start nbits (hit nbits i w)"
proof -
  note c = ctz_spec [OF assms(1)]
  have c': "start \<le> 64 * i + ci_ctzll w" "P (64 * i + ci_ctzll w)" using assms(4) c(1,2) by auto
  have "\<not> P b" if "start \<le> b" "b < 64 * i + ci_ctzll w" for b
  proof -
    have "b - 64 * i < ci_ctzll w" "64 * i \<le> b" using that assms(3) by auto
    then show ?thesis using c(3) [of "b - 64 * i"] assms(4) [of "b - 64 * i"] c(1) that by auto
  qed
  then show ?thesis using c'
    by (auto simp: first_from_def hit_def BITMAP_BITS_PER_WORD_def Let_def mult.commute)
qed

lemma scan_first:
  assumes "bitmap_words nbits \<le> length m"
  shows "first_from (member m) (64 * i) nbits
    (case_option nbits (\<lambda>k. hit nbits k (m ! k)) (find (\<lambda>k. m ! k \<noteq> 0) [i..<bitmap_words nbits]))"
proof (cases "find (\<lambda>k. m ! k \<noteq> 0) [i..<bitmap_words nbits]")
  case None
  have "\<not> member m b" if "64 * i \<le> b" "b < nbits" for b
  proof -
    have "b div 64 \<in> set [i..<bitmap_words nbits]" using that div_words [of b nbits] by auto
    then have "m ! (b div 64) = 0" using None by (auto simp: find_None_iff)
    then show ?thesis by (simp add: member_def)
  qed
  then show ?thesis using None by (auto simp: first_from_def)
next
  case (Some k)
  then have k: "i \<le> k" "k < bitmap_words nbits" "m ! k \<noteq> 0"
    and z: "\<And>j. i \<le> j \<Longrightarrow> j < k \<Longrightarrow> m ! j = 0"
  proof -
    from Some obtain n where n: "n < length [i..<bitmap_words nbits]" "k = [i..<bitmap_words nbits] ! n"
      "m ! k \<noteq> 0" "\<forall>j<n. \<not> m ! ([i..<bitmap_words nbits] ! j) \<noteq> 0"
      by (auto simp: find_Some_iff)
    then show "i \<le> k" "k < bitmap_words nbits" "m ! k \<noteq> 0" by auto
    fix j assume "i \<le> j" "j < k"
    then show "m ! j = 0" using n spec [OF n(4), of "j - i"] by auto
  qed
  have f: "first_from (member m) (64 * k) nbits (hit nbits k (m ! k))"
    using k assms by (intro hit_first) (auto simp: member_def)
  have "\<not> member m b" if "64 * i \<le> b" "b < 64 * k" for b
    using z [of "b div 64"] that by (auto simp: member_def)
  then show ?thesis using first_from_extend [OF f, of "64 * i"] k(1) Some by simp
qed

lemma bit_high_mask: "bit (NOT (mask n) :: bitmap_word) k \<longleftrightarrow> n \<le> k \<and> k < 64"
  by (auto simp: bit_not_iff bit_mask_iff)

lemma find_next_bit_first:
  assumes "bitmap_words nbits \<le> length m"
  shows "\<exists>r. bitmap_find_next_bit m nbits start = Some r \<and> first_from (member m) start nbits r"
proof (cases "nbits \<le> start")
  case True
  then show ?thesis by (auto simp: bitmap_find_next_bit_def first_from_def)
next
  case False
  let ?i = "start div 64" and ?o = "start mod 64"
  let ?w = "m ! ?i AND push_bit ?o (NOT 0)"
  have i: "?i < bitmap_words nbits" using False div_words [of start nbits] by simp
  have so: "64 * ?i + ?o = start" by simp
  have bits: "bit ?w j \<longleftrightarrow> start \<le> 64 * ?i + j \<and> member m (64 * ?i + j)" if "j < 64" for j
  proof -
    have "start \<le> 64 * ?i + j \<longleftrightarrow> ?o \<le> j" using so by linarith
    then show ?thesis using that i assms by (auto simp: bit_and_iff bit_high_mask member_def)
  qed
  show ?thesis
  proof (cases "?w = 0")
    case zero: True
    let ?r = "case_option nbits (\<lambda>k. hit nbits k (m ! k)) (find (\<lambda>k. m ! k \<noteq> 0) [Suc ?i..<bitmap_words nbits])"
    have "bitmap_find_next_bit m nbits start = Some ?r"
      using False i assms zero scan_words_find [of "Suc ?i" "bitmap_words nbits" "rd m" "(!) m" "\<lambda>w. w \<noteq> 0"]
      by (cases "find (\<lambda>k. m ! k \<noteq> 0) [Suc ?i..<bitmap_words nbits]")
         (simp_all add: bitmap_find_next_bit_def BITMAP_BITS_PER_WORD_def rd_in Let_def)
    moreover have "\<not> member m b" if "start \<le> b" "b < 64 * Suc ?i" for b
    proof -
      have "b < 64 * ?i + 64" "64 * ?i \<le> b" using that(2) that(1) so by (simp, linarith)
      then have "b - 64 * ?i < 64" "64 * ?i \<le> b" by auto
      then show ?thesis using bits [of "b - 64 * ?i"] zero that by auto
    qed
    moreover have "start \<le> 64 * Suc ?i"
      using so mod_less_divisor [of 64 start] unfolding mult_Suc_right by linarith
    ultimately show ?thesis
      using first_from_extend [OF scan_first [OF assms, of "Suc ?i"], of start] by blast
  next
    case nz: False
    then have "bitmap_find_next_bit m nbits start = Some (hit nbits ?i ?w)"
      using False i assms by (simp add: bitmap_find_next_bit_def BITMAP_BITS_PER_WORD_def rd_in Let_def)
    moreover have "first_from (member m) start nbits (hit nbits ?i ?w)"
      using nz bits so by (intro hit_first) auto
    ultimately show ?thesis by blast
  qed
qed

lemma find_first_set_first:
  assumes "bitmap_words nbits \<le> length m"
  shows "\<exists>r. bitmap_find_first_set m nbits = Some r \<and> first_from (member m) 0 nbits r"
  using scan_first [OF assms, of 0] assms
    scan_words_find [of 0 "bitmap_words nbits" "rd m" "(!) m" "\<lambda>w. w \<noteq> 0"]
  by (cases "find (\<lambda>k. m ! k \<noteq> 0) [0..<bitmap_words nbits]")
     (simp_all add: bitmap_find_first_set_def rd_in)

text \<open>A search for a zero bit is a search for a set bit in the complement.\<close>

lemma rd_map: "rd (map f m) = (\<lambda>i. map_option f (rd m i))"
  by (auto simp: rd_def)

lemma find_next_zero_complement:
  "bitmap_find_next_zero_bit m nbits start = bitmap_find_next_bit (map (\<lambda>w. NOT w) m) nbits start"
  unfolding bitmap_find_next_zero_bit_def bitmap_find_next_bit_def rd_map
  by (cases "rd m (start div BITMAP_BITS_PER_WORD)") (simp_all add: Let_def rd_in)

lemma find_first_zero_complement:
  "bitmap_find_first_zero m nbits = bitmap_find_first_set (map (\<lambda>w. NOT w) m) nbits"
  by (simp add: bitmap_find_first_zero_def bitmap_find_first_set_def rd_map)

lemma member_complement:
  "member (map (\<lambda>w. NOT w) m) b \<longleftrightarrow> b < 64 * length m \<and> \<not> member m b"
  by (auto simp: member_def bit_not_iff simp flip: bit_index)

lemma first_from_cong:
  assumes "\<And>b. b < nbits \<Longrightarrow> P b \<longleftrightarrow> Q b"
  shows "first_from P start nbits r \<longleftrightarrow> first_from Q start nbits r"
  using assms unfolding first_from_def by (meson less_le_trans)

lemma find_next_zero_first:
  assumes "bitmap_words nbits \<le> length m"
  shows "\<exists>r. bitmap_find_next_zero_bit m nbits start = Some r \<and> first_from (\<lambda>b. \<not> member m b) start nbits r"
proof -
  have "nbits \<le> 64 * length m"
    using assms bitmap_words_le(1) [of nbits] by (meson le_trans mult_le_mono2)
  then have "first_from (member (map (\<lambda>w. NOT w) m)) start nbits r \<longleftrightarrow>
      first_from (\<lambda>b. \<not> member m b) start nbits r" for r
    by (intro first_from_cong) (auto simp: member_complement)
  then show ?thesis using find_next_bit_first [of nbits "map (\<lambda>w. NOT w) m" start] assms
    by (auto simp: find_next_zero_complement)
qed

section \<open>Counting\<close>

lemma popcount_card: "ci_popcountll w = card {j. j < 64 \<and> bit w j}"
proof -
  have "ci_popcountll w = card (set (filter (bit w) [0..<64]))"
    unfolding ci_popcountll_def by (rule distinct_card [symmetric]) simp
  also have "set (filter (bit w) [0..<64]) = {j. j < 64 \<and> bit w j}" by (auto simp del: upt_rec_numeral)
  finally show ?thesis .
qed

lemma card_members_add:
  assumes "k < length m" "r \<le> 64"
  shows "card {b. b < 64 * k + r \<and> member m b} = card {b. b < 64 * k \<and> member m b} + card {j. j < r \<and> bit (m ! k) j}"
proof -
  have mem: "member m (64 * k + j) \<longleftrightarrow> bit (m ! k) j" if "j < 64" for j
    using that assms by (auto simp: member_def)
  have "b \<in> (\<lambda>j. 64 * k + j) ` {j. j < r \<and> bit (m ! k) j}"
    if "b < 64 * k + r" "\<not> b < 64 * k" "member m b" for b
    using that mem [of "b - 64 * k"] assms by (intro image_eqI [of _ _ "b - 64 * k"]) auto
  then have "{b. b < 64 * k + r \<and> member m b} =
      {b. b < 64 * k \<and> member m b} \<union> (\<lambda>j. 64 * k + j) ` {j. j < r \<and> bit (m ! k) j}"
    using mem assms by auto
  moreover have "card ((\<lambda>j. 64 * k + j) ` {j. j < r \<and> bit (m ! k) j}) = card {j. j < r \<and> bit (m ! k) j}"
    by (rule card_image) (simp add: inj_on_def)
  moreover have "{b. b < 64 * k \<and> member m b} \<inter> (\<lambda>j. 64 * k + j) ` {j. j < r \<and> bit (m ! k) j} = {}"
    by auto
  ultimately show ?thesis by (simp add: card_Un_disjoint)
qed

lemma popcount_low:
  assumes "r \<le> 64"
  shows "ci_popcountll (w AND mask r) = card {j. j < r \<and> bit w j}"
proof -
  have "{j. j < 64 \<and> bit (w AND mask r) j} = {j. j < r \<and> bit w j}"
    using assms by (auto simp: bit_and_iff bit_mask_iff)
  then show ?thesis by (simp add: popcount_card)
qed

lemma bitmap_weight_card:
  assumes "bitmap_words nbits \<le> length m"
  shows "bitmap_weight m nbits = Some (card {b. b < nbits \<and> member m b})"
proof (cases "bitmap_words nbits")
  case 0
  then have "nbits = 0" using bitmap_words_le(1) [of nbits] by simp
  then show ?thesis using 0 by (simp add: bitmap_weight_def)
next
  case (Suc n)
  let ?rem = "nbits mod 64"
  have n: "n < length m" using Suc assms by simp
  have c: "\<exists>c. for_loop 0 n (\<lambda>i c. map_option (\<lambda>w. c + ci_popcountll w) (rd m i)) 0 = Some c \<and>
      c = card {b. b < 64 * n \<and> member m b}"
  proof (rule for_loop_invariant)
    fix k c assume "k < n" and c: "c = card {b. b < 64 * k \<and> member m b}"
    then show "\<exists>c'. map_option (\<lambda>w. c + ci_popcountll w) (rd m k) = Some c' \<and>
        c' = card {b. b < 64 * Suc k \<and> member m b}"
      using n card_members_add [of k m 64] by (auto simp: popcount_card rd_in add.commute)
  qed auto
  show ?thesis
  proof (cases "?rem = 0")
    case True
    then have "nbits = 64 * n + 64" using Suc div_mult_mod_eq [of nbits 64]
      by (auto simp: bitmap_words_def BITMAP_BITS_PER_WORD_def)
    then show ?thesis using Suc n c True card_members_add [OF n, of 64]
      by (simp add: bitmap_weight_def BITMAP_BITS_PER_WORD_def rd_in Let_def popcount_card)
  next
    case False
    then have nb: "nbits = 64 * n + ?rem" using Suc div_mult_mod_eq [of nbits 64]
      by (auto simp: bitmap_words_def BITMAP_BITS_PER_WORD_def)
    have "push_bit ?rem 1 - 1 = (mask ?rem :: bitmap_word)"
      by (simp add: mask_eq_exp_minus_1 push_bit_eq_mult)
    then have "bitmap_weight m nbits = Some (card {b. b < 64 * n \<and> member m b} + card {j. j < ?rem \<and> bit (m ! n) j})"
      using Suc n c False popcount_low [of ?rem "m ! n"]
      by (simp only: bitmap_weight_def BITMAP_BITS_PER_WORD_def) (simp add: rd_in Let_def)
    also have "\<dots> = Some (card {b. b < 64 * n + ?rem \<and> member m b})"
      using card_members_add [OF n, of ?rem] by simp
    finally show ?thesis using nb by simp
  qed
qed

end
