(* ===== verification/CpuMask.thy ===== *)
theory CpuMask
  imports BitVec
begin

text \<open>
  The CPU masks of \<^verbatim>\<open>include/structures/cpu_mask.h\<close>: a bit map of \<open>CPU_MASK_BITS\<close> bits in
  a structure. The atomic variants of the single-bit operations are one read-modify-write
  step each and have the effect of the plain ones. The lemmas describe every operation on
  the set of CPUs of a mask.
\<close>

definition CPU_MASK_BITS :: nat where
  "CPU_MASK_BITS = 128"

record cpu_mask =
  bits :: "bitmap_word list"

abbreviation in_bits :: "cpu_mask \<Rightarrow> bitmap_word list option \<Rightarrow> cpu_mask option" where
  "in_bits m r \<equiv> map_option (\<lambda>b. m\<lparr>bits := b\<rparr>) r"

definition CPU_MASK_INIT :: cpu_mask where
  "CPU_MASK_INIT = \<lparr>bits = replicate (bitmap_words CPU_MASK_BITS) 0\<rparr>"

definition cpu_mask_init :: "cpu_mask \<Rightarrow> nat \<Rightarrow> cpu_mask" where
  "cpu_mask_init m nbits = m\<lparr>bits := map (\<lambda>_. 0) (bits m)\<rparr>"

definition cpu_mask_set :: "cpu_mask \<Rightarrow> nat \<Rightarrow> cpu_mask option" where
  "cpu_mask_set m cpu = (if cpu < CPU_MASK_BITS then in_bits m (bitmap_set (bits m) cpu) else Some m)"

definition cpu_mask_of :: "nat \<Rightarrow> cpu_mask option" where
  "cpu_mask_of cpu = cpu_mask_set CPU_MASK_INIT cpu"

definition cpu_mask_clear :: "cpu_mask \<Rightarrow> nat \<Rightarrow> cpu_mask option" where
  "cpu_mask_clear m cpu = (if cpu < CPU_MASK_BITS then in_bits m (bitmap_clear (bits m) cpu) else Some m)"

definition cpu_mask_toggle :: "cpu_mask \<Rightarrow> nat \<Rightarrow> cpu_mask option" where
  "cpu_mask_toggle m cpu = (if cpu < CPU_MASK_BITS then in_bits m (bitmap_toggle (bits m) cpu) else Some m)"

definition cpu_mask_test :: "cpu_mask \<Rightarrow> nat \<Rightarrow> bool option" where
  "cpu_mask_test m cpu = (if cpu < CPU_MASK_BITS then bitmap_test (bits m) cpu else Some False)"

definition cpu_mask_test_and_set :: "cpu_mask \<Rightarrow> nat \<Rightarrow> (bool \<times> cpu_mask) option" where
  "cpu_mask_test_and_set m cpu =
     (if cpu < CPU_MASK_BITS
      then map_option (\<lambda>(old, b). (old, m\<lparr>bits := b\<rparr>)) (bitmap_test_and_set (bits m) cpu)
      else Some (False, m))"

definition cpu_mask_test_and_clear :: "cpu_mask \<Rightarrow> nat \<Rightarrow> (bool \<times> cpu_mask) option" where
  "cpu_mask_test_and_clear m cpu =
     (if cpu < CPU_MASK_BITS
      then map_option (\<lambda>(old, b). (old, m\<lparr>bits := b\<rparr>)) (bitmap_test_and_clear (bits m) cpu)
      else Some (False, m))"

definition cpu_mask_zero :: "cpu_mask \<Rightarrow> cpu_mask option" where
  "cpu_mask_zero m = in_bits m (bitmap_zero (bits m) CPU_MASK_BITS)"

definition cpu_mask_fill :: "cpu_mask \<Rightarrow> cpu_mask option" where
  "cpu_mask_fill m = in_bits m (bitmap_fill (bits m) CPU_MASK_BITS)"

definition cpu_mask_set_range :: "cpu_mask \<Rightarrow> nat \<Rightarrow> nat \<Rightarrow> cpu_mask option" where
  "cpu_mask_set_range m start len = in_bits m (bitmap_set_range (bits m) start len)"

definition cpu_mask_clear_range :: "cpu_mask \<Rightarrow> nat \<Rightarrow> nat \<Rightarrow> cpu_mask option" where
  "cpu_mask_clear_range m start len = in_bits m (bitmap_clear_range (bits m) start len)"

definition cpu_mask_or :: "cpu_mask \<Rightarrow> cpu_mask \<Rightarrow> cpu_mask option" where
  "cpu_mask_or dst b = in_bits dst (bitmap_or (bits dst) (bits dst) (bits b) CPU_MASK_BITS)"

definition cpu_mask_or2 :: "cpu_mask \<Rightarrow> cpu_mask \<Rightarrow> cpu_mask \<Rightarrow> cpu_mask option" where
  "cpu_mask_or2 dst a b = in_bits dst (bitmap_or (bits dst) (bits a) (bits b) CPU_MASK_BITS)"

definition cpu_mask_and :: "cpu_mask \<Rightarrow> cpu_mask \<Rightarrow> cpu_mask \<Rightarrow> cpu_mask option" where
  "cpu_mask_and dst a b = in_bits dst (bitmap_and (bits dst) (bits a) (bits b) CPU_MASK_BITS)"

definition cpu_mask_xor :: "cpu_mask \<Rightarrow> cpu_mask \<Rightarrow> cpu_mask \<Rightarrow> cpu_mask option" where
  "cpu_mask_xor dst a b = in_bits dst (bitmap_xor (bits dst) (bits a) (bits b) CPU_MASK_BITS)"

definition cpu_mask_andnot :: "cpu_mask \<Rightarrow> cpu_mask \<Rightarrow> cpu_mask \<Rightarrow> cpu_mask option" where
  "cpu_mask_andnot dst a b = in_bits dst (bitmap_andnot (bits dst) (bits a) (bits b) CPU_MASK_BITS)"

definition cpu_mask_intersects :: "cpu_mask \<Rightarrow> cpu_mask \<Rightarrow> bool option" where
  "cpu_mask_intersects a b = bitmap_intersects (bits a) (bits b) CPU_MASK_BITS"

definition cpu_mask_equal :: "cpu_mask \<Rightarrow> cpu_mask \<Rightarrow> bool option" where
  "cpu_mask_equal a b = bitmap_equal (bits a) (bits b) CPU_MASK_BITS"

definition cpu_mask_subset :: "cpu_mask \<Rightarrow> cpu_mask \<Rightarrow> bool option" where
  "cpu_mask_subset sub super = bitmap_subset (bits sub) (bits super) CPU_MASK_BITS"

definition cpu_mask_weight :: "cpu_mask \<Rightarrow> nat option" where
  "cpu_mask_weight m = bitmap_weight (bits m) CPU_MASK_BITS"

definition cpu_mask_popcount :: "cpu_mask \<Rightarrow> nat option" where
  "cpu_mask_popcount m = bitmap_weight (bits m) CPU_MASK_BITS"

definition cpu_mask_empty :: "cpu_mask \<Rightarrow> bool option" where
  "cpu_mask_empty m = bitmap_empty (bits m) CPU_MASK_BITS"

definition cpu_mask_full :: "cpu_mask \<Rightarrow> bool option" where
  "cpu_mask_full m = bitmap_full (bits m) CPU_MASK_BITS"

definition cpu_mask_first_set :: "cpu_mask \<Rightarrow> nat option" where
  "cpu_mask_first_set m = bitmap_find_first_set (bits m) CPU_MASK_BITS"

definition cpu_mask_first_clear :: "cpu_mask \<Rightarrow> nat option" where
  "cpu_mask_first_clear m = bitmap_find_first_zero (bits m) CPU_MASK_BITS"

definition cpu_mask_next_set :: "cpu_mask \<Rightarrow> nat \<Rightarrow> nat option" where
  "cpu_mask_next_set m start = bitmap_find_next_bit (bits m) CPU_MASK_BITS start"

definition cpu_mask_next_clear :: "cpu_mask \<Rightarrow> nat \<Rightarrow> nat option" where
  "cpu_mask_next_clear m start = bitmap_find_next_zero_bit (bits m) CPU_MASK_BITS start"

section \<open>The set of CPUs of a mask\<close>

definition mask_ok :: "cpu_mask \<Rightarrow> bool" where
  "mask_ok m \<longleftrightarrow> length (bits m) = bitmap_words CPU_MASK_BITS"

definition cpus :: "cpu_mask \<Rightarrow> nat set" where
  "cpus m = {c. member (bits m) c}"

lemma words_128: "bitmap_words 128 = 2"
  by (simp add: bitmap_words_def BITMAP_BITS_PER_WORD_def)

lemmas mask_simps = mask_ok_def cpus_def words_128 CPU_MASK_BITS_def

lemma cpus_bound: "mask_ok m \<Longrightarrow> cpus m \<subseteq> {..<CPU_MASK_BITS}"
  by (auto simp: mask_simps member_def)

interpretation cm: index_set mask_ok "\<lambda>m c. c \<in> cpus m" cpu_mask_set cpu_mask_clear CPU_MASK_BITS
proof
  fix m i
  assume "mask_ok m" "i < CPU_MASK_BITS"
  then have "i < 64 * length (bits m)" by (simp add: mask_simps)
  from bitmap_set_member [OF this] bitmap_clear_member [OF this]
  show "\<exists>s'. cpu_mask_set m i = Some s' \<and> mask_ok s' \<and> (\<forall>x. x \<in> cpus s' \<longleftrightarrow> x = i \<or> x \<in> cpus m)"
    and "\<exists>s'. cpu_mask_clear m i = Some s' \<and> mask_ok s' \<and> (\<forall>x. x \<in> cpus s' \<longleftrightarrow> x \<noteq> i \<and> x \<in> cpus m)"
    using \<open>mask_ok m\<close> \<open>i < CPU_MASK_BITS\<close>
    by (auto simp: cpu_mask_set_def cpu_mask_clear_def mask_ok_def cpus_def)
qed

lemma mask_combine:
  assumes "mask_ok dst" "mask_ok a" "mask_ok b"
    and "\<And>x y k. bit (f x y) k \<longleftrightarrow> k < 64 \<and> g (bit x k) (bit y k)"
  shows "\<exists>m. in_bits dst (word_wise f (bits dst) (bits a) (bits b) CPU_MASK_BITS) = Some m \<and> mask_ok m \<and>
           cpus m = {c. c < CPU_MASK_BITS \<and> g (c \<in> cpus a) (c \<in> cpus b)}"
  using word_wise_members [of CPU_MASK_BITS "bits dst" "bits a" "bits b" f g] assms
  by (auto simp: mask_simps)

lemma bit_u64_lt: "bit (x :: u64) k \<Longrightarrow> k < 64"
  using bit_imp_le_length [of x k] by simp

lemma bit_combinations:
  fixes x y :: u64
  shows "bit (x OR y) k \<longleftrightarrow> k < 64 \<and> (bit x k \<or> bit y k)"
    and "bit (x AND y) k \<longleftrightarrow> k < 64 \<and> (bit x k \<and> bit y k)"
    and "bit (x XOR y) k \<longleftrightarrow> k < 64 \<and> (bit x k \<noteq> bit y k)"
    and "bit (x AND NOT y) k \<longleftrightarrow> k < 64 \<and> (bit x k \<and> \<not> bit y k)"
  by (auto simp: bit_or_iff bit_and_iff bit_xor_iff bit_not_iff dest: bit_u64_lt)

text \<open>Word-wise tests that look for a set bit of a combination of two masks.\<close>

lemma scan_none_iff:
  fixes f :: "u64 \<Rightarrow> u64 \<Rightarrow> u64"
  assumes "mask_ok a" "mask_ok b" and f: "\<And>x y k. bit (f x y) k \<longleftrightarrow> k < 64 \<and> g (bit x k) (bit y k)"
  shows "\<exists>r. scan_words 0 (bitmap_words CPU_MASK_BITS) (rd2 (bits a) (bits b)) (\<lambda>(x, y). f x y \<noteq> 0) = Some r \<and>
           (r = None \<longleftrightarrow> (\<forall>c < CPU_MASK_BITS. \<not> g (c \<in> cpus a) (c \<in> cpus b)))"
proof -
  have len: "length (bits a) = 2" "length (bits b) = 2" using assms by (simp_all add: mask_simps)
  have "scan_words 0 2 (rd2 (bits a) (bits b)) (\<lambda>(x, y). f x y \<noteq> 0) =
      Some (map_option (\<lambda>k. (k, bits a ! k, bits b ! k)) (find (\<lambda>k. f (bits a ! k) (bits b ! k) \<noteq> 0) [0..<2]))"
    using len by (subst scan_words_find [where g = "\<lambda>k. (bits a ! k, bits b ! k)"])
      (auto simp: rd2_def rd_in case_prod_unfold)
  moreover have "find (\<lambda>k. f (bits a ! k) (bits b ! k) \<noteq> 0) [0..<2] = None \<longleftrightarrow>
      (\<forall>k<2. \<forall>j<64. \<not> g (bit (bits a ! k) j) (bit (bits b ! k) j))"
    by (auto simp: find_None_iff bit_eq_iff f)
  moreover have "\<dots> \<longleftrightarrow> (\<forall>c < 128. \<not> g (c \<in> cpus a) (c \<in> cpus b))"
  proof (intro iffI allI impI)
    fix c :: nat
    assume all: "\<forall>k<2. \<forall>j<64. \<not> g (bit (bits a ! k) j) (bit (bits b ! k) j)" and "c < 128"
    then have "\<not> g (bit (bits a ! (c div 64)) (c mod 64)) (bit (bits b ! (c div 64)) (c mod 64))"
      using all [rule_format, of "c div 64" "c mod 64"] by simp
    then show "\<not> g (c \<in> cpus a) (c \<in> cpus b)" using \<open>c < 128\<close> len by (simp add: cpus_def member_def)
  next
    fix k j :: nat
    assume all: "\<forall>c<128. \<not> g (c \<in> cpus a) (c \<in> cpus b)" and kj: "k < 2" "j < 64"
    then have "(64 * k + j) div 64 = k" "(64 * k + j) mod 64 = j" "64 * k + j < 128" by auto
    then show "\<not> g (bit (bits a ! k) j) (bit (bits b ! k) j)"
      using all [rule_format, of "64 * k + j"] len by (simp add: cpus_def member_def)
  qed
  ultimately show ?thesis by (simp add: mask_simps)
qed

text \<open>
  C29. The combinations of CPU masks are the operations on their sets of CPUs: union,
  intersection, symmetric difference and difference; each succeeds on masks of the
  declared size.
\<close>

theorem cpu_mask_set_algebra:
  assumes "mask_ok dst" "mask_ok a" "mask_ok b"
  shows "(\<exists>m. cpu_mask_or2 dst a b = Some m \<and> mask_ok m \<and> cpus m = cpus a \<union> cpus b) \<and>
         (\<exists>m. cpu_mask_and dst a b = Some m \<and> mask_ok m \<and> cpus m = cpus a \<inter> cpus b) \<and>
         (\<exists>m. cpu_mask_xor dst a b = Some m \<and> mask_ok m \<and> cpus m = (cpus a - cpus b) \<union> (cpus b - cpus a)) \<and>
         (\<exists>m. cpu_mask_andnot dst a b = Some m \<and> mask_ok m \<and> cpus m = cpus a - cpus b)"
proof (intro conjI)
  note b = cpus_bound [OF assms(2)] cpus_bound [OF assms(3)]
  note combine = mask_combine [OF assms]
  have "{c. c < CPU_MASK_BITS \<and> (c \<in> cpus a \<or> c \<in> cpus b)} = cpus a \<union> cpus b" using b by auto
  then show "\<exists>m. cpu_mask_or2 dst a b = Some m \<and> mask_ok m \<and> cpus m = cpus a \<union> cpus b"
    using combine [of _ "(\<or>)", OF bit_combinations(1)] by (simp add: cpu_mask_or2_def bitmap_or_def)
  have "{c. c < CPU_MASK_BITS \<and> (c \<in> cpus a \<and> c \<in> cpus b)} = cpus a \<inter> cpus b" using b by auto
  then show "\<exists>m. cpu_mask_and dst a b = Some m \<and> mask_ok m \<and> cpus m = cpus a \<inter> cpus b"
    using combine [of _ "(\<and>)", OF bit_combinations(2)] by (simp add: cpu_mask_and_def bitmap_and_def)
  have "{c. c < CPU_MASK_BITS \<and> (c \<in> cpus a) \<noteq> (c \<in> cpus b)} = (cpus a - cpus b) \<union> (cpus b - cpus a)"
    using b by auto
  then show "\<exists>m. cpu_mask_xor dst a b = Some m \<and> mask_ok m \<and> cpus m = (cpus a - cpus b) \<union> (cpus b - cpus a)"
    using combine [of _ "(\<noteq>)", OF bit_combinations(3)] by (simp add: cpu_mask_xor_def bitmap_xor_def)
  have "{c. c < CPU_MASK_BITS \<and> (c \<in> cpus a \<and> c \<notin> cpus b)} = cpus a - cpus b" using b by auto
  then show "\<exists>m. cpu_mask_andnot dst a b = Some m \<and> mask_ok m \<and> cpus m = cpus a - cpus b"
    using combine [of _ "\<lambda>p q. p \<and> \<not> q", OF bit_combinations(4)]
    by (simp add: cpu_mask_andnot_def bitmap_andnot_def)
qed

theorem cpu_mask_set_algebra_witness:
  "\<exists>a b m. cpu_mask_of 3 = Some a \<and> cpu_mask_of 70 = Some b \<and>
           cpu_mask_or2 CPU_MASK_INIT a b = Some m \<and> cpus m = cpus a \<union> cpus b \<and> bits m = [8, 64]"
proof -
  let ?a = "\<lparr>bits = [8, 0]\<rparr>" and ?b = "\<lparr>bits = [0, 64]\<rparr>"
  have "mask_ok CPU_MASK_INIT" "mask_ok ?a" "mask_ok ?b" by (simp_all add: mask_simps CPU_MASK_INIT_def)
  then have "\<exists>m. cpu_mask_or2 CPU_MASK_INIT ?a ?b = Some m \<and> mask_ok m \<and> cpus m = cpus ?a \<union> cpus ?b"
    using cpu_mask_set_algebra by blast
  moreover have "cpu_mask_or2 CPU_MASK_INIT ?a ?b = Some \<lparr>bits = [8, 64]\<rparr>" by code_simp
  moreover have "cpu_mask_of 3 = Some ?a" "cpu_mask_of 70 = Some ?b" by code_simp+
  ultimately show ?thesis by auto
qed

text \<open>The difference of two words is zero exactly if they are equal.\<close>

lemma xor_eq_0: "(x :: u64) XOR y \<noteq> 0 \<longleftrightarrow> x \<noteq> y"
  by (metis bit.xor_self xor.right_neutral xor.assoc)

text \<open>
  C30. The tests on CPU masks decide the relations of their sets of CPUs: disjointness,
  equality and inclusion; the weight is the number of CPUs.
\<close>

theorem cpu_mask_relations:
  assumes "mask_ok a" "mask_ok b"
  shows "cpu_mask_intersects a b = Some (cpus a \<inter> cpus b \<noteq> {}) \<and>
         cpu_mask_equal a b = Some (cpus a = cpus b) \<and>
         cpu_mask_subset a b = Some (cpus a \<subseteq> cpus b) \<and>
         cpu_mask_weight a = Some (card (cpus a))"
proof (intro conjI)
  note bound = cpus_bound [OF assms(1)] cpus_bound [OF assms(2)]
  have "(\<forall>c<CPU_MASK_BITS. \<not> (c \<in> cpus a \<and> c \<in> cpus b)) \<longleftrightarrow> cpus a \<inter> cpus b = {}" using bound by blast
  then show "cpu_mask_intersects a b = Some (cpus a \<inter> cpus b \<noteq> {})"
    using scan_none_iff [OF assms, of _ "(\<and>)", OF bit_combinations(2)]
    by (auto simp: cpu_mask_intersects_def bitmap_intersects_def)
  have "(\<forall>c<CPU_MASK_BITS. (c \<in> cpus a) = (c \<in> cpus b)) \<longleftrightarrow> cpus a = cpus b" using bound by blast
  then show "cpu_mask_equal a b = Some (cpus a = cpus b)"
    using scan_none_iff [OF assms, of _ "(\<noteq>)", OF bit_combinations(3)]
    by (auto simp: cpu_mask_equal_def bitmap_equal_def xor_eq_0)
  have "(\<forall>c<CPU_MASK_BITS. \<not> (c \<in> cpus a \<and> c \<notin> cpus b)) \<longleftrightarrow> cpus a \<subseteq> cpus b" using bound by blast
  then show "cpu_mask_subset a b = Some (cpus a \<subseteq> cpus b)"
    using scan_none_iff [OF assms, of _ "\<lambda>p q. p \<and> \<not> q", OF bit_combinations(4)]
    by (auto simp: cpu_mask_subset_def bitmap_subset_def)
  have "{c. c < CPU_MASK_BITS \<and> member (bits a) c} = cpus a" using bound(1) by (auto simp: cpus_def)
  then show "cpu_mask_weight a = Some (card (cpus a))"
    using bitmap_weight_card [of CPU_MASK_BITS "bits a"] assms(1) by (simp add: cpu_mask_weight_def mask_ok_def)
qed

theorem cpu_mask_relations_witness:
  "cpu_mask_subset \<lparr>bits = [8, 0]\<rparr> \<lparr>bits = [12, 64]\<rparr> = Some True \<and> cpus \<lparr>bits = [8, 0]\<rparr> \<subseteq> cpus \<lparr>bits = [12, 64]\<rparr>"
proof -
  have "mask_ok \<lparr>bits = [8, 0]\<rparr>" "mask_ok \<lparr>bits = [12, 64]\<rparr>" by (simp_all add: mask_simps)
  then have "cpu_mask_subset \<lparr>bits = [8, 0]\<rparr> \<lparr>bits = [12, 64]\<rparr> = Some (cpus \<lparr>bits = [8, 0]\<rparr> \<subseteq> cpus \<lparr>bits = [12, 64]\<rparr>)"
    using cpu_mask_relations by blast
  moreover have "cpu_mask_subset \<lparr>bits = [8, 0]\<rparr> \<lparr>bits = [12, 64]\<rparr> = Some True" by code_simp
  ultimately show ?thesis by simp
qed

text \<open>
  Iterating with the first and the next set CPU visits the CPUs of the mask in
  order: the search from any start returns the least CPU of the mask at or after it, and
  \<open>CPU_MASK_BITS\<close> when there is none.
\<close>

theorem cpu_mask_next_set_least:
  assumes "mask_ok m"
  shows "cpu_mask_next_set m start =
           Some (if \<exists>c \<in> cpus m. start \<le> c then LEAST c. c \<in> cpus m \<and> start \<le> c else CPU_MASK_BITS)"
proof -
  obtain r where r: "cpu_mask_next_set m start = Some r"
    "first_from (member (bits m)) start CPU_MASK_BITS r"
    using find_next_bit_first [of CPU_MASK_BITS "bits m" start] assms
    by (auto simp: cpu_mask_next_set_def mask_ok_def)
  have none: "c \<notin> cpus m" if "start \<le> c" "c < r" for c using r(2) that by (auto simp: first_from_def cpus_def)
  show ?thesis
  proof (cases "r < CPU_MASK_BITS")
    case True
    then have "r \<in> cpus m \<and> start \<le> r" using r(2) by (auto simp: first_from_def cpus_def)
    moreover from this have "(LEAST c. c \<in> cpus m \<and> start \<le> c) = r"
      using none by (intro Least_equality) (auto simp: not_le [symmetric])
    ultimately show ?thesis using r(1) by auto
  next
    case False
    then have "r = CPU_MASK_BITS" using r(2) by (simp add: first_from_def)
    moreover have "\<not> (\<exists>c \<in> cpus m. start \<le> c)"
      using none cpus_bound [OF assms] \<open>r = CPU_MASK_BITS\<close> by auto
    ultimately show ?thesis using r(1) by simp
  qed
qed

theorem cpu_mask_next_set_least_witness:
  "cpu_mask_next_set \<lparr>bits = [8, 64]\<rparr> 4 = Some 70 \<and> (LEAST c. c \<in> cpus \<lparr>bits = [8, 64]\<rparr> \<and> 4 \<le> c) = 70"
proof -
  have ok: "mask_ok \<lparr>bits = [8, 64]\<rparr>" by (simp add: mask_simps)
  have "cpu_mask_next_set \<lparr>bits = [8, 64]\<rparr> 4 = Some 70" by code_simp
  then show ?thesis using cpu_mask_next_set_least [OF ok, of 4] by (simp add: CPU_MASK_BITS_def split: if_splits)
qed

end
