(* ===== verification/Popcount.thy ===== *)
theory Popcount
  imports BitVec
begin

text \<open>
  The bit count \<open>popcount64\<close> of \<^verbatim>\<open>kernel/types/ui128_t.c\<close>, which adds up pairs, nibbles and
  bytes of a word in parallel and collects the bytes with one multiplication. The lemmas
  follow the three parallel steps on fields of 2, 4 and 8 bits and end with the number of
  set bits.
\<close>

definition popcount64 :: "u64 \<Rightarrow> u64" where
  "popcount64 x =
     (let x = x - (drop_bit 1 x AND 0x5555555555555555);
          x = (x AND 0x3333333333333333) + (drop_bit 2 x AND 0x3333333333333333);
          x = (x + drop_bit 4 x) AND 0x0F0F0F0F0F0F0F0F
      in drop_bit 56 (x * 0x0101010101010101))"

section \<open>Fields\<close>

text \<open>The low \<open>w\<close> bits of every field of \<open>s\<close> bits, for \<open>k\<close> fields, and the mask that selects them.\<close>

fun sel :: "nat \<Rightarrow> nat \<Rightarrow> nat \<Rightarrow> nat \<Rightarrow> nat" where
  "sel w s 0 x = 0"
| "sel w s (Suc k) x = x mod 2 ^ w + 2 ^ s * sel w s k (x div 2 ^ s)"

fun field_mask :: "nat \<Rightarrow> nat \<Rightarrow> nat \<Rightarrow> nat" where
  "field_mask w s 0 = 0"
| "field_mask w s (Suc k) = (2 ^ w - 1) + 2 ^ s * field_mask w s k"

lemma and_split: "(x AND m :: nat) = (x mod 2 ^ s AND m mod 2 ^ s) + 2 ^ s * (x div 2 ^ s AND m div 2 ^ s)"
proof -
  have "x AND m = push_bit s (drop_bit s (x AND m)) + take_bit s (x AND m)" by (rule bits_ident [symmetric])
  also have "\<dots> = (x mod 2 ^ s AND m mod 2 ^ s) + 2 ^ s * (x div 2 ^ s AND m div 2 ^ s)"
    unfolding take_bit_and drop_bit_and unfolding push_bit_eq_mult take_bit_eq_mod drop_bit_eq_div
    by (simp only: add.commute mult.commute)
  finally show ?thesis .
qed

lemma and_field_mask:
  assumes "w \<le> s"
  shows "x AND field_mask w s k = sel w s k x"
proof (induction k arbitrary: x)
  case (Suc k)
  have lt: "(2 :: nat) ^ w - 1 < 2 ^ s"
    using power_increasing [OF assms, of "2 :: nat"] by (simp add: Suc_le_eq [symmetric])
  have "(e + 2 ^ s * f) mod 2 ^ s = e" "(e + 2 ^ s * f) div 2 ^ s = f" if "e < 2 ^ s" for e f :: nat
    using that by simp_all
  from this [OF lt] have m: "field_mask w s (Suc k) mod 2 ^ s = 2 ^ w - 1"
      "field_mask w s (Suc k) div 2 ^ s = field_mask w s k"
    by (simp_all only: field_mask.simps)
  have "x mod 2 ^ s AND (2 ^ w - 1) = x mod 2 ^ s mod 2 ^ w"
    using take_bit_eq_mask [of w "x mod 2 ^ s"] by (simp only: take_bit_eq_mod mask_eq_exp_minus_1)
  also have "\<dots> = x mod 2 ^ w" using assms by (simp add: mod_mod_cancel le_imp_power_dvd)
  finally show ?case unfolding and_split [of x _ s] m by (simp add: Suc.IH)
qed simp

text \<open>The number of set bits among the low \<open>w\<close> bits, and the fields that hold these counts.\<close>

fun ones :: "nat \<Rightarrow> nat \<Rightarrow> nat" where
  "ones 0 x = 0"
| "ones (Suc w) x = x mod 2 + ones w (x div 2)"

fun counts :: "nat \<Rightarrow> nat \<Rightarrow> nat \<Rightarrow> nat" where
  "counts w 0 x = 0"
| "counts w (Suc k) x = ones w x + 2 ^ w * counts w k (x div 2 ^ w)"

lemma ones_le: "ones w x \<le> w"
proof (induction w arbitrary: x)
  case (Suc w)
  have "x mod 2 \<le> 1" by simp
  then show ?case using Suc.IH [of "x div 2"] by simp
qed simp

lemma ones_add: "ones (v + w) x = ones v x + ones w (x div 2 ^ v)"
  by (induction v arbitrary: x) (simp_all add: div_mult2_eq)

text \<open>First step: counts of pairs.\<close>

lemma pairs_step:
  assumes "x < 4 ^ k"
  shows "x - sel 1 2 k (x div 2) = counts 2 k x \<and> sel 1 2 k (x div 2) \<le> x"
  using assms
proof (induction k arbitrary: x)
  case (Suc k)
  let ?y = "x div 4"
  have IH: "?y - sel 1 2 k (?y div 2) = counts 2 k ?y" "sel 1 2 k (?y div 2) \<le> ?y"
    using Suc by auto
  have x: "x = 4 * ?y + (x mod 2 + 2 * (x div 2 mod 2))"
    using mod_mult2_eq [of x 2 2] div_mult_mod_eq [of x 4] by simp
  have "x div 2 div 4 = ?y div 2" by (simp flip: div_mult2_eq)
  then have s: "sel 1 2 (Suc k) (x div 2) = x div 2 mod 2 + 4 * sel 1 2 k (?y div 2)" by simp
  have o: "ones 2 x = x mod 2 + x div 2 mod 2" by (simp add: numeral_2_eq_2)
  have c: "counts 2 (Suc k) x = x mod 2 + x div 2 mod 2 + 4 * (?y - sel 1 2 k (?y div 2))"
    using IH(1) o by simp
  have arith: "4 * y + (a + 2 * b) - (b + 4 * t) = a + b + 4 * (y - t)" "b + 4 * t \<le> 4 * y + (a + 2 * b)"
    if "t \<le> y" for a b t y :: nat using that by simp_all
  show ?case
    using arith(1) [OF IH(2), of "x mod 2" "x div 2 mod 2", folded x s c]
      arith(2) [OF IH(2), of "x div 2 mod 2" "x mod 2", folded x s] by (intro conjI)
qed simp

text \<open>Second and third step: counts of nibbles and of bytes.\<close>

lemma counts_two:
  "counts w (Suc (Suc k)) x = ones w x + 2 ^ w * (ones w (x div 2 ^ w) + 2 ^ w * counts w k (x div 2 ^ (w + w)))"
  by (simp add: power_add div_mult2_eq)

lemma base_split: "(a :: nat) < B \<Longrightarrow> (a + B * c) mod B = a" "(a :: nat) < B \<Longrightarrow> (a + B * c) div B = c"
  by simp_all

lemma nibble_fields:
  fixes a b y :: nat
  assumes "a < 4" "b < 4" "Y = a + 4 * (b + 4 * y)"
  shows "sel 2 4 (Suc k) Y + sel 2 4 (Suc k) (Y div 4) = a + b + 16 * (sel 2 4 k y + sel 2 4 k (y div 4))"
proof -
  have d: "Y mod 4 = a" "Y div 4 = b + 4 * y" "(b + 4 * y) mod 4 = b" "(b + 4 * y) div 4 = y"
    unfolding assms(3) using assms(1,2) by (simp_all only: base_split)
  have "Y div 16 = Y div 4 div 4" "(b + 4 * y) div 16 = (b + 4 * y) div 4 div 4" by (simp_all only: div_mult2_eq [symmetric], simp_all)
  then have "Y div 16 = y" "Y div 4 div 16 = y div 4" using d by simp_all
  then show ?thesis using d by simp
qed

lemma byte_fields:
  fixes a b z :: nat
  assumes "a \<le> 4" "b \<le> 4" "z mod 16 \<le> 4" "Z = a + 16 * (b + 16 * z)"
  shows "sel 4 8 (Suc k) (Z + Z div 16) = a + b + 256 * sel 4 8 k (z + z div 16)"
proof -
  have "Z div 16 = b + 16 * z" using assms by simp
  also have "\<dots> = b + 16 * (z mod 16) + 256 * (z div 16)" using div_mult_mod_eq [of z 16] by linarith
  finally have "Z + Z div 16 = (a + b) + 16 * (b + z mod 16) + 256 * (z + z div 16)" using assms(4) by simp
  moreover have "(u + 16 * v + 256 * w) mod 16 = u" "(u + 16 * v + 256 * w) div 256 = w"
    if "u < 16" "v < 15" for u v w :: nat
  proof -
    have "u + 16 * v + 256 * w = u + (v + 16 * w) * 16" by simp
    then show "(u + 16 * v + 256 * w) mod 16 = u" using that by (simp only: mod_mult_self1) simp
    have "u + 16 * v < 256" using that by simp
    then show "(u + 16 * v + 256 * w) div 256 = w" by simp
  qed
  note e = this and f = calculation
  have "a + b < 16" "b + z mod 16 < 15" using assms(1-3) by simp_all
  note e = e [OF this, of "z + z div 16", folded f]
  then show ?thesis using e by simp
qed

lemma nibbles_step:
  "sel 2 4 k (counts 2 (2 * k) x) + sel 2 4 k (counts 2 (2 * k) x div 4) = counts 4 k x"
proof (induction k arbitrary: x)
  case (Suc k)
  have lt: "ones 2 x < 4" "ones 2 (x div 4) < 4" using ones_le [of 2 x] ones_le [of 2 "x div 4"] by linarith+
  have y: "counts 2 (2 * Suc k) x = ones 2 x + 4 * (ones 2 (x div 4) + 4 * counts 2 (2 * k) (x div 16))"
    using counts_two [of 2 "2 * k" x] by simp
  show ?case
    unfolding nibble_fields [OF lt y] Suc.IH using ones_add [of 2 2 x] by simp
qed simp

lemma counts_low: "w < 2 ^ w \<Longrightarrow> counts w k x mod 2 ^ w \<le> w"
proof (cases k)
  case (Suc j)
  assume "w < 2 ^ w"
  then have "ones w x < 2 ^ w" using ones_le [of w x] by linarith
  then show ?thesis using Suc ones_le [of w x] by simp
qed simp

lemma bytes_step:
  "sel 4 8 k (counts 4 (2 * k) x + counts 4 (2 * k) x div 16) = counts 8 k x"
proof (induction k arbitrary: x)
  case (Suc k)
  have z: "counts 4 (2 * Suc k) x = ones 4 x + 16 * (ones 4 (x div 16) + 16 * counts 4 (2 * k) (x div 256))"
    using counts_two [of 4 "2 * k" x] by simp
  have "counts 4 (2 * k) (x div 256) mod 16 \<le> 4" using counts_low [of 4 "2 * k" "x div 256"] by simp
  note byte_fields [OF ones_le ones_le this z, of k]
  also have "ones 4 x + ones 4 (x div 16) = ones 8 x" using ones_add [of 4 4 x] by simp
  also have "(256 :: nat) = 2 ^ 8" by simp
  finally show ?case by (simp only: Suc.IH counts.simps)
qed simp

text \<open>The multiplication adds the eight bytes up in the top byte.\<close>

lemma byte_sum:
  fixes b0 b1 b2 b3 b4 b5 b6 b7 :: nat
  assumes "b0 \<le> 8" "b1 \<le> 8" "b2 \<le> 8" "b3 \<le> 8" "b4 \<le> 8" "b5 \<le> 8" "b6 \<le> 8" "b7 \<le> 8"
    and v: "v = b0 + 256 * (b1 + 256 * (b2 + 256 * (b3 + 256 * (b4 + 256 * (b5 + 256 * (b6 + 256 * b7))))))"
  shows "v * 0x0101010101010101 mod 2 ^ 64 div 2 ^ 56 = b0 + b1 + b2 + b3 + b4 + b5 + b6 + b7"
proof -
  let ?L = "b0 + 256 * (b0 + b1 + 256 * (b0 + b1 + b2 + 256 * (b0 + b1 + b2 + b3 + 256 *
    (b0 + b1 + b2 + b3 + b4 + 256 * (b0 + b1 + b2 + b3 + b4 + b5 + 256 * (b0 + b1 + b2 + b3 + b4 + b5 + b6))))))"
  let ?S = "b0 + b1 + b2 + b3 + b4 + b5 + b6 + b7"
  let ?H = "b1 + b2 + b3 + b4 + b5 + b6 + b7 + 256 * (b2 + b3 + b4 + b5 + b6 + b7 + 256 * (b3 + b4 + b5 + b6 + b7 + 256 *
    (b4 + b5 + b6 + b7 + 256 * (b5 + b6 + b7 + 256 * (b6 + b7 + 256 * b7)))))"
  have "v * 0x0101010101010101 = ?L + ?S * 2 ^ 56 + ?H * 2 ^ 64" unfolding v by simp
  moreover have "?L < 2 ^ 56" "?L + ?S * 2 ^ 56 < 2 ^ 64" using assms(1-8) by simp_all
  ultimately show ?thesis by (simp only: mod_mult_self1 mod_less div_mult_self1) simp
qed

lemma ones_card: "ones w x = card {j. j < w \<and> bit x j}"
proof (induction w)
  case (Suc w)
  have "ones (Suc w) x = ones w x + x div 2 ^ w mod 2" using ones_add [of w 1 x] by simp
  moreover have "{j. j < Suc w \<and> bit x j} = (if bit x w then insert w {j. j < w \<and> bit x j} else {j. j < w \<and> bit x j})"
    by (auto simp: less_Suc_eq)
  moreover have "x div 2 ^ w mod 2 = (if bit x w then 1 else 0)" by (simp add: bit_iff_odd mod_2_eq_odd)
  ultimately show ?case using Suc.IH by auto
qed simp

lemma field_mask_numeral:
  "field_mask w s (numeral v) = (2 ^ w - 1) + 2 ^ s * field_mask w s (pred_numeral v)"
  "field_mask w s 1 = 2 ^ w - 1"
  by (simp_all add: numeral_eq_Suc)

lemma unat_fields:
  fixes x :: u64
  shows "unat (x AND 0x5555555555555555) = sel 1 2 32 (unat x)"
    "unat (x AND 0x3333333333333333) = sel 2 4 16 (unat x)"
    "unat (x AND 0x0F0F0F0F0F0F0F0F) = sel 4 8 8 (unat x)"
proof -
  have m: "field_mask 1 2 32 = 0x5555555555555555" "field_mask 2 4 16 = 0x3333333333333333"
    "field_mask 4 8 8 = 0x0F0F0F0F0F0F0F0F" by (simp_all add: field_mask_numeral)
  show "unat (x AND 0x5555555555555555) = sel 1 2 32 (unat x)"
    "unat (x AND 0x3333333333333333) = sel 2 4 16 (unat x)"
    "unat (x AND 0x0F0F0F0F0F0F0F0F) = sel 4 8 8 (unat x)"
    using and_field_mask [of 1 2 "unat x" 32] and_field_mask [of 2 4 "unat x" 16] and_field_mask [of 4 8 "unat x" 8]
    by (simp_all only: m unsigned_and_eq) simp_all
qed

lemma unat_shift: "unat (drop_bit n (x :: u64)) = unat x div 2 ^ n"
proof -
  have "unat (drop_bit n x) = drop_bit n (unat x)"
    by (rule bit_eqI) (auto simp: bit_unsigned_iff bit_drop_bit_eq dest: bit_imp_le_length)
  then show ?thesis by (simp only: drop_bit_eq_div)
qed

lemma counts_lt: "w < 2 ^ w \<Longrightarrow> counts w k x < 2 ^ (w * k)"
proof (induction k arbitrary: x)
  case (Suc k)
  have "ones w x < 2 ^ w" using Suc.prems ones_le [of w x] by linarith
  moreover have "Suc (counts w k (x div 2 ^ w)) \<le> 2 ^ (w * k)" using Suc by (simp add: Suc_le_eq)
  then have "2 ^ w * Suc (counts w k (x div 2 ^ w)) \<le> 2 ^ w * 2 ^ (w * k)" by (rule mult_le_mono2)
  ultimately show ?case by (simp add: power_add)
qed simp

lemma counts_weight: "(2 ^ w - 1) * counts w k x + w \<le> w * 2 ^ (w * k)"
proof (induction k arbitrary: x)
  case (Suc k)
  let ?c = "counts w k (x div 2 ^ w)"
  have B: "(2 ^ w - 1) * y + y = 2 ^ w * y" for y :: nat by (simp add: diff_mult_distrib)
  have "(2 ^ w - 1) * counts w (Suc k) x + w \<le> (2 ^ w - 1) * w + 2 ^ w * ((2 ^ w - 1) * ?c) + w"
    using mult_le_mono2 [OF ones_le [of w x], of "2 ^ w - 1"] by (simp add: distrib_left mult.left_commute)
  also have "\<dots> = 2 ^ w * ((2 ^ w - 1) * ?c + w)" using B [of w] by (simp add: distrib_left)
  also have "\<dots> \<le> 2 ^ w * (w * 2 ^ (w * k))" using Suc.IH by (rule mult_le_mono2)
  finally show ?case by (simp add: power_add mult.left_commute)
qed simp

lemma byte_total: "counts 8 8 u * 0x0101010101010101 mod 2 ^ 64 div 2 ^ 56 = ones 64 u"
proof -
  let ?b = "\<lambda>i. ones 8 (u div 2 ^ (8 * i))"
  have c: "counts 8 (Suc k) (u div 2 ^ (8 * i)) = ?b i + 256 * counts 8 k (u div 2 ^ (8 * Suc i))" for k i
    by (simp add: power_add mult.commute flip: div_mult2_eq)
  have "counts 8 2 y = ones 8 y + 256 * ones 8 (y div 256)" for y
    using counts_two [of 8 0 y] by (simp flip: numeral_2_eq_2)
  from this [of "u div 2 ^ 48"] have c2: "counts 8 2 (u div 2 ^ 48) = ?b 6 + 256 * ?b 7"
    by (simp flip: div_mult2_eq)
  have "counts 8 8 u = ?b 0 + 256 * (?b 1 + 256 * (?b 2 + 256 * (?b 3 + 256 * (?b 4 + 256 * (?b 5 + 256 * (?b 6 + 256 * ?b 7))))))"
    using c [of 7 0] c [of 6 1] c [of 5 2] c [of 4 3] c [of 3 4] c [of 2 5] c2 by simp
  note s = byte_sum [OF ones_le ones_le ones_le ones_le ones_le ones_le ones_le ones_le this]
  have o: "ones (8 * Suc k) (u div 2 ^ (8 * i)) = ?b i + ones (8 * k) (u div 2 ^ (8 * Suc i))" for k i
    using ones_add [of 8 "8 * k" "u div 2 ^ (8 * i)"] by (simp add: power_add mult.commute flip: div_mult2_eq)
  have "ones 64 u = ?b 0 + ?b 1 + ?b 2 + ?b 3 + ?b 4 + ?b 5 + ?b 6 + ?b 7"
    using o [of 7 0] o [of 6 1] o [of 5 2] o [of 4 3] o [of 3 4] o [of 2 5] o [of 1 6] o [of 0 7] by simp
  then show ?thesis using s by simp
qed

text \<open>
  C31. The parallel bit count computes the number of set bits of its argument.
\<close>

theorem popcount64_correct: "unat (popcount64 x) = card {j. j < 64 \<and> bit x j}"
proof -
  let ?u = "unat x"
  let ?x1 = "x - (drop_bit 1 x AND 0x5555555555555555)"
  let ?x2 = "(?x1 AND 0x3333333333333333) + (drop_bit 2 ?x1 AND 0x3333333333333333)"
  let ?x3 = "(?x2 + drop_bit 4 ?x2) AND 0x0F0F0F0F0F0F0F0F"
  have "?u < 4 ^ 32" using unat_lt64 [of x] by simp
  note p = pairs_step [OF this]
  have "unat (drop_bit 1 x AND 0x5555555555555555) = sel 1 2 32 (?u div 2)"
    using unat_shift [of 1 x] by (simp only: unat_fields) simp
  then have x1: "unat ?x1 = counts 2 32 ?u"
    using p by (simp add: unat_sub_small word_le_nat_alt)
  have "unat (drop_bit 2 ?x1 AND 0x3333333333333333) = sel 2 4 16 (unat ?x1 div 4)"
    using unat_shift [of 2 ?x1] by (simp only: unat_fields) simp
  then have s2: "unat (?x1 AND 0x3333333333333333) + unat (drop_bit 2 ?x1 AND 0x3333333333333333) = counts 4 16 ?u"
    using nibbles_step [of 16 ?u] x1 by (simp only: unat_fields) simp
  have c4: "counts 4 16 ?u < 2 ^ 64" using counts_lt [of 4 16 ?u] by simp
  have "unat ?x2 = unat (?x1 AND 0x3333333333333333) + unat (drop_bit 2 ?x1 AND 0x3333333333333333)"
    by (rule unat_add_small) (simp only: s2, use c4 in simp)
  then have x2: "unat ?x2 = counts 4 16 ?u" using s2 by (rule trans)
  have "unat ?x2 + unat (drop_bit 4 ?x2) < 2 ^ 64"
    using counts_weight [of 4 16 ?u] unat_shift [of 4 ?x2] unfolding x2 by simp
  then have "unat (?x2 + drop_bit 4 ?x2) = counts 4 16 ?u + counts 4 16 ?u div 16"
    using unat_shift [of 4 ?x2] x2 by (simp add: unat_add_small)
  then have x3: "unat ?x3 = counts 8 8 ?u"
    using bytes_step [of 8 ?u] by (simp only: unat_fields) simp
  have "unat (popcount64 x) = counts 8 8 ?u * 0x0101010101010101 mod 2 ^ 64 div 2 ^ 56"
    unfolding popcount64_def Let_def unat_shift unat_word_ariths x3 by simp
  also have "\<dots> = ones 64 ?u" by (rule byte_total)
  finally show ?thesis by (simp add: ones_card bit_unsigned_iff)
qed

end
