(* ===== verification/U128.thy ===== *)
theory U128
  imports Popcount
begin

text \<open>
  The 128-bit arithmetic helpers of \<^verbatim>\<open>kernel/types/ui128_t.c\<close>, which the compiler calls for
  \<open>uint128_t\<close> and \<open>int128_t\<close>. Both are words of 128 bits, signed values read with \<open>sint\<close>;
  the union \<open>u128_parts\<close> is the pair of functions \<open>s_lo\<close>, \<open>s_hi\<close> and its inverse \<open>all_of\<close>.
  The lemmas show that the helpers compute shifts, negation, product, quotient and
  remainder, bit counts, and that the checked ones panic exactly on overflow.
\<close>

section \<open>Parts\<close>

definition s_lo :: "u128 \<Rightarrow> u64" where
  "s_lo a = ucast a"

definition s_hi :: "u128 \<Rightarrow> u64" where
  "s_hi a = ucast (drop_bit 64 a)"

definition all_of :: "u64 \<Rightarrow> u64 \<Rightarrow> u128" where
  "all_of hi lo = push_bit 64 (ucast hi) OR ucast lo"

text \<open>The intrinsic behind \<open>ci_clzll\<close> (of a non-zero word).\<close>

definition ci_clzll :: "u64 \<Rightarrow> nat" where
  "ci_clzll w = length (takeWhile (\<lambda>i. \<not> bit w i) (rev [0..<64]))"

section \<open>Operations\<close>

definition mul64_wide :: "u64 \<Rightarrow> u64 \<Rightarrow> u64 \<times> u64" where
  "mul64_wide a b =
     (let a_lo = a AND 0xFFFFFFFF; a_hi = drop_bit 32 a;
          b_lo = b AND 0xFFFFFFFF; b_hi = drop_bit 32 b;
          p0 = a_lo * b_lo; p1 = a_lo * b_hi; p2 = a_hi * b_lo; p3 = a_hi * b_hi;
          mid = drop_bit 32 p0 + (p1 AND 0xFFFFFFFF) + (p2 AND 0xFFFFFFFF);
          lo = (p0 AND 0xFFFFFFFF) OR push_bit 32 mid;
          hi = p3 + drop_bit 32 p1 + drop_bit 32 p2 + drop_bit 32 mid
      in (hi, lo))"

definition ashlti3 :: "u128 \<Rightarrow> nat \<Rightarrow> u128" where
  "ashlti3 a b =
     (if b = 0 then a
      else if 64 \<le> b then all_of (push_bit (b - 64) (s_lo a)) 0
      else all_of (push_bit b (s_hi a) OR drop_bit (64 - b) (s_lo a)) (push_bit b (s_lo a)))"

definition lshrti3 :: "u128 \<Rightarrow> nat \<Rightarrow> u128" where
  "lshrti3 a b =
     (if b = 0 then a
      else if 64 \<le> b then all_of 0 (drop_bit (b - 64) (s_hi a))
      else all_of (drop_bit b (s_hi a)) (drop_bit b (s_lo a) OR push_bit (64 - b) (s_hi a)))"

definition ashrti3 :: "u128 \<Rightarrow> nat \<Rightarrow> u128" where
  "ashrti3 a b =
     (let fill = signed_drop_bit 63 (s_hi a)
      in if b = 0 then a
         else if 64 \<le> b then all_of fill (signed_drop_bit (b - 64) (s_hi a))
         else all_of (signed_drop_bit b (s_hi a)) (drop_bit b (s_lo a) OR push_bit (64 - b) (s_hi a)))"

definition negti2 :: "u128 \<Rightarrow> u128" where
  "negti2 a =
     (let lo = NOT (s_lo a) + 1
      in all_of (NOT (s_hi a) + (if lo = 0 then 1 else 0)) lo)"

definition multi3 :: "u128 \<Rightarrow> u128 \<Rightarrow> u128" where
  "multi3 a b =
     (let (hi, lo) = mul64_wide (s_lo a) (s_lo b)
      in all_of (hi + s_lo a * s_hi b + s_hi a * s_lo b) lo)"

text \<open>The shift-subtract loop over the bits \<open>i - 1, ..., 0\<close>.\<close>

fun udivmod_loop :: "nat \<Rightarrow> u128 \<Rightarrow> u128 \<Rightarrow> u128 \<Rightarrow> u128 \<Rightarrow> u128 \<times> u128" where
  "udivmod_loop 0 n d q r = (q, r)"
| "udivmod_loop (Suc i) n d q r =
     (let r = push_bit 1 r OR (drop_bit i n AND 1)
      in if d \<le> r then udivmod_loop i n d (q OR push_bit i 1) (r - d)
         else udivmod_loop i n d q r)"

definition udivmodti4 :: "u128 \<Rightarrow> u128 \<Rightarrow> (u128 \<times> u128) res" where
  "udivmodti4 n d =
     (if d = 0 then Inl (Panic ''__udivmodti4: 128-bit divide by zero'')
      else if s_hi n = 0 \<and> s_hi d = 0 then Inr (ucast (s_lo n div s_lo d), ucast (s_lo n mod s_lo d))
      else if n < d then Inr (0, n)
      else let msb = (if s_hi n \<noteq> 0 then 127 - ci_clzll (s_hi n) else 63 - ci_clzll (s_lo n))
           in Inr (udivmod_loop (Suc msb) n d 0 0))"

definition udivti3 :: "u128 \<Rightarrow> u128 \<Rightarrow> u128 res" where
  "udivti3 a b = map_sum id fst (udivmodti4 a b)"

definition umodti3 :: "u128 \<Rightarrow> u128 \<Rightarrow> u128 res" where
  "umodti3 a b = map_sum id snd (udivmodti4 a b)"

definition divmodti4 :: "u128 \<Rightarrow> u128 \<Rightarrow> (u128 \<times> u128) res" where
  "divmodti4 a b =
     (let neg_q = (sint a < 0) \<noteq> (sint b < 0); neg_r = (sint a < 0);
          ua = (if sint a < 0 then - a else a); ub = (if sint b < 0 then - b else b)
      in map_sum id (\<lambda>(uq, ur). (if neg_q then - uq else uq, if neg_r then - ur else ur)) (udivmodti4 ua ub))"

definition divti3 :: "u128 \<Rightarrow> u128 \<Rightarrow> u128 res" where
  "divti3 a b = map_sum id fst (divmodti4 a b)"

definition modti3 :: "u128 \<Rightarrow> u128 \<Rightarrow> u128 res" where
  "modti3 a b = map_sum id snd (divmodti4 a b)"

definition cmpti2 :: "u128 \<Rightarrow> u128 \<Rightarrow> int" where
  "cmpti2 a b = (if sint a < sint b then 0 else if a = b then 1 else 2)"

definition ucmpti2 :: "u128 \<Rightarrow> u128 \<Rightarrow> int" where
  "ucmpti2 a b = (if a < b then 0 else if a = b then 1 else 2)"

definition clzti2 :: "u128 \<Rightarrow> nat" where
  "clzti2 a = (if s_hi a \<noteq> 0 then ci_clzll (s_hi a) else 64 + ci_clzll (s_lo a))"

definition ctzti2 :: "u128 \<Rightarrow> nat" where
  "ctzti2 a = (if s_lo a \<noteq> 0 then ci_ctzll (s_lo a) else 64 + ci_ctzll (s_hi a))"

definition ffsti2 :: "u128 \<Rightarrow> nat" where
  "ffsti2 a =
     (if s_lo a \<noteq> 0 then ci_ctzll (s_lo a) + 1
      else if s_hi a \<noteq> 0 then ci_ctzll (s_hi a) + 65
      else 0)"

definition popcountti2 :: "u128 \<Rightarrow> u64" where
  "popcountti2 a = popcount64 (s_lo a) + popcount64 (s_hi a)"

definition parityti2 :: "u128 \<Rightarrow> u64" where
  "parityti2 a = popcount64 (s_lo a XOR s_hi a) AND 1"

definition INT128_MIN :: u128 where
  "INT128_MIN = push_bit 127 1"

definition negvti2 :: "u128 \<Rightarrow> u128 res" where
  "negvti2 a = (if a = INT128_MIN then Inl (Panic ''OVERFLOW'') else Inr (negti2 a))"

definition absvti2 :: "u128 \<Rightarrow> u128 res" where
  "absvti2 a =
     (if a = INT128_MIN then Inl (Panic ''OVERFLOW'') else Inr (if sint a < 0 then negti2 a else a))"

definition addvti3 :: "u128 \<Rightarrow> u128 \<Rightarrow> u128 res" where
  "addvti3 a b =
     (let r = a + b
      in if sint ((a XOR r) AND (b XOR r)) < 0 then Inl (Panic ''OVERFLOW'') else Inr r)"

definition subvti3 :: "u128 \<Rightarrow> u128 \<Rightarrow> u128 res" where
  "subvti3 a b =
     (let r = a - b
      in if sint ((a XOR b) AND (a XOR r)) < 0 then Inl (Panic ''OVERFLOW'') else Inr r)"

text \<open>The division in the overflow test is the helper \<open>divti3\<close> itself.\<close>

definition mulvti3 :: "u128 \<Rightarrow> u128 \<Rightarrow> u128 res" where
  "mulvti3 a b =
     (let r = multi3 a b
      in if a \<noteq> 0 \<and> (divti3 r a \<noteq> Inr b \<or> (a = - 1 \<and> b = INT128_MIN))
         then Inl (Panic ''OVERFLOW'') else Inr r)"

section \<open>Parts and values\<close>

lemma bit_parts:
  "bit (s_lo a) k \<longleftrightarrow> k < 64 \<and> bit a k"
  "bit (s_hi a) k \<longleftrightarrow> k < 64 \<and> bit a (k + 64)"
  "bit (all_of hi lo) k \<longleftrightarrow> (if k < 64 then bit lo k else bit hi (k - 64))"
  by (auto simp: s_lo_def s_hi_def all_of_def bit_simps add.commute dest: bit_imp_le_length)

lemma all_of_add: "all_of hi lo = of_nat (unat hi * 2 ^ 64 + unat lo)"
proof -
  have "all_of hi lo = push_bit 64 (ucast hi) + ucast lo"
    unfolding all_of_def by (rule disjunctive_add [symmetric]) (auto simp: bit_simps dest: bit_imp_le_length)
  also have "\<dots> = of_nat (unat hi * 2 ^ 64 + unat lo)"
    by (simp add: push_bit_eq_mult unsigned_of_nat [symmetric] mult.commute)
  finally show ?thesis .
qed

lemma unat_all_of: "unat (all_of hi lo) = unat hi * 2 ^ 64 + unat lo"
proof -
  have "unat hi * 2 ^ 64 + unat lo < 2 ^ 128"
    using unat_lt64 [of hi] unat_lt64 [of lo] by simp
  then show ?thesis unfolding all_of_add by (subst unat_of_nat) simp
qed

lemma unat_s_lo: "unat (s_lo a) = unat a mod 2 ^ 64"
  by (simp add: s_lo_def unsigned_ucast_eq take_bit_eq_mod)

lemma unat_lt128: "unat (a :: u128) < 2 ^ 128"
  using unat_lt [of a] by simp

lemma unat_s_hi: "unat (s_hi a) = unat a div 2 ^ 64"
proof -
  have "unat a div 2 ^ 64 < 2 ^ 64" using unat_lt128 [of a] by (simp add: div_less_iff_less_mult)
  then show ?thesis by (simp add: s_hi_def unsigned_ucast_eq take_bit_eq_mod unsigned_drop_bit_eq drop_bit_eq_div unat_div)
qed

lemma all_of_parts [simp]: "all_of (s_hi a) (s_lo a) = a"
  by (rule bit_word_eqI) (auto simp: bit_parts)

lemma ashlti3_shift: "b < 128 \<Longrightarrow> ashlti3 a b = push_bit b a"
  by (rule bit_word_eqI)
     (auto simp: ashlti3_def bit_parts bit_simps Suc_diff_le split: if_splits)

lemma bit_u128_lt: "bit (a :: u128) k \<Longrightarrow> k < 128"
  using bit_imp_le_length [of a k] by simp

lemma bit_u128_out: "128 \<le> k \<Longrightarrow> \<not> bit (a :: u128) k"
  using bit_u128_lt [of a k] by auto

lemma lshrti3_shift: "b < 128 \<Longrightarrow> lshrti3 a b = drop_bit b a"
proof (rule bit_word_eqI)
  fix n assume "b < 128" "n < LENGTH(128)"
  then show "bit (lshrti3 a b) n \<longleftrightarrow> bit (drop_bit b a) n"
    using bit_u128_lt [of a "b + n"]
    by (auto simp: lshrti3_def bit_parts bit_simps add.commute split: if_splits)
qed

lemma bit_signed_drop:
  "n < 64 \<Longrightarrow> bit (signed_drop_bit b (x :: u64)) n \<longleftrightarrow> bit x (if n + b < 64 then n + b else 63)"
  "n < 128 \<Longrightarrow> bit (signed_drop_bit b (y :: u128)) n \<longleftrightarrow> bit y (if n + b < 128 then n + b else 127)"
proof -
  have len: "LENGTH(64) = 64" "LENGTH(128) = 128" by simp_all
  show "n < 64 \<Longrightarrow> bit (signed_drop_bit b x) n \<longleftrightarrow> bit x (if n + b < 64 then n + b else 63)"
    unfolding bit_signed_drop_bit_iff len by (cases "n + b < 64") (auto simp: add.commute)
  show "n < 128 \<Longrightarrow> bit (signed_drop_bit b y) n \<longleftrightarrow> bit y (if n + b < 128 then n + b else 127)"
    unfolding bit_signed_drop_bit_iff len by (cases "n + b < 128") (auto simp: add.commute)
qed

lemma ashrti3_shift:
  assumes "b < 128"
  shows "ashrti3 a b = signed_drop_bit b a"
proof (rule bit_word_eqI)
  fix n assume "n < LENGTH(128)"
  then have n: "n < 128" by simp
  show "bit (ashrti3 a b) n \<longleftrightarrow> bit (signed_drop_bit b a) n"
  proof (cases "n < 64")
    case True
    then show ?thesis using n assms
      by (cases "n + b < 64")
         (auto simp: ashrti3_def Let_def bit_parts bit_signed_drop bit_or_iff bit_drop_bit_eq bit_push_bit_iff
           add.commute [of b n])
  next
    case False
    then obtain k where "n = 64 + k" "k < 64" using n by (intro that [of "n - 64"]) auto
    then show ?thesis using assms
      by (auto simp: ashrti3_def Let_def bit_parts bit_signed_drop add.assoc add.commute add.left_commute)
  qed
qed

lemma uint_all_of: "uint (all_of hi lo) = uint hi * 2 ^ 64 + uint lo"
  using arg_cong [OF unat_all_of [of hi lo], of int] by simp

lemma uint_lt64: "uint (x :: u64) < 2 ^ 64"
  using uint_bounded [of x] by simp

lemma exp128: "(2 :: u128) ^ 64 * 2 ^ 64 = 0"
  using word_exp_length_eq_0 [where 'a = 128] by (simp only: flip: power_add) simp

text \<open>The upper half matters modulo \<open>2^64\<close> only.\<close>

lemma all_of_of_int: "all_of (of_int h) lo = of_int (h * 2 ^ 64 + uint lo)"
proof -
  have "all_of (of_int h) lo = of_int (uint (of_int h :: u64) * 2 ^ 64 + uint lo)"
    by (metis uint_all_of word_of_int_uint)
  also have "uint (of_int h :: u64) = h mod 2 ^ 64"
    by (simp add: uint_word_of_int)
  also have "(of_int ((h mod 2 ^ 64) * 2 ^ 64 + uint lo) :: u128) = of_int (h * 2 ^ 64 + uint lo)"
  proof -
    have "(h mod B) * B = h * B - (h div B) * (B * B)" for B
      by (simp add: minus_div_mult_eq_mod [symmetric] algebra_simps)
    from this [of "2 ^ 64"]
    have "(h mod 2 ^ 64) * 2 ^ 64 + uint lo = h * 2 ^ 64 + uint lo - (h div 2 ^ 64) * (2 ^ 64 * 2 ^ 64)"
      by simp
    moreover have "(of_int ((h div 2 ^ 64) * (2 ^ 64 * 2 ^ 64)) :: u128) = 0"
      using exp128 by (simp only: of_int_mult of_int_power of_int_numeral mult_zero_right)
    ultimately show ?thesis by (metis (no_types, lifting) diff_zero of_int_diff)
  qed
  finally show ?thesis .
qed

lemma parts_value: "a = of_int (uint (s_hi a) * 2 ^ 64 + uint (s_lo a))"
  by (metis all_of_parts uint_all_of word_of_int_uint)

lemma negti2_minus: "negti2 a = - a"
proof -
  let ?L = "uint (s_lo a)" and ?H = "uint (s_hi a)"
  have lo: "NOT (s_lo a) + 1 = - s_lo a" by (simp add: not_eq_complement)
  have hi: "NOT (s_hi a) + (if - s_lo a = 0 then 1 else 0) = of_int (- ?H - 1 + (if s_lo a = 0 then 1 else 0))"
    by (simp add: not_eq_complement)
  have "uint (- s_lo a) = (if s_lo a = 0 then 0 else 2 ^ 64 - ?L)"
    using uint_lt64 [of "s_lo a"] by (auto simp: uint_word_ariths zmod_zminus1_eq_if uint_0_iff)
  moreover have "?L = 0 \<longleftrightarrow> s_lo a = 0" by (simp add: uint_0_iff)
  ultimately have "negti2 a = of_int (- (?H * 2 ^ 64 + ?L))"
    unfolding negti2_def lo Let_def hi all_of_of_int by (simp add: algebra_simps)
  also have "\<dots> = - a" using parts_value [of a] by (metis of_int_minus)
  finally show ?thesis .
qed

section \<open>Multiplication\<close>

text \<open>The partial products of two 64-bit numbers by halves, and their carries.\<close>

lemma low_half: "unat (x AND 0xFFFFFFFF :: u64) = unat x mod 2 ^ 32"
proof -
  have "(0xFFFFFFFF :: u64) = mask 32" by (simp add: mask_eq_exp_minus_1)
  then have "x AND 0xFFFFFFFF = take_bit 32 x" by (simp only: take_bit_eq_mask)
  then show ?thesis by (simp add: take_bit_eq_mod unat_mod)
qed

lemma high_half: "unat (drop_bit 32 x :: u64) = unat x div 2 ^ 32"
  by (simp add: drop_bit_eq_div unat_div)

lemma unat_mul_half:
  fixes x y :: u64
  assumes "unat x < 2 ^ 32" "unat y < 2 ^ 32"
  shows "unat (x * y) = unat x * unat y" "unat x * unat y \<le> (2 ^ 32 - 1) * (2 ^ 32 - 1)"
proof -
  show le: "unat x * unat y \<le> (2 ^ 32 - 1) * (2 ^ 32 - 1)" using assms by (intro mult_le_mono) auto
  then have "unat x * unat y < 2 ^ 64" by (rule le_less_trans) simp
  then show "unat (x * y) = unat x * unat y" by (intro unat_mult_small) simp
qed

lemma carry_sum:
  fixes B :: nat
  assumes mid: "mid = p0 div B + p1 mod B + p2 mod B"
  shows "(p3 + p1 div B + p2 div B + mid div B) * (B * B) + (mid mod B) * B + p0 mod B
       = p3 * (B * B) + (p1 + p2) * B + p0"
proof -
  have "(p3 + p1 div B + p2 div B + mid div B) * (B * B) + (mid mod B) * B + p0 mod B
      = p3 * (B * B) + (p1 div B * B + p2 div B * B + (mid div B * B + mid mod B)) * B + p0 mod B"
    by (simp only: distrib_right mult.assoc add.assoc)
  also have "\<dots> = p3 * (B * B) + ((p1 div B * B + p1 mod B) + (p2 div B * B + p2 mod B)) * B + (p0 div B * B + p0 mod B)"
    unfolding div_mult_mod_eq [of mid B] mid by (simp add: distrib_right)
  finally show ?thesis by (simp only: div_mult_mod_eq)
qed

lemma wide_sum:
  fixes p0 p1 p2 p3 :: u64
  assumes le: "unat p0 \<le> M" "unat p1 \<le> M" "unat p2 \<le> M" "unat p3 \<le> M" and M: "M = (2 ^ 32 - 1) * (2 ^ 32 - 1)"
    and mid: "mid = drop_bit 32 p0 + (p1 AND 0xFFFFFFFF) + (p2 AND 0xFFFFFFFF)"
  shows "unat (p3 + drop_bit 32 p1 + drop_bit 32 p2 + drop_bit 32 mid) * 2 ^ 64
           + (unat mid mod 2 ^ 32) * 2 ^ 32 + unat p0 mod 2 ^ 32
         = unat p3 * 2 ^ 64 + (unat p1 + unat p2) * 2 ^ 32 + unat p0"
proof -
  have h: "unat (drop_bit 32 p) \<le> 2 ^ 32 - 2" if "unat p \<le> M" for p :: u64
  proof -
    have "unat p div 2 ^ 32 \<le> M div 2 ^ 32" using that by (rule div_le_mono)
    then show ?thesis using M by (simp add: high_half)
  qed
  note hs = h [OF le(1)] h [OF le(2)] h [OF le(3)]
  have l: "unat (p AND 0xFFFFFFFF) < 2 ^ 32" for p :: u64 by (simp only: low_half) simp
  have m1: "unat (drop_bit 32 p0 + (p1 AND 0xFFFFFFFF)) = unat (drop_bit 32 p0) + unat (p1 AND 0xFFFFFFFF)"
    using hs(1) l [of p1] by (intro unat_add_small) simp
  have midu: "unat mid = unat p0 div 2 ^ 32 + unat p1 mod 2 ^ 32 + unat p2 mod 2 ^ 32"
    unfolding mid using hs(1) l [of p1] l [of p2] m1
    by (subst unat_add_small) (simp_all add: low_half high_half)
  have "unat mid < 3 * 2 ^ 32" unfolding midu using hs(1) l [of p1] l [of p2]
    by (simp only: low_half high_half)
  then have "unat mid div 2 ^ 32 \<le> 2" by simp
  then have midh: "unat (drop_bit 32 mid) \<le> 2" by (simp add: high_half)
  have "unat (p3 + drop_bit 32 p1 + drop_bit 32 p2 + drop_bit 32 mid) =
      unat p3 + unat (drop_bit 32 p1) + unat (drop_bit 32 p2) + unat (drop_bit 32 mid)"
    using le(4) hs(2,3) midh M by (simp add: unat_add_small)
  then have "unat (p3 + drop_bit 32 p1 + drop_bit 32 p2 + drop_bit 32 mid) =
      unat p3 + unat p1 div 2 ^ 32 + unat p2 div 2 ^ 32 + unat mid div 2 ^ 32"
    by (simp only: high_half)
  moreover have "(2 :: nat) ^ 64 = 2 ^ 32 * 2 ^ 32" by simp
  ultimately show ?thesis using carry_sum [OF midu, of "unat p3"] by (simp only:)
qed

lemma low_or_high:
  fixes p y :: u64
  shows "unat ((p AND 0xFFFFFFFF) OR push_bit 32 y) = unat p mod 2 ^ 32 + (unat y mod 2 ^ 32) * 2 ^ 32"
proof -
  have m: "(0xFFFFFFFF :: u64) = mask 32" by (simp add: mask_eq_exp_minus_1)
  have "(p AND 0xFFFFFFFF) OR push_bit 32 y = (p AND 0xFFFFFFFF) + push_bit 32 y"
    unfolding m by (intro disjunctive_add [symmetric]) (auto simp: bit_and_iff bit_mask_iff bit_push_bit_iff)
  moreover have hi: "unat (push_bit 32 y) = (unat y mod 2 ^ 32) * 2 ^ 32"
  proof -
    have "unat (push_bit 32 y) = (unat y * 2 ^ 32) mod (2 ^ 32 * 2 ^ 32)"
      by (simp add: push_bit_eq_mult unat_word_ariths)
    then show ?thesis by (simp only: mod_mult_mult2)
  qed
  moreover have "unat (p AND 0xFFFFFFFF) + unat (push_bit 32 y) < 2 ^ 64"
  proof -
    have "x + z * 2 ^ 32 < 2 ^ 64" if "x < 2 ^ 32" "z < 2 ^ 32" for x z :: nat using that by simp
    then show ?thesis unfolding low_half hi by simp
  qed
  ultimately show ?thesis by (simp add: unat_add_small low_half)
qed

lemma mul64_wide_product:
  assumes "mul64_wide a b = (hi, lo)"
  shows "unat hi * 2 ^ 64 + unat lo = unat a * unat b"
proof -
  let ?al = "a AND 0xFFFFFFFF" and ?ah = "drop_bit 32 a" and ?bl = "b AND 0xFFFFFFFF" and ?bh = "drop_bit 32 b"
  let ?mid = "drop_bit 32 (?al * ?bl) + (?al * ?bh AND 0xFFFFFFFF) + (?ah * ?bl AND 0xFFFFFFFF)"
  have lt: "unat ?al < 2 ^ 32" "unat ?bl < 2 ^ 32" "unat ?ah < 2 ^ 32" "unat ?bh < 2 ^ 32"
    using unat_lt64 [of a] unat_lt64 [of b] by (simp_all only: low_half high_half) (simp_all add: less_mult_imp_div_less)
  have hi: "hi = ?ah * ?bh + drop_bit 32 (?al * ?bh) + drop_bit 32 (?ah * ?bl) + drop_bit 32 ?mid"
    and lo: "lo = (?al * ?bl AND 0xFFFFFFFF) OR push_bit 32 ?mid"
    using assms by (simp_all add: mul64_wide_def Let_def)
  note p = unat_mul_half [OF lt(1,2)] unat_mul_half [OF lt(1,4)] unat_mul_half [OF lt(3,2)] unat_mul_half [OF lt(3,4)]
  have le: "unat (?al * ?bl) \<le> (2 ^ 32 - 1) * (2 ^ 32 - 1)" "unat (?al * ?bh) \<le> (2 ^ 32 - 1) * (2 ^ 32 - 1)"
    "unat (?ah * ?bl) \<le> (2 ^ 32 - 1) * (2 ^ 32 - 1)" "unat (?ah * ?bh) \<le> (2 ^ 32 - 1) * (2 ^ 32 - 1)"
    unfolding p(1,3,5,7) by (fact p(2,4,6,8))+
  have lou: "unat lo = unat (?al * ?bl) mod 2 ^ 32 + (unat ?mid mod 2 ^ 32) * 2 ^ 32"
    unfolding lo by (rule low_or_high)
  have "unat hi * 2 ^ 64 + unat lo =
      unat (?ah * ?bh) * 2 ^ 64 + (unat (?al * ?bh) + unat (?ah * ?bl)) * 2 ^ 32 + unat (?al * ?bl)"
    using wide_sum [OF le(1,2,3,4) refl refl] unfolding hi lou by linarith
  also have "\<dots> = (unat ?ah * 2 ^ 32 + unat ?al) * (unat ?bh * 2 ^ 32 + unat ?bl)"
    unfolding p by (simp add: algebra_simps)
  also have "\<dots> = unat a * unat b"
    using div_mult_mod_eq [of "unat a" "2 ^ 32"] div_mult_mod_eq [of "unat b" "2 ^ 32"]
    by (simp only: low_half high_half)
  finally show ?thesis .
qed

lemma multi3_product: "multi3 a b = a * b"
proof -
  obtain hi lo where w: "mul64_wide (s_lo a) (s_lo b) = (hi, lo)" by fastforce
  let ?al = "uint (s_lo a)" and ?ah = "uint (s_hi a)" and ?bl = "uint (s_lo b)" and ?bh = "uint (s_hi b)"
  have p: "uint hi * 2 ^ 64 + uint lo = ?al * ?bl"
    using arg_cong [OF mul64_wide_product [OF w], of int] by simp
  have "multi3 a b = all_of (of_int (uint hi + ?al * ?bh + ?ah * ?bl)) lo"
    by (simp add: multi3_def w)
  also have "\<dots> = of_int (?al * ?bl + (?al * ?bh + ?ah * ?bl) * 2 ^ 64)"
    unfolding all_of_of_int p [symmetric] by (simp add: algebra_simps)
  also have "\<dots> = of_int (?al * ?bl + (?al * ?bh + ?ah * ?bl) * 2 ^ 64 + ?ah * ?bh * (2 ^ 64 * 2 ^ 64))"
    using exp128 by (simp only: of_int_add of_int_mult of_int_power of_int_numeral mult_zero_right add_0_right)
  also have "\<dots> = of_int ((?ah * 2 ^ 64 + ?al) * (?bh * 2 ^ 64 + ?bl))"
    by (rule arg_cong [where f = of_int]) (simp add: algebra_simps)
  also have "\<dots> = a * b"
    using parts_value [of a] parts_value [of b] by (metis of_int_mult)
  finally show ?thesis .
qed

section \<open>Division\<close>

text \<open>One step of long division in base two.\<close>

lemma div_mod_step:
  fixes N d b :: nat
  assumes "0 < d" "b < 2"
  shows "(2 * N + b) div d = 2 * (N div d) + (if d \<le> 2 * (N mod d) + b then 1 else 0)"
    and "(2 * N + b) mod d = (2 * (N mod d) + b) - (if d \<le> 2 * (N mod d) + b then d else 0)"
proof -
  let ?r = "2 * (N mod d) + b"
  have N: "2 * N + b = 2 * (N div d) * d + ?r"
    using div_mult_mod_eq [of N d] by (metis add.assoc distrib_left mult.assoc)
  have r: "?r < 2 * d" using assms mod_less_divisor [OF assms(1), of N] by linarith
  have dv: "(2 * N + b) div d = 2 * (N div d) + ?r div d" unfolding N using assms by simp
  have md: "(2 * N + b) mod d = ?r mod d" unfolding N by simp
  show "(2 * N + b) div d = 2 * (N div d) + (if d \<le> ?r then 1 else 0)"
    using dv r assms by (auto simp: le_div_geq)
  show "(2 * N + b) mod d = ?r - (if d \<le> ?r then d else 0)"
    using md r assms by (auto simp: le_mod_geq)
qed

lemma shift_split: "(n :: nat) div 2 ^ i = 2 * (n div 2 ^ Suc i) + n div 2 ^ i mod 2"
  by (simp add: div_mult2_eq [symmetric] mult.commute) (metis div_mult2_eq div_mult_mod_eq mult.commute)

lemma unat_drop_bit: "unat (drop_bit i (n :: u128)) = unat n div 2 ^ i"
proof -
  have "unat (drop_bit i n) = drop_bit i (unat n)"
    by (rule bit_eqI) (auto simp: bit_unsigned_iff bit_drop_bit_eq dest: bit_u128_lt)
  then show ?thesis by (simp only: drop_bit_eq_div)
qed

lemma unat_shift_in:
  fixes r n :: u128
  assumes "unat r < 2 ^ 127"
  shows "unat (push_bit 1 r OR (drop_bit i n AND 1)) = 2 * unat r + unat n div 2 ^ i mod 2"
proof -
  have "push_bit 1 r OR (drop_bit i n AND 1) = push_bit 1 r + (drop_bit i n AND 1)"
  proof (rule disjunctive_add [symmetric])
    show "\<not> bit (push_bit 1 r) k \<or> \<not> bit (drop_bit i n AND 1) k" for k
      by (cases k) (simp_all add: bit_0 bit_and_iff bit_1_iff)
  qed
  moreover have one: "unat (drop_bit i n AND 1) = unat n div 2 ^ i mod 2"
    using unat_drop_bit [of i n] by (simp add: and_one_eq unat_mod)
  moreover have two: "unat (push_bit 1 r) = 2 * unat r"
    using assms by (simp add: push_bit_eq_mult unat_word_ariths)
  moreover have "2 * unat r + unat n div 2 ^ i mod 2 < 2 ^ 128" using assms by simp
  ultimately show ?thesis by (simp add: unat_add_small)
qed

lemma unat_bit_exp: "i < LENGTH('a) \<Longrightarrow> unat (push_bit i 1 :: 'a::len word) = 2 ^ i"
proof -
  assume "i < LENGTH('a)"
  then have "(2 :: nat) ^ i < 2 ^ LENGTH('a)" by (intro power_strict_increasing) auto
  moreover have "(push_bit i 1 :: 'a word) = of_nat (2 ^ i)" by (simp add: push_bit_eq_mult)
  ultimately show ?thesis by (simp only: unat_of_nat) simp
qed

lemma unat_or_bit:
  fixes q :: "'a::len word"
  assumes "unat q = c * 2 ^ Suc i" "i < LENGTH('a)"
  shows "unat (q OR push_bit i 1) = unat q + 2 ^ i"
proof -
  have "unat q div 2 ^ i = 2 * c" using assms(1) by simp
  then have "\<not> bit (unat q) i" by (simp add: bit_iff_odd)
  then have "\<not> bit q i" using assms(2) by (simp add: bit_unsigned_iff)
  then have "q OR push_bit i 1 = q + push_bit i 1"
    by (intro disjunctive_add [symmetric]) (auto simp: bit_simps)
  moreover have "unat q + 2 ^ i < 2 ^ LENGTH('a)"
  proof -
    have e: "2 ^ LENGTH('a) = 2 ^ (LENGTH('a) - Suc i) * (2 :: nat) ^ Suc i"
      using assms(2) by (simp del: power_Suc flip: power_add)
    have "unat q < 2 ^ LENGTH('a)" by (rule unat_lt)
    then have "c < 2 ^ (LENGTH('a) - Suc i)" unfolding assms(1) e by (metis mult_less_cancel2)
    then have "Suc c * 2 ^ Suc i \<le> 2 ^ LENGTH('a)" unfolding e by (intro mult_le_mono1) simp
    then have "c * 2 ^ Suc i + 2 ^ Suc i \<le> 2 ^ LENGTH('a)" by simp
    then show ?thesis unfolding assms(1) by (rule less_le_trans [rotated]) simp
  qed
  ultimately show ?thesis using unat_bit_exp [OF assms(2)] by (simp add: unat_add_small)
qed

lemma udivmod_loop_correct:
  assumes d: "0 < unat d" and "i \<le> 128"
    and "unat r = unat n div 2 ^ i mod unat d" "unat q = unat n div 2 ^ i div unat d * 2 ^ i"
  shows "udivmod_loop i n d q r = (n div d, n mod d)"
  using assms(2-)
proof (induction i arbitrary: q r)
  case 0
  then have "unat q = unat (n div d)" "unat r = unat (n mod d)" by (simp_all add: unat_div unat_mod)
  then show ?case by simp
next
  case (Suc i)
  let ?N = "unat n div 2 ^ Suc i" and ?b = "unat n div 2 ^ i mod 2"
  let ?r = "push_bit 1 r OR (drop_bit i n AND 1)"
  have N: "unat n div 2 ^ i = 2 * ?N + ?b" by (rule shift_split)
  have "?N \<le> unat n div 2" by (rule div_le_mono2) simp_all
  also have "\<dots> < 2 ^ 127" using unat_lt128 [of n] by simp
  finally have "unat r < 2 ^ 127" unfolding Suc.prems(2) by (rule le_less_trans [OF mod_less_eq_dividend])
  then have r: "unat ?r = 2 * (?N mod unat d) + ?b" unfolding Suc.prems(2) [symmetric] by (rule unat_shift_in)
  note step = div_mod_step [OF d, of ?b ?N, folded N]
  show ?case
  proof (cases "d \<le> ?r")
    case True
    then have le: "unat d \<le> 2 * (?N mod unat d) + ?b" unfolding word_le_nat_alt r .
    have "unat (q OR push_bit i 1) = unat n div 2 ^ i div unat d * 2 ^ i"
      using unat_or_bit [of q _ i, OF Suc.prems(3)] Suc.prems(1,3) le step(1) by simp
    moreover have "unat (?r - d) = unat n div 2 ^ i mod unat d"
      using True le step(2) r by (simp add: unat_sub_small)
    ultimately show ?thesis using True Suc.IH [of "?r - d" "q OR push_bit i 1"] Suc.prems(1) by (simp add: Let_def)
  next
    case False
    then have lt: "\<not> unat d \<le> 2 * (?N mod unat d) + ?b" unfolding word_le_nat_alt r .
    have "unat q = unat n div 2 ^ i div unat d * 2 ^ i"
      using Suc.prems(3) lt step(1) by simp
    moreover have "unat ?r = unat n div 2 ^ i mod unat d" using lt step(2) r by simp
    ultimately show ?thesis using False Suc.IH [of ?r q] Suc.prems(1) by (simp add: Let_def)
  qed
qed

lemma unat_bound_bits:
  fixes w :: u64
  assumes "\<And>j. m \<le> j \<Longrightarrow> \<not> bit w j"
  shows "unat w < 2 ^ m"
proof -
  have "take_bit m w = w"
  proof (rule bit_word_eqI)
    show "bit (take_bit m w) j \<longleftrightarrow> bit w j" for j using assms [of j] by (auto simp: bit_take_bit_iff not_le [symmetric])
  qed
  then have "unat w = take_bit m (unat w)" by (metis unsigned_take_bit_eq)
  then show ?thesis by (metis take_bit_nat_less_exp)
qed

lemma clz_bound:
  shows "unat w < 2 ^ (64 - ci_clzll w)" and "w \<noteq> 0 \<Longrightarrow> ci_clzll w < 64"
proof -
  let ?xs = "rev [0..<64 :: nat]" and ?t = "takeWhile (\<lambda>i. \<not> bit w i) (rev [0..<64 :: nat])"
  have len: "length ?t \<le> 64" using length_takeWhile_le [of _ ?xs] by simp
  have nth: "\<not> bit w (63 - k)" if "k < length ?t" for k
  proof -
    have "?t ! k = 63 - k" using that len by (simp add: takeWhile_nth rev_nth)
    then show ?thesis using that by (metis nth_mem set_takeWhileD)
  qed
  have "\<not> bit w j" if "64 - ci_clzll w \<le> j" for j
  proof (cases "j < 64")
    case True
    then have "63 - (63 - j) = j" "63 - j < length ?t" using that by (auto simp: ci_clzll_def)
    then show ?thesis using nth [of "63 - j"] by simp
  next
    case False
    then show ?thesis by (auto dest: bit_imp_le_length)
  qed
  then show "unat w < 2 ^ (64 - ci_clzll w)" by (rule unat_bound_bits)
  show "ci_clzll w < 64" if "w \<noteq> 0"
  proof (rule ccontr)
    assume "\<not> ci_clzll w < 64"
    then have "unat w < 2 ^ 0" using \<open>unat w < 2 ^ (64 - ci_clzll w)\<close> by simp
    then show False using that by (simp add: unat_eq_0)
  qed
qed

lemma unat_parts: "unat a = unat (s_hi a) * 2 ^ 64 + unat (s_lo a)"
  by (simp only: unat_s_hi unat_s_lo div_mult_mod_eq)

lemma msb_bound:
  assumes "n \<noteq> 0"
  shows "unat n < 2 ^ Suc (if s_hi n \<noteq> 0 then 127 - ci_clzll (s_hi n) else 63 - ci_clzll (s_lo n))"
proof (cases "s_hi n = 0")
  case True
  then have lo: "unat n = unat (s_lo n)" using unat_parts [of n] by simp
  then have "s_lo n \<noteq> 0" using assms by (auto simp: unat_eq_0)
  then have "Suc (63 - ci_clzll (s_lo n)) = 64 - ci_clzll (s_lo n)" using clz_bound(2) by fastforce
  then show ?thesis using clz_bound(1) [of "s_lo n"] lo True by simp
next
  case False
  let ?k = "64 - ci_clzll (s_hi n)"
  have k: "Suc (127 - ci_clzll (s_hi n)) = ?k + 64" using clz_bound(2) [OF False] by simp
  have "unat n < Suc (unat (s_hi n)) * 2 ^ 64" unfolding unat_parts [of n] using unat_lt64 [of "s_lo n"] by simp
  also have "\<dots> \<le> 2 ^ ?k * 2 ^ 64" using clz_bound(1) [of "s_hi n"] by (intro mult_le_mono1) simp
  also have "\<dots> = 2 ^ Suc (127 - ci_clzll (s_hi n))" unfolding k by (simp add: power_add)
  finally show ?thesis using False by simp
qed

lemma unat_ucast_wide: "unat (ucast (x :: u64) :: u128) = unat x"
proof -
  have "unat x < 2 ^ 128" using unat_lt64 [of x] by simp
  then show ?thesis by (simp add: unsigned_ucast_eq take_bit_eq_mod)
qed

lemma udivmodti4_correct:
  assumes "d \<noteq> 0"
  shows "udivmodti4 n d = Inr (n div d, n mod d)"
proof -
  have d: "0 < unat d" using assms by (simp add: unat_gt_0)
  show ?thesis
  proof (cases "s_hi n = 0 \<and> s_hi d = 0")
    case True
    then have u: "unat n = unat (s_lo n)" "unat d = unat (s_lo d)"
      using unat_parts [of n] unat_parts [of d] by simp_all
    have "unat (ucast (s_lo n div s_lo d) :: u128) = unat (n div d)"
      by (simp add: u unat_div unat_ucast_wide)
    moreover have "unat (ucast (s_lo n mod s_lo d) :: u128) = unat (n mod d)"
      by (simp add: u unat_mod unat_ucast_wide)
    ultimately show ?thesis using True assms by (simp add: udivmodti4_def)
  next
    case False
    show ?thesis
    proof (cases "n < d")
      case True
      then have "unat (n div d) = 0" "unat (n mod d) = unat n" by (simp_all add: unat_div unat_mod word_less_nat_alt)
      then show ?thesis using True False assms by (auto simp: udivmodti4_def unat_eq_0)
    next
      case ge: False
      then have "n \<noteq> 0" using d by (auto simp: word_less_nat_alt)
      let ?m = "if s_hi n \<noteq> 0 then 127 - ci_clzll (s_hi n) else 63 - ci_clzll (s_lo n)"
      have "unat n div 2 ^ Suc ?m = 0" using msb_bound [OF \<open>n \<noteq> 0\<close>] by (simp only: div_less)
      then have "udivmod_loop (Suc ?m) n d 0 0 = (n div d, n mod d)"
        using d by (intro udivmod_loop_correct) (simp_all only: unat_0 div_0 mod_0 mult_0 split: if_splits, simp_all)
      then show ?thesis using False ge assms by (simp only: udivmodti4_def Let_def if_False)
    qed
  qed
qed

section \<open>Signed values\<close>

lemma uint_lt128: "uint (x :: u128) < 2 ^ 128"
  using uint_bounded [of x] by simp

lemma sint_cases: "sint (v :: u128) = (if 2 ^ 127 \<le> uint v then uint v - 2 ^ 128 else uint v)"
proof -
  have "sint v = (uint v + 2 ^ 127) mod 2 ^ 128 - 2 ^ 127"
    by (simp add: sint_uint signed_take_bit_eq_take_bit_shift take_bit_eq_mod)
  moreover have "(uint v + 2 ^ 127) mod 2 ^ 128 = (if 2 ^ 127 \<le> uint v then uint v - 2 ^ 127 else uint v + 2 ^ 127)"
  proof (cases "2 ^ 127 \<le> uint v")
    case True
    have "(uint v + 2 ^ 127) mod 2 ^ 128 = (uint v - 2 ^ 127 + 2 ^ 128) mod 2 ^ 128" by (simp add: add.commute)
    also have "\<dots> = uint v - 2 ^ 127" using True uint_lt128 [of v] by (simp only: mod_add_self2) simp
    finally show ?thesis using True by simp
  next
    case False
    then show ?thesis using uint_ge_0 [of v] by simp
  qed
  ultimately show ?thesis by auto
qed

lemma sint_range: "- (2 ^ 127) \<le> sint (v :: u128)" "sint (v :: u128) < 2 ^ 127"
  using uint_lt128 [of v] by (auto simp: sint_cases intro: order_trans [of _ 0])

lemma sint_of_int: "- (2 ^ 127) \<le> i \<Longrightarrow> i < 2 ^ 127 \<Longrightarrow> sint (of_int i :: u128) = i"
  by (simp add: signed_of_int signed_take_bit_int_eq_self)

lemma word_of_sint: "of_int (sint v) = (v :: u128)"
  by simp

lemma uint_magnitude: "uint (if sint a < 0 then - a else a :: u128) = \<bar>sint a\<bar>"
proof (cases "sint a < 0")
  case True
  then have big: "2 ^ 127 \<le> uint a" using uint_ge_0 [of a] by (auto simp: sint_cases split: if_splits)
  then have "uint (- a) = 2 ^ 128 - uint a"
    using uint_lt128 [of a] by (simp add: uint_word_ariths zmod_zminus1_eq_if)
  then show ?thesis using True big by (simp add: sint_cases)
next
  case False
  then show ?thesis using uint_lt128 [of a] by (auto simp: sint_cases split: if_splits)
qed

text \<open>Division truncates towards zero; the remainder has the sign of the dividend.\<close>

definition tdiv :: "int \<Rightarrow> int \<Rightarrow> int" where
  "tdiv x y = (if (x < 0) \<noteq> (y < 0) then - (\<bar>x\<bar> div \<bar>y\<bar>) else \<bar>x\<bar> div \<bar>y\<bar>)"

definition tmod :: "int \<Rightarrow> int \<Rightarrow> int" where
  "tmod x y = (if x < 0 then - (\<bar>x\<bar> mod \<bar>y\<bar>) else \<bar>x\<bar> mod \<bar>y\<bar>)"

lemma tdiv_tmod: "tdiv x y * y + tmod x y = x"
proof -
  have e: "\<bar>x\<bar> div \<bar>y\<bar> * \<bar>y\<bar> + \<bar>x\<bar> mod \<bar>y\<bar> = \<bar>x\<bar>" by (rule div_mult_mod_eq)
  show ?thesis
  proof (cases "y < 0")
    case True
    then show ?thesis using e by (cases "x < 0") (auto simp: tdiv_def tmod_def)
  next
    case False
    show ?thesis
    proof (cases "x < 0")
      case True
      then have td: "tdiv x y = - (- x div y)" "tmod x y = - (- x mod y)" using False by (simp_all add: tdiv_def tmod_def)
      have "tdiv x y * y + tmod x y = - (- x div y * y + - x mod y)"
        unfolding td by (simp only: mult_minus_left minus_add_distrib)
      then show ?thesis by (simp only: div_mult_mod_eq minus_minus)
    qed (use False e in \<open>simp add: tdiv_def tmod_def\<close>)
  qed
qed

lemma tmod_lt: "y \<noteq> 0 \<Longrightarrow> \<bar>tmod x y\<bar> < \<bar>y\<bar>"
  by (auto simp: tmod_def abs_mod_less)

lemma divmodti4_tdiv:
  assumes "b \<noteq> 0"
  shows "divmodti4 a b = Inr (of_int (tdiv (sint a) (sint b)), of_int (tmod (sint a) (sint b)))"
proof -
  let ?ua = "if sint a < 0 then - a else a" and ?ub = "if sint b < 0 then - b else b"
  have "?ub \<noteq> 0" using assms by auto
  then have u: "udivmodti4 ?ua ?ub = Inr (?ua div ?ub, ?ua mod ?ub)" by (rule udivmodti4_correct)
  have "?ua div ?ub = of_int (\<bar>sint a\<bar> div \<bar>sint b\<bar>)" "?ua mod ?ub = of_int (\<bar>sint a\<bar> mod \<bar>sint b\<bar>)"
    by (metis uint_div uint_magnitude word_of_int_uint) (metis uint_mod uint_magnitude word_of_int_uint)
  then show ?thesis
    unfolding divmodti4_def Let_def u tdiv_def tmod_def
    by (simp only: map_sum.simps prod.case id_apply of_int_minus if_distrib [of of_int])
qed

section \<open>Checked arithmetic\<close>

lemma sint_neg_bit: "sint (x :: u128) < 0 \<longleftrightarrow> bit x 127"
proof -
  have "bit x 127 \<longleftrightarrow> bit (uint x) 127" by (simp add: bit_uint_iff)
  then have "bit x 127 \<longleftrightarrow> odd (uint x div 2 ^ 127)" by (simp only: bit_iff_odd)
  moreover have "uint x div 2 ^ 127 = (if 2 ^ 127 \<le> uint x then 1 else 0)"
    using uint_lt128 [of x] by (auto simp: div_pos_geq)
  ultimately show ?thesis using uint_lt128 [of x] by (auto simp: sint_cases)
qed

definition in_range :: "int \<Rightarrow> bool" where
  "in_range i \<longleftrightarrow> - (2 ^ 127) \<le> i \<and> i < 2 ^ 127"

lemma of_int_wrap: "(of_int (s + k * (2 ^ 64 * 2 ^ 64)) :: u128) = of_int s"
proof -
  have "(of_int (k * (2 ^ 64 * 2 ^ 64)) :: u128) = 0"
    using exp128 by (simp only: of_int_mult of_int_power of_int_numeral mult_zero_right)
  then show ?thesis by (simp only: of_int_add add_0_right)
qed

lemma exp128_numeral: "(340282366920938463463374607431768211456 :: u128) = 0"
  using exp128 by simp

lemma sint_wrap:
  assumes "- (2 ^ 128) \<le> s" "s < 2 ^ 128"
  shows "sint (of_int s :: u128) =
    (if s < - (2 ^ 127) then s + 2 ^ 128 else if 2 ^ 127 \<le> s then s - 2 ^ 128 else s)"
proof -
  have up: "sint (of_int s :: u128) = s + 2 ^ 128" if "s < - (2 ^ 127)"
    using that assms sint_of_int [of "s + 2 ^ 128"] of_int_wrap [of s 1] by (simp add: exp128_numeral)
  have down: "sint (of_int s :: u128) = s - 2 ^ 128" if "2 ^ 127 \<le> s"
    using that assms sint_of_int [of "s - 2 ^ 128"] of_int_wrap [of s "- 1"] by (simp add: exp128_numeral)
  have keep: "sint (of_int s :: u128) = s" if "- (2 ^ 127) \<le> s" "s < 2 ^ 127"
    using that by (rule sint_of_int)
  show ?thesis using up down keep by (simp add: not_less not_le)
qed

lemma sint_add_wrap:
  "sint (a + b :: u128) = (let s = sint a + sint b in
     if s < - (2 ^ 127) then s + 2 ^ 128 else if 2 ^ 127 \<le> s then s - 2 ^ 128 else s)"
  using sint_wrap [of "sint a + sint b"] sint_range [of a] sint_range [of b] by (simp add: Let_def)

lemma sint_sub_wrap:
  "sint (a - b :: u128) = (let s = sint a - sint b in
     if s < - (2 ^ 127) then s + 2 ^ 128 else if 2 ^ 127 \<le> s then s - 2 ^ 128 else s)"
  using sint_wrap [of "sint a - sint b"] sint_range [of a] sint_range [of b] by (simp add: Let_def)

lemma addvti3_cases:
  "addvti3 a b = (if in_range (sint a + sint b) then Inr (a + b) else Inl (Panic ''OVERFLOW''))"
proof -
  let ?r = "a + b"
  have "sint ((a XOR ?r) AND (b XOR ?r)) < 0 \<longleftrightarrow>
      (sint a < 0) \<noteq> (sint ?r < 0) \<and> (sint b < 0) \<noteq> (sint ?r < 0)"
    by (simp add: sint_neg_bit bit_and_iff bit_xor_iff)
  also have "\<dots> \<longleftrightarrow> \<not> in_range (sint a + sint b)"
    using sint_range [of a] sint_range [of b]
    by (auto simp: sint_add_wrap in_range_def Let_def)
  finally show ?thesis by (simp add: addvti3_def Let_def)
qed

lemma subvti3_cases:
  "subvti3 a b = (if in_range (sint a - sint b) then Inr (a - b) else Inl (Panic ''OVERFLOW''))"
proof -
  let ?r = "a - b"
  have "sint ((a XOR b) AND (a XOR ?r)) < 0 \<longleftrightarrow>
      (sint a < 0) \<noteq> (sint b < 0) \<and> (sint a < 0) \<noteq> (sint ?r < 0)"
    by (simp add: sint_neg_bit bit_and_iff bit_xor_iff)
  also have "\<dots> \<longleftrightarrow> \<not> in_range (sint a - sint b)"
    using sint_range [of a] sint_range [of b]
    by (auto simp: sint_sub_wrap in_range_def Let_def)
  finally show ?thesis by (simp add: subvti3_def Let_def)
qed

lemma sint_min: "sint INT128_MIN = - (2 ^ 127)"
  by (simp add: INT128_MIN_def sint_cases)

lemma sint_eq_iff: "sint (a :: u128) = sint b \<longleftrightarrow> a = b"
  by (metis word_of_sint)

lemma sint_cong_128:
  "\<exists>k. sint (of_int i :: u128) = i + k * 2 ^ 128"
proof -
  have "sint (of_int i :: u128) = (i + 2 ^ 127) mod 2 ^ 128 - 2 ^ 127"
    by (simp add: signed_of_int signed_take_bit_eq_take_bit_shift take_bit_eq_mod)
  also have "(i + 2 ^ 127) mod 2 ^ 128 = i + 2 ^ 127 - (i + 2 ^ 127) div 2 ^ 128 * 2 ^ 128"
    by (rule minus_div_mult_eq_mod [symmetric])
  finally have "sint (of_int i :: u128) = i + (- ((i + 2 ^ 127) div 2 ^ 128)) * 2 ^ 128" by simp
  then show ?thesis by blast
qed

lemma tdiv_exact: "A \<noteq> 0 \<Longrightarrow> tdiv (A * B) A = B"
proof -
  assume "A \<noteq> 0"
  moreover have "tmod (A * B) A = 0" by (simp add: tmod_def abs_mult)
  ultimately show ?thesis using tdiv_tmod [of "A * B" A] by simp
qed

lemma tdiv_abs: "\<bar>tdiv x y\<bar> \<le> \<bar>x\<bar>"
proof -
  have "0 \<le> \<bar>x\<bar> div \<bar>y\<bar>" by (cases "y = 0") (simp_all add: pos_imp_zdiv_nonneg_iff)
  then have "\<bar>tdiv x y\<bar> = \<bar>x\<bar> div \<bar>y\<bar>" by (simp add: tdiv_def)
  also have "\<dots> \<le> \<bar>x\<bar>" using zdiv_mono2 [of "\<bar>x\<bar>" 1 "\<bar>y\<bar>"] by (cases "y = 0") simp_all
  finally show ?thesis .
qed

lemma mulvti3_cases:
  "mulvti3 a b = (if in_range (sint a * sint b) then Inr (a * b) else Inl (Panic ''OVERFLOW''))"
proof (cases "a = 0")
  case True
  then show ?thesis by (simp add: mulvti3_def multi3_product in_range_def)
next
  case False
  let ?A = "sint a" and ?B = "sint b" and ?R = "sint (a * b)"
  have A: "?A \<noteq> 0" using False by (metis sint_0 sint_eq_iff)
  have ab: "a * b = of_int (?A * ?B)" by simp
  have dv: "divti3 (a * b) a = Inr (of_int (tdiv ?R ?A))"
    by (simp add: divti3_def divmodti4_tdiv [OF False])
  have "(of_int (tdiv ?R ?A) \<noteq> b \<or> a = - 1 \<and> b = INT128_MIN) \<longleftrightarrow> \<not> in_range (?A * ?B)"
  proof (cases "in_range (?A * ?B)")
    case True
    then have "?R = ?A * ?B" unfolding ab in_range_def by (intro sint_of_int) auto
    then have "of_int (tdiv ?R ?A) = b" using tdiv_exact [OF A] by simp
    moreover have "\<not> (a = - 1 \<and> b = INT128_MIN)"
      using True by (auto simp: in_range_def sint_min)
    ultimately show ?thesis using True by simp
  next
    case over: False
    have "a = - 1 \<and> b = INT128_MIN" if eq: "of_int (tdiv ?R ?A) = b"
    proof (rule ccontr)
      assume n: "\<not> (a = - 1 \<and> b = INT128_MIN)"
      let ?Q = "tdiv ?R ?A"
      have le: "\<bar>?Q\<bar> \<le> 2 ^ 127" using tdiv_abs [of ?R ?A] sint_range [of "a * b"] by linarith
      show False
      proof (cases "?Q = 2 ^ 127")
        case True
        then have "\<bar>?R\<bar> = 2 ^ 127" using tdiv_abs [of ?R ?A] sint_range [of "a * b"] by linarith
        then have R: "?R = - (2 ^ 127)" using sint_range [of "a * b"] by linarith
        have Q: "tdiv (- (2 ^ 127)) ?A = 2 ^ 127" using True R by (simp only:)
        have neg: "?A < 0"
        proof (rule ccontr)
          assume "\<not> ?A < 0"
          then have "tdiv (- (2 ^ 127)) ?A = - ((2 ^ 127) div \<bar>?A\<bar>)" by (simp add: tdiv_def)
          moreover have "0 \<le> (2 ^ 127) div \<bar>?A\<bar>" using A by (simp add: pos_imp_zdiv_nonneg_iff)
          moreover have "(0 :: int) < 2 ^ 127" by simp
          ultimately show False using Q by linarith
        qed
        then have q: "(2 ^ 127) div \<bar>?A\<bar> = 2 ^ 127" using Q by (simp add: tdiv_def)
        have "\<bar>?A\<bar> = 1"
        proof (rule ccontr)
          assume "\<bar>?A\<bar> \<noteq> 1"
          then have "2 \<le> \<bar>?A\<bar>" using A by linarith
          then have "(2 ^ 127) div \<bar>?A\<bar> \<le> (2 ^ 127) div 2" by (intro zdiv_mono2) auto
          then show False using q by simp
        qed
        then have "a = - 1" using neg sint_eq_iff [of a "- 1"] by simp
        moreover have "b = INT128_MIN" using eq True by (simp add: INT128_MIN_def)
        ultimately show ?thesis using n by simp
      next
        case False
        then have "?Q = ?B" using eq le sint_of_int [of ?Q] by auto
        then have "?R - ?A * ?B = tmod ?R ?A" using tdiv_tmod [of ?R ?A] by (simp add: mult.commute)
        moreover obtain k where "?R = ?A * ?B + k * 2 ^ 128" using sint_cong_128 [of "?A * ?B"] unfolding ab [symmetric] by blast
        ultimately have "\<bar>k * 2 ^ 128\<bar> < \<bar>?A\<bar>" using tmod_lt [OF A, of ?R] by simp
        moreover have "\<bar>?A\<bar> \<le> 2 ^ 127" using sint_range [of a] by linarith
        ultimately have "k = 0" by (simp add: abs_mult)
        then have "?R = ?A * ?B" using \<open>?R = ?A * ?B + k * 2 ^ 128\<close> by simp
        then show False using over sint_range [of "a * b"] by (simp add: in_range_def)
      qed
    qed
    then show ?thesis using over by auto
  qed
  then show ?thesis using False by (simp add: mulvti3_def dv Let_def multi3_product)
qed

section \<open>Properties\<close>

text \<open>
  C14. The product and the unsigned quotient and remainder of 128-bit numbers are those of
  machine arithmetic; division by zero panics. The division, a shift-subtract loop over
  the bits of the dividend, always returns.
\<close>

theorem u128_mul_divmod:
  "multi3 n d = n * d \<and>
   udivmodti4 n d = (if d = 0 then Inl (Panic ''__udivmodti4: 128-bit divide by zero'')
                     else Inr (n div d, n mod d))"
  using udivmodti4_correct [of d n] by (simp add: multi3_product udivmodti4_def)

text \<open>
  C15. Signed division truncates towards zero: quotient and remainder satisfy the division
  identity, the remainder is smaller than the divisor and has the sign of the dividend,
  and the quotient is exact unless it is \<open>2^127\<close> (the least number divided by -1).
\<close>

theorem s128_divmod:
  assumes "b \<noteq> 0"
  shows "\<exists>q r. divmodti4 a b = Inr (of_int q, of_int r) \<and> q * sint b + r = sint a \<and>
           \<bar>r\<bar> < \<bar>sint b\<bar> \<and> (r = 0 \<or> (r < 0 \<longleftrightarrow> sint a < 0)) \<and> sint (of_int r :: u128) = r \<and>
           (sint (of_int q :: u128) = q \<or> q = 2 ^ 127)"
proof -
  let ?q = "tdiv (sint a) (sint b)" and ?r = "tmod (sint a) (sint b)"
  have b: "sint b \<noteq> 0" using assms by (metis sint_0 sint_eq_iff)
  have lt: "\<bar>?r\<bar> < \<bar>sint b\<bar>" using tmod_lt [OF b] .
  then have r: "sint (of_int ?r :: u128) = ?r" using sint_range [of b] by (intro sint_of_int) linarith+
  have "?r = 0 \<or> (?r < 0 \<longleftrightarrow> sint a < 0)"
  proof -
    have "0 \<le> \<bar>sint a\<bar> mod \<bar>sint b\<bar>" using b by simp
    moreover have "(if x < 0 then - m else m) = 0 \<or> ((if x < 0 then - m else m) < 0 \<longleftrightarrow> x < 0)"
      if "0 \<le> m" for x m :: int using that by auto
    ultimately show ?thesis unfolding tmod_def by blast
  qed
  moreover have "\<bar>?q\<bar> \<le> 2 ^ 127" using tdiv_abs [of "sint a" "sint b"] sint_range [of a] by linarith
  then have "sint (of_int ?q :: u128) = ?q \<or> ?q = 2 ^ 127" using sint_of_int [of ?q] by auto
  ultimately show ?thesis using divmodti4_tdiv [OF assms] tdiv_tmod lt r by blast
qed

theorem s128_divmod_witness:
  "divmodti4 (- 7) 2 = Inr (- 3, - 1)"
proof -
  obtain q r where qr: "divmodti4 (- 7) 2 = Inr (of_int q, of_int r)" "q * sint (2 :: u128) + r = sint (- 7 :: u128)"
      "\<bar>r\<bar> < \<bar>sint (2 :: u128)\<bar>" "r = 0 \<or> (r < 0 \<longleftrightarrow> sint (- 7 :: u128) < 0)"
    using s128_divmod [of 2 "- 7"] by auto
  have "q * 2 + r = - 7" "\<bar>r\<bar> < 2" "r = 0 \<or> r < 0" using qr by simp_all
  then have "q = - 3" "r = - 1" by presburger+
  then show ?thesis using qr(1) by simp
qed

text \<open>
  C38. The checked helpers return the exact signed result when it is representable in 128
  bits and panic otherwise, for sum, difference, product, negation and absolute value.
\<close>

theorem s128_checked:
  "addvti3 a b = (if in_range (sint a + sint b) then Inr (of_int (sint a + sint b)) else Inl (Panic ''OVERFLOW'')) \<and>
   subvti3 a b = (if in_range (sint a - sint b) then Inr (of_int (sint a - sint b)) else Inl (Panic ''OVERFLOW'')) \<and>
   mulvti3 a b = (if in_range (sint a * sint b) then Inr (of_int (sint a * sint b)) else Inl (Panic ''OVERFLOW'')) \<and>
   negvti2 a = (if in_range (- sint a) then Inr (of_int (- sint a)) else Inl (Panic ''OVERFLOW'')) \<and>
   absvti2 a = (if in_range \<bar>sint a\<bar> then Inr (of_int \<bar>sint a\<bar>) else Inl (Panic ''OVERFLOW''))"
proof -
  have "a = INT128_MIN \<longleftrightarrow> sint a = - (2 ^ 127)" using sint_eq_iff [of a INT128_MIN] sint_min by simp
  then have "in_range (- sint a) \<longleftrightarrow> a \<noteq> INT128_MIN" "in_range \<bar>sint a\<bar> \<longleftrightarrow> a \<noteq> INT128_MIN"
    using sint_range [of a] by (auto simp: in_range_def)
  then show ?thesis
    by (simp add: addvti3_cases subvti3_cases mulvti3_cases negvti2_def absvti2_def negti2_minus abs_if)
qed

text \<open>
  C39. The 128-bit shifts composed of 64-bit ones are the shifts of the whole word, for
  every shift count below 128, the arithmetic right shift included.
\<close>

theorem u128_shifts:
  assumes "b < 128"
  shows "ashlti3 a b = push_bit b a \<and> lshrti3 a b = drop_bit b a \<and> ashrti3 a b = signed_drop_bit b a"
  using ashlti3_shift lshrti3_shift ashrti3_shift assms by blast

theorem u128_shifts_witness: "ashlti3 5 70 = push_bit 70 5 \<and> (70 :: nat) < 128"
  using u128_shifts [of 70 5] by simp

end
