(* ===== verification/Fixed.thy ===== *)
theory Fixed
  imports U128 CNum
begin

text \<open>
  The fixed-point numbers of \<^verbatim>\<open>include/math/fixed.h\<close> and the parser \<open>fx_parse\<close> of
  \<^verbatim>\<open>kernel/math/fixed.c\<close>: 64-bit signed numbers with 32 fraction bits, kept as words and
  read with \<open>sint\<close>. The lemmas show that \<open>fx_mul\<close> and \<open>fx_div\<close>, which work on 64-bit halves
  and with a shift-subtract loop, round the exact product and quotient towards zero, that
  \<open>fx_floor\<close> and \<open>fx_ceil\<close> round to whole numbers, and what \<open>fx_parse\<close> reads.
\<close>

type_synonym fx = u64

definition FX_ZERO :: fx where "FX_ZERO = 0"
definition FX_ONE :: fx where "FX_ONE = push_bit 32 1"
definition FX_HALF :: fx where "FX_HALF = push_bit 31 1"

section \<open>Arithmetic\<close>

definition fx_add :: "fx \<Rightarrow> fx \<Rightarrow> fx" where "fx_add a b = a + b"
definition fx_sub :: "fx \<Rightarrow> fx \<Rightarrow> fx" where "fx_sub a b = a - b"
definition fx_neg :: "fx \<Rightarrow> fx" where "fx_neg a = - a"

definition magnitude :: "fx \<Rightarrow> u64" where
  "magnitude a = (if sint a < 0 then - a else a)"

definition fx_mul :: "fx \<Rightarrow> fx \<Rightarrow> fx" where
  "fx_mul a b =
     (let neg = (sint (a XOR b) < 0);
          ua = magnitude a; ub = magnitude b;
          a_hi = drop_bit 32 ua; a_lo = ua AND 0xFFFFFFFF;
          b_hi = drop_bit 32 ub; b_lo = ub AND 0xFFFFFFFF;
          p0 = a_lo * b_lo; p1 = a_lo * b_hi; p2 = a_hi * b_lo; p3 = a_hi * b_hi;
          mid = drop_bit 32 p0 + (p1 AND 0xFFFFFFFF) + (p2 AND 0xFFFFFFFF);
          high = p3 + drop_bit 32 p1 + drop_bit 32 p2 + drop_bit 32 mid;
          q = push_bit 32 high OR (mid AND 0xFFFFFFFF)
      in if neg then - q else q)"

text \<open>The division loop over the bits \<open>i - 1, ..., 0\<close> of the quotient.\<close>

fun fx_div_loop :: "nat \<Rightarrow> u64 \<Rightarrow> u64 \<Rightarrow> u64 \<Rightarrow> u64 \<Rightarrow> u64" where
  "fx_div_loop 0 ub num_hi num_lo q = q"
| "fx_div_loop (Suc i) ub num_hi num_lo q =
     (let b = drop_bit 63 num_hi;
          num_hi = push_bit 1 num_hi OR drop_bit 63 num_lo;
          num_lo = push_bit 1 num_lo
      in if b \<noteq> 0 \<or> ub \<le> num_hi then fx_div_loop i ub (num_hi - ub) num_lo (q OR push_bit i 1)
         else fx_div_loop i ub num_hi num_lo q)"

definition fx_div :: "fx \<Rightarrow> fx \<Rightarrow> fx res" where
  "fx_div a b =
     (if b = 0 then Inl (Enforce ''b'')
      else let neg = (sint (a XOR b) < 0);
               ua = magnitude a; ub = magnitude b;
               q = fx_div_loop 64 ub (drop_bit 32 ua) (push_bit 32 ua) 0
           in Inr (if neg then - q else q))"

definition fx_from_int :: "u64 \<Rightarrow> fx" where "fx_from_int x = push_bit 32 x"
definition fx_to_int :: "fx \<Rightarrow> u64" where "fx_to_int x = signed_drop_bit 32 x"

definition fx_min :: "fx \<Rightarrow> fx \<Rightarrow> fx" where "fx_min a b = (if sint a < sint b then a else b)"
definition fx_max :: "fx \<Rightarrow> fx \<Rightarrow> fx" where "fx_max a b = (if sint b < sint a then a else b)"

definition fx_clamp :: "fx \<Rightarrow> fx \<Rightarrow> fx \<Rightarrow> fx" where
  "fx_clamp x lo hi = fx_max lo (fx_min x hi)"

fun fx_pow_loop :: "nat \<Rightarrow> fx \<Rightarrow> fx \<Rightarrow> fx" where
  "fx_pow_loop e base result =
     (if e = 0 then result
      else fx_pow_loop (e div 2) (fx_mul base base) (if odd e then fx_mul result base else result))"

declare fx_pow_loop.simps [simp del]

definition fx_pow_i32 :: "fx \<Rightarrow> int \<Rightarrow> fx res" where
  "fx_pow_i32 base e =
     (if e < 0 then map_sum id (\<lambda>base. fx_pow_loop (nat (- e)) base FX_ONE) (fx_div FX_ONE base)
      else Inr (fx_pow_loop (nat e) base FX_ONE))"

fun fx_sqrt_loop :: "nat \<Rightarrow> fx \<Rightarrow> fx \<Rightarrow> fx res" where
  "fx_sqrt_loop 0 x r = Inr r"
| "fx_sqrt_loop (Suc n) x r =
     (case fx_div x r of Inl e \<Rightarrow> Inl e | Inr d \<Rightarrow> fx_sqrt_loop n x (signed_drop_bit 1 (r + d)))"

definition fx_sqrt :: "fx \<Rightarrow> fx res" where
  "fx_sqrt x = (if sint x \<le> 0 then Inr FX_ZERO else fx_sqrt_loop 8 x x)"

text \<open>\<open>ALIGN_UP\<close> and \<open>ALIGN_DOWN\<close> on a signed argument, with \<open>FX_ONE\<close> a power of two.\<close>

definition fx_ceil :: "fx \<Rightarrow> fx res" where
  "fx_ceil x =
     (let msk = FX_ONE - 1; sum = sint x + sint msk
      in if \<not> (- (2 ^ 63) \<le> sum \<and> sum < 2 ^ 63) then Inl (Enforce ''!__aln_overflow'')
         else Inr (of_int sum AND NOT msk))"

definition fx_floor :: "fx \<Rightarrow> fx" where
  "fx_floor x = x AND NOT (FX_ONE - 1)"


definition fx_lerp :: "fx \<Rightarrow> fx \<Rightarrow> fx \<Rightarrow> fx" where
  "fx_lerp a b t = fx_add a (fx_mul t (fx_sub b a))"

definition fx_round_up :: "fx \<Rightarrow> fx \<Rightarrow> fx res" where
  "fx_round_up x multiple =
     map_sum id (\<lambda>q. fx_mul q multiple) (fx_div (fx_sub (fx_add x multiple) FX_ONE) multiple)"


section \<open>Parsing\<close>

definition is_digit :: "char \<Rightarrow> bool" where
  "is_digit c \<longleftrightarrow> 48 \<le> schar c \<and> schar c \<le> 57"

definition is_blank :: "char \<Rightarrow> bool" where
  "is_blank c \<longleftrightarrow> c = CHR '' '' \<or> c = CHR 0x09"

fun fx_ipart :: "u64 \<Rightarrow> string \<Rightarrow> u64 \<times> string" where
  "fx_ipart ipart [] = (ipart, [])"
| "fx_ipart ipart (c # s) =
     (if is_digit c then fx_ipart (ipart * 10 + of_int (schar c - 48)) s else (ipart, c # s))"

fun fx_fpart :: "u64 \<Rightarrow> u64 \<Rightarrow> nat \<Rightarrow> string \<Rightarrow> u64 \<times> u64 \<times> string" where
  "fx_fpart frac_num frac_den frac_digits [] = (frac_num, frac_den, [])"
| "fx_fpart frac_num frac_den frac_digits (c # s) =
     (if is_digit c then
        (if frac_digits < 18
         then fx_fpart (frac_num * 10 + of_int (schar c - 48)) (frac_den * 10) (Suc frac_digits) s
         else fx_fpart frac_num frac_den frac_digits s)
      else (frac_num, frac_den, c # s))"

text \<open>The value and the rest of the text the end pointer refers to.\<close>

definition fx_parse :: "string \<Rightarrow> fx \<times> string" where
  "fx_parse str =
     (let s = dropWhile is_blank str;
          neg = (peek s = CHR ''-'');
          s = (if peek s = CHR ''+'' \<or> peek s = CHR ''-'' then tl s else s);
          (ipart, s1) = fx_ipart 0 s;
          (frac_num, frac_den, s2) = (if peek s1 = CHR ''.'' then fx_fpart 0 1 0 (tl s1) else (0, 1, s1));
          any_digit = (s1 \<noteq> s \<or> (peek s1 = CHR ''.'' \<and> s2 \<noteq> tl s1))
      in if \<not> any_digit then (FX_ZERO, str)
         else let result = push_bit 32 ipart;
                  result = (if 1 < frac_den
                            then result + ucast (push_bit 32 (ucast frac_num :: u128) div ucast frac_den)
                            else result)
              in (if neg then fx_neg result else result, s2))"

section \<open>Signed 64-bit values\<close>

lemma sint64_cases: "sint (v :: u64) = (if 2 ^ 63 \<le> uint v then uint v - 2 ^ 64 else uint v)"
proof -
  have "sint v = (uint v + 2 ^ 63) mod 2 ^ 64 - 2 ^ 63"
    by (simp add: sint_uint signed_take_bit_eq_take_bit_shift take_bit_eq_mod)
  moreover have "(uint v + 2 ^ 63) mod 2 ^ 64 = (if 2 ^ 63 \<le> uint v then uint v - 2 ^ 63 else uint v + 2 ^ 63)"
  proof (cases "2 ^ 63 \<le> uint v")
    case True
    have "(uint v + 2 ^ 63) mod 2 ^ 64 = (uint v - 2 ^ 63 + 2 ^ 64) mod 2 ^ 64" by (simp add: add.commute)
    also have "\<dots> = uint v - 2 ^ 63" using True uint_lt [of v] by (simp only: mod_add_self2) simp
    finally show ?thesis using True by simp
  next
    case False
    then show ?thesis using uint_ge_0 [of v] by simp
  qed
  ultimately show ?thesis by auto
qed

lemma sint64_range: "- (2 ^ 63) \<le> sint (v :: u64)" "sint (v :: u64) < 2 ^ 63"
  using uint_lt [of v] by (auto simp: sint64_cases intro: order_trans [of _ 0])

lemma sint64_of_int: "- (2 ^ 63) \<le> i \<Longrightarrow> i < 2 ^ 63 \<Longrightarrow> sint (of_int i :: u64) = i"
  by (simp add: signed_of_int signed_take_bit_int_eq_self)

lemma uint_magnitude64: "uint (magnitude a) = \<bar>sint a\<bar>"
proof (cases "sint a < 0")
  case True
  then have big: "2 ^ 63 \<le> uint a" by (simp add: sint_neg_iff)
  then have "uint (- a) = 2 ^ 64 - uint a"
    using uint_lt [of a] by (simp add: uint_word_ariths zmod_zminus1_eq_if)
  then show ?thesis using True big by (simp add: magnitude_def sint64_cases)
next
  case False
  then show ?thesis using uint_lt [of a] by (auto simp: magnitude_def sint64_cases split: if_splits)
qed

lemma unat_magnitude: "int (unat (magnitude a)) = \<bar>sint a\<bar>"
  using uint_magnitude64 [of a] by simp

lemma sint64_neg_bit: "sint (x :: u64) < 0 \<longleftrightarrow> bit x 63"
proof -
  have "bit x 63 \<longleftrightarrow> bit (uint x) 63" by (simp add: bit_uint_iff)
  then have "bit x 63 \<longleftrightarrow> odd (uint x div 2 ^ 63)" by (simp only: bit_iff_odd)
  moreover have "uint x div 2 ^ 63 = (if 2 ^ 63 \<le> uint x then 1 else 0)"
    using uint_lt [of x] by (auto simp: div_pos_geq)
  ultimately show ?thesis by (simp add: sint_neg_iff)
qed

lemma sign_differs: "sint (a XOR b :: u64) < 0 \<longleftrightarrow> (sint a < 0) \<noteq> (sint b < 0)"
  by (simp add: sint64_neg_bit bit_xor_iff)

lemma signed_quotient:
  assumes "uint (q :: u64) = m" "m < 2 ^ 63"
  shows "sint (if neg then - q else q) = (if neg then - m else m)"
proof -
  have "q = of_int m" using assms(1) by (metis word_of_int_uint)
  moreover have "0 \<le> m" using assms(1) by (metis uint_ge_0)
  ultimately show ?thesis using assms(2) sint64_of_int [of m] sint64_of_int [of "- m"] by auto
qed

section \<open>Multiplication\<close>

lemma high_or_low:
  fixes h m :: u64
  shows "unat (push_bit 32 h OR (m AND 0xFFFFFFFF)) = (unat h mod 2 ^ 32) * 2 ^ 32 + unat m mod 2 ^ 32"
  using low_or_high [of m h] by (simp add: or.commute)

lemma fx_mul_magnitude:
  obtains q where "fx_mul a b = (if (sint a < 0) \<noteq> (sint b < 0) then - q else q)"
    "unat q = unat (magnitude a) * unat (magnitude b) div 2 ^ 32 mod 2 ^ 64"
proof
  let ?ua = "magnitude a" and ?ub = "magnitude b"
  let ?al = "?ua AND 0xFFFFFFFF" and ?ah = "drop_bit 32 ?ua" and ?bl = "?ub AND 0xFFFFFFFF" and ?bh = "drop_bit 32 ?ub"
  let ?mid = "drop_bit 32 (?al * ?bl) + (?al * ?bh AND 0xFFFFFFFF) + (?ah * ?bl AND 0xFFFFFFFF)"
  let ?high = "?ah * ?bh + drop_bit 32 (?al * ?bh) + drop_bit 32 (?ah * ?bl) + drop_bit 32 ?mid"
  let ?q = "push_bit 32 ?high OR (?mid AND 0xFFFFFFFF)"
  show "fx_mul a b = (if (sint a < 0) \<noteq> (sint b < 0) then - ?q else ?q)"
    unfolding fx_mul_def Let_def sign_differs ..
  let ?lo = "(?al * ?bl AND 0xFFFFFFFF) OR push_bit 32 ?mid"
  have "mul64_wide ?ua ?ub = (?high, ?lo)" by (simp add: mul64_wide_def Let_def)
  from mul64_wide_product [OF this]
  have p: "unat ?ua * unat ?ub = unat ?high * 2 ^ 64 + (unat (?al * ?bl) mod 2 ^ 32 + (unat ?mid mod 2 ^ 32) * 2 ^ 32)"
    by (simp only: low_or_high)
  have "(h * 2 ^ 64 + (l mod 2 ^ 32 + m * 2 ^ 32)) div 2 ^ 32 = h * 2 ^ 32 + m" for h l m :: nat
  proof -
    have "h * 2 ^ 64 + (l mod 2 ^ 32 + m * 2 ^ 32) = l mod 2 ^ 32 + (h * 2 ^ 32 + m) * 2 ^ 32" by simp
    then show ?thesis by (simp only: div_mult_self1) simp
  qed
  then have d: "unat ?ua * unat ?ub div 2 ^ 32 = unat ?high * 2 ^ 32 + unat ?mid mod 2 ^ 32" unfolding p .
  have "(h * 2 ^ 32 + m mod 2 ^ 32) mod 2 ^ 64 = (h mod 2 ^ 32) * 2 ^ 32 + m mod 2 ^ 32" for h m :: nat
  proof -
    have "h * 2 ^ 32 + m mod 2 ^ 32 = (h mod 2 ^ 32) * 2 ^ 32 + m mod 2 ^ 32 + h div 2 ^ 32 * 2 ^ 64"
    proof -
      have "h * B = (h mod B) * B + h div B * (B * B)" for B
        by (metis add.commute distrib_right div_mult_mod_eq mult.assoc)
      from this [of "2 ^ 32"] show ?thesis by simp
    qed
    moreover have "(x * 2 ^ 32 + y) mod 2 ^ 64 = x * 2 ^ 32 + y" if "x < 2 ^ 32" "y < 2 ^ 32" for x y :: nat
      using that by simp
    ultimately show ?thesis by (simp only: mod_mult_self1) simp
  qed
  then show "unat ?q = unat ?ua * unat ?ub div 2 ^ 32 mod 2 ^ 64" unfolding d high_or_low by simp
qed

section \<open>Division\<close>

lemma drop_63: "drop_bit 63 (x :: u64) = (if bit x 63 then 1 else 0)"
proof (rule bit_word_eqI)
  show "bit (drop_bit 63 x) n \<longleftrightarrow> bit (if bit x 63 then 1 else 0 :: u64) n" for n
    by (cases "n = 0") (auto simp: bit_drop_bit_eq bit_1_iff dest: bit_imp_le_length)
qed

lemma unat_shift_in64:
  fixes h l :: u64
  shows "unat (push_bit 1 h OR drop_bit 63 l) = (2 * unat h + (if bit l 63 then 1 else 0)) mod 2 ^ 64"
proof -
  have "push_bit 1 h OR drop_bit 63 l = push_bit 1 h + drop_bit 63 l"
  proof (rule disjunctive_add [symmetric])
    show "\<not> bit (push_bit 1 h) k \<or> \<not> bit (drop_bit 63 l) k" for k
      by (cases k) (auto simp: drop_63 bit_0 bit_1_iff)
  qed
  also have "unat \<dots> = (2 * unat h + (if bit l 63 then 1 else 0)) mod 2 ^ 64"
    by (auto simp: drop_63 push_bit_eq_mult unat_word_ariths mult.commute mod_add_left_eq mod_Suc_eq)
  finally show ?thesis .
qed

text \<open>
  One step on the dividend: the remainder \<open>h\<close> is below the divisor \<open>u\<close>, so doubling it
  loses at most its top bit, which the code keeps in \<open>bit\<close>.
\<close>

lemma fx_div_step:
  fixes h l u :: u64
  assumes "h < u"
  defines "T \<equiv> 2 * unat h + (if bit l 63 then 1 else 0)"
  shows "(drop_bit 63 h \<noteq> 0 \<or> u \<le> push_bit 1 h OR drop_bit 63 l) \<longleftrightarrow> unat u \<le> T"
    and "unat u \<le> T \<Longrightarrow> unat ((push_bit 1 h OR drop_bit 63 l) - u) = T - unat u"
    and "\<not> unat u \<le> T \<Longrightarrow> unat (push_bit 1 h OR drop_bit 63 l) = T"
proof -
  have hu: "unat h < unat u" using assms(1) by (simp add: word_less_nat_alt)
  have T: "T < 2 * unat u" using hu by (simp add: T_def)
  have u: "unat u < 2 ^ 64" by (rule unat_lt64)
  note sh = unat_shift_in64 [of h l, folded T_def]
  have top: "drop_bit 63 h \<noteq> 0 \<longleftrightarrow> 2 ^ 64 \<le> 2 * unat h"
  proof -
    have "bit h 63 \<longleftrightarrow> 2 ^ 63 \<le> uint h" using sint64_neg_bit [of h] by (simp add: sint_neg_iff)
    also have "\<dots> \<longleftrightarrow> int (2 ^ 63) \<le> int (unat h)" by simp
    also have "\<dots> \<longleftrightarrow> 2 ^ 63 \<le> unat h" by (simp only: of_nat_le_iff)
    finally show ?thesis by (simp add: drop_63)
  qed
  let ?x = "push_bit 1 h OR drop_bit 63 l"
  show "(drop_bit 63 h \<noteq> 0 \<or> u \<le> ?x) \<longleftrightarrow> unat u \<le> T"
  proof (cases "2 ^ 64 \<le> 2 * unat h")
    case True
    then have "2 ^ 64 \<le> T" by (simp add: T_def)
    then show ?thesis using True top u by linarith
  next
    case False
    then have "T < 2 ^ 64" unfolding T_def by (auto simp: not_le)
    then show ?thesis using False top sh by (simp add: word_le_nat_alt)
  qed
  show "unat (?x - u) = T - unat u" if "unat u \<le> T"
  proof -
    have "unat ?x = unat (of_nat T :: u64)" using sh by (simp only: unat_of_nat) simp
    then have "?x = of_nat T" by (simp only: unat_inject)
    then have "?x - u = of_nat (T - unat u)" using that by (simp only: of_nat_diff of_nat_unat ucast_id)
    moreover have "T - unat u < 2 ^ 64" using T u by simp
    ultimately show ?thesis by (simp only: unat_of_nat) simp
  qed
  show "\<not> unat u \<le> T \<Longrightarrow> unat (push_bit 1 h OR drop_bit 63 l) = T"
    using sh u by simp
qed

lemma fx_div_loop_correct:
  assumes u: "0 < unat u" and "k \<le> 64" and lo: "N mod 2 ^ 64 = unat lo"
    and "unat h = N div 2 ^ k mod unat u" "unat q = N div 2 ^ k div unat u * 2 ^ k" "l = push_bit (64 - k) lo"
  shows "unat (fx_div_loop k u h l q) = N div unat u"
  using assms(2) assms(4-)
proof (induction k arbitrary: h q l)
  case 0
  then show ?case by simp
next
  case (Suc i)
  let ?N = "N div 2 ^ Suc i" and ?b = "N div 2 ^ i mod 2"
  have hu: "h < u" using Suc.prems(2) u by (simp add: word_less_nat_alt)
  have "bit l 63 \<longleftrightarrow> bit lo i" using Suc.prems(1,4) by (auto simp: bit_push_bit_iff)
  also have "\<dots> \<longleftrightarrow> bit (unat lo) i" using Suc.prems(1) by (simp add: bit_unsigned_iff)
  also have "\<dots> \<longleftrightarrow> bit (take_bit 64 N) i" by (simp only: lo [symmetric] take_bit_eq_mod)
  also have "\<dots> \<longleftrightarrow> bit N i" using Suc.prems(1) by (simp add: bit_take_bit_iff)
  also have "\<dots> \<longleftrightarrow> odd (N div 2 ^ i)" by (rule bit_iff_odd)
  finally have b: "(if bit l 63 then 1 else 0) = ?b" by (simp add: mod_2_eq_odd)
  note st = fx_div_step [OF hu, of l, unfolded b Suc.prems(2)]
  note step = div_mod_step [OF u, of ?b ?N, folded shift_split]
  have "1 + (64 - Suc i) = 64 - i" using Suc.prems(1) by simp
  then have l': "push_bit 1 l = push_bit (64 - i) lo" unfolding Suc.prems(4) push_bit_push_bit by (simp only:)
  show ?case
  proof (cases "unat u \<le> 2 * (?N mod unat u) + ?b")
    case True
    have "unat (q OR push_bit i 1) = N div 2 ^ i div unat u * 2 ^ i"
      using unat_or_bit [of q _ i, OF Suc.prems(3)] Suc.prems(1,3) True step(1) by simp
    then show ?thesis
      using Suc.IH [of "(push_bit 1 h OR drop_bit 63 l) - u" "q OR push_bit i 1" "push_bit 1 l"]
        st(1,2) True step(2) l' Suc.prems(1) by (simp only: fx_div_loop.simps Let_def) simp
  next
    case False
    have "unat q = N div 2 ^ i div unat u * 2 ^ i" using Suc.prems(3) False step(1) by simp
    then show ?thesis
      using Suc.IH [of "push_bit 1 h OR drop_bit 63 l" q "push_bit 1 l"]
        st(1,3) False step(2) l' Suc.prems(1) by (simp only: fx_div_loop.simps Let_def) simp
  qed
qed

section \<open>Rounding to whole numbers\<close>

lemma int_and_not_mask: "(x :: int) AND NOT (mask n) = x div 2 ^ n * 2 ^ n"
proof -
  have "x AND NOT (mask n) = push_bit n (drop_bit n x)"
    by (rule bit_eqI) (auto simp: bit_and_iff bit_not_iff bit_mask_iff bit_push_bit_iff bit_drop_bit_eq)
  then show ?thesis by (simp only: push_bit_eq_mult drop_bit_eq_div)
qed

lemma fx_one_mask: "FX_ONE - 1 = mask 32"
  by (simp add: FX_ONE_def mask_eq_exp_minus_1 push_bit_eq_mult)

lemma sint_and_not_mask: "sint (x AND NOT (mask 32) :: u64) = sint x div 2 ^ 32 * 2 ^ 32"
proof -
  have "x AND NOT (mask 32) = of_int (sint x AND NOT (mask 32))"
    by (rule bit_word_eqI)
       (auto simp: bit_simps)
  moreover have "- (2 ^ 63) \<le> sint x div 2 ^ 32 * 2 ^ 32" "sint x div 2 ^ 32 * 2 ^ 32 < 2 ^ 63"
  proof -
    have "- (2 ^ 63) div 2 ^ 32 \<le> sint x div 2 ^ 32" using sint64_range(1) [of x] by (rule zdiv_mono1) simp
    then show "- (2 ^ 63) \<le> sint x div 2 ^ 32 * 2 ^ 32" by simp
    have "sint x div 2 ^ 32 * 2 ^ 32 \<le> sint x"
      using pos_mod_sign [of "2 ^ 32" "sint x"] div_mult_mod_eq [of "sint x" "2 ^ 32"] by simp
    then show "sint x div 2 ^ 32 * 2 ^ 32 < 2 ^ 63" using sint64_range(2) [of x] by linarith
  qed
  ultimately show ?thesis by (simp only: int_and_not_mask sint64_of_int)
qed

lemma ceiling_div:
  fixes y B :: int
  assumes "0 < B"
  shows "(y + (B - 1)) div B = - (- y div B)"
proof -
  have "y + (B - 1) = (y mod B + (B - 1)) + y div B * B" using div_mult_mod_eq [of y B] by linarith
  then have "(y + (B - 1)) div B = ((y mod B + (B - 1)) + y div B * B) div B" by (rule arg_cong)
  also have "\<dots> = y div B + (y mod B + (B - 1)) div B" using assms by (subst div_mult_self1) auto
  finally have "(y + (B - 1)) div B = y div B + (y mod B + (B - 1)) div B" .
  moreover have "(r + (B - 1)) div B = (if r = 0 then 0 else 1)" if "0 \<le> r" "r < B" for r
    using that assms by (auto simp: div_pos_geq)
  from this [of "y mod B"] have "(y mod B + (B - 1)) div B = (if y mod B = 0 then 0 else 1)" using assms by simp
  ultimately show ?thesis using assms by (simp add: zdiv_zminus1_eq_if)
qed

lemma fx_mul_value:
  assumes "\<bar>sint a * sint b\<bar> div 2 ^ 32 < 2 ^ 63"
  shows "sint (fx_mul a b) = tdiv (sint a * sint b) (2 ^ 32)"
proof -
  let ?m = "\<bar>sint a * sint b\<bar> div 2 ^ 32"
  obtain q where q: "fx_mul a b = (if (sint a < 0) \<noteq> (sint b < 0) then - q else q)"
    "unat q = unat (magnitude a) * unat (magnitude b) div 2 ^ 32 mod 2 ^ 64"
    by (rule fx_mul_magnitude)
  have "int (unat (magnitude a) * unat (magnitude b) div 2 ^ 32) = ?m"
    by (simp add: uint_magnitude64 abs_mult zdiv_int)
  then have "uint q = ?m mod 2 ^ 64" using arg_cong [OF q(2), of int] by (simp add: zmod_int)
  moreover have "0 \<le> ?m" by simp
  ultimately have "uint q = ?m" using assms by simp
  from signed_quotient [OF this assms, of "(sint a < 0) \<noteq> (sint b < 0)"]
  have "sint (fx_mul a b) = (if (sint a < 0) \<noteq> (sint b < 0) then - ?m else ?m)" unfolding q(1) .
  moreover have "(sint a < 0) \<noteq> (sint b < 0) \<longleftrightarrow> sint a * sint b < 0" if "sint a \<noteq> 0" "sint b \<noteq> 0"
    using that by (auto simp: mult_less_0_iff)
  ultimately show ?thesis by (cases "sint a = 0 \<or> sint b = 0") (auto simp: tdiv_def)
qed

lemma fx_div_value:
  assumes "b = 0 \<or> \<bar>sint a\<bar> * 2 ^ 32 div \<bar>sint b\<bar> < 2 ^ 63"
  shows "if b = 0 then fx_div a b = Inl (Enforce ''b'')
         else \<exists>q. fx_div a b = Inr q \<and> sint q = tdiv (sint a * 2 ^ 32) (sint b)"
proof (cases "b = 0")
  case False
  let ?ua = "magnitude a" and ?ub = "magnitude b"
  let ?N = "unat ?ua * 2 ^ 32" and ?m = "\<bar>sint a\<bar> * 2 ^ 32 div \<bar>sint b\<bar>"
  let ?q = "fx_div_loop 64 ?ub (drop_bit 32 ?ua) (push_bit 32 ?ua) 0"
  have u: "0 < unat ?ub" using False by (auto simp: magnitude_def unat_gt_0)
  have m: "int (?N div unat ?ub) = ?m" by (simp add: zdiv_int uint_magnitude64)
  then have lt: "?N div unat ?ub < 2 ^ 63" using assms False by (simp flip: of_nat_less_iff)
  have hi: "unat (drop_bit 32 ?ua) = ?N div 2 ^ 64"
    by (simp add: high_half div_mult2_eq [of "_ * _" "2 ^ 32" "2 ^ 32", simplified])
  have "?N < 2 ^ 63 * unat ?ub" using lt u by (simp only: div_less_iff_less_mult)
  also have "\<dots> \<le> unat ?ub * 2 ^ 64" by simp
  finally have small: "?N div 2 ^ 64 < unat ?ub" by (subst div_less_iff_less_mult) simp_all
  have lo: "?N mod 2 ^ 64 = unat (push_bit 32 ?ua)" by (simp add: push_bit_eq_mult unat_word_ariths)
  have "unat ?q = ?N div unat ?ub"
    using small hi by (intro fx_div_loop_correct [OF u _ lo]) simp_all
  then have "uint ?q = ?m" using m by (metis of_nat_unat)
  from signed_quotient [OF this, of "(sint a < 0) \<noteq> (sint b < 0)"] assms False
  have "sint (if (sint a < 0) \<noteq> (sint b < 0) then - ?q else ?q) = tdiv (sint a * 2 ^ 32) (sint b)"
    by (simp add: tdiv_def abs_mult)
  then show ?thesis using False by (simp add: fx_div_def Let_def sign_differs)
qed (simp add: fx_div_def)




section \<open>Properties\<close>

text \<open>
  C17. Multiplication returns the exact product rounded towards zero, whenever that is
  representable.
\<close>

theorem fx_mul_correct:
  assumes "\<bar>sint a * sint b\<bar> div 2 ^ 32 < 2 ^ 63"
  shows "sint (fx_mul a b) = tdiv (sint a * sint b) (2 ^ 32)"
  using assms by (rule fx_mul_value)

theorem fx_mul_correct_witness:
  "sint (fx_mul (- FX_ONE) FX_HALF) = tdiv (- (2 ^ 32) * 2 ^ 31) (2 ^ 32)"
proof -
  have "sint (- FX_ONE) = - (2 ^ 32)" "sint FX_HALF = 2 ^ 31" by (simp_all add: FX_ONE_def FX_HALF_def sint64_cases)
  then show ?thesis using fx_mul_correct [of "- FX_ONE" FX_HALF] by simp
qed

text \<open>
  C16. Division by a non-zero number returns the exact quotient rounded towards zero,
  whenever that is representable; its loop always ends. Division by zero is caught by the
  \<open>enforce\<close> check.
\<close>

theorem fx_div_correct:
  assumes "b = 0 \<or> \<bar>sint a\<bar> * 2 ^ 32 div \<bar>sint b\<bar> < 2 ^ 63"
  shows "if b = 0 then fx_div a b = Inl (Enforce ''b'')
         else \<exists>q. fx_div a b = Inr q \<and> sint q = tdiv (sint a * 2 ^ 32) (sint b)"
  using assms by (rule fx_div_value)

theorem fx_div_correct_witness:
  "\<exists>q. fx_div (- FX_ONE) 3 = Inr q \<and> sint q = tdiv (- (2 ^ 32) * 2 ^ 32) 3"
proof -
  have "sint (- FX_ONE) = - (2 ^ 32)" "sint (3 :: u64) = 3" by (simp_all add: FX_ONE_def sint64_cases)
  then show ?thesis using fx_div_correct [of 3 "- FX_ONE"] by simp
qed

text \<open>
  \<open>fx_floor\<close> and \<open>fx_ceil\<close> round to the nearest whole number below and above, for both
  signs; \<open>fx_ceil\<close> is caught by the \<open>enforce\<close> check exactly when the result is not
  representable.
\<close>

theorem fx_floor_ceil_correct:
  "sint (fx_floor x) = sint x div 2 ^ 32 * 2 ^ 32 \<and>
   (if sint x \<le> 2 ^ 63 - 2 ^ 32
    then \<exists>c. fx_ceil x = Inr c \<and> sint c = - (- sint x div 2 ^ 32) * 2 ^ 32
    else fx_ceil x = Inl (Enforce ''!__aln_overflow''))"
proof -
  have m: "sint (mask 32 :: u64) = 2 ^ 32 - 1" by (simp add: sint64_cases mask_eq_exp_minus_1)
  let ?s = "sint x + (2 ^ 32 - 1)"
  have "sint (of_int ?s :: u64) = ?s" if "sint x \<le> 2 ^ 63 - 2 ^ 32"
    using that sint64_range [of x] by (intro sint64_of_int) auto
  then have "sint (of_int ?s AND NOT (mask 32) :: u64) = ?s div 2 ^ 32 * 2 ^ 32" if "sint x \<le> 2 ^ 63 - 2 ^ 32"
    using that by (simp only: sint_and_not_mask)
  moreover have "(y + (2 ^ 32 - 1)) div 2 ^ 32 = - (- y div 2 ^ 32)" for y :: int
    by (rule ceiling_div) simp
  ultimately show ?thesis
    using sint64_range [of x]
    by (simp add: fx_floor_def fx_ceil_def fx_one_mask sint_and_not_mask m Let_def)
qed



section \<open>Reading decimal fractions\<close>

lemma is_digit_digit_of: "is_digit c \<Longrightarrow> digit_of c = Some (schar c - 48)"
  by (simp add: is_digit_def digit_of_def)

lemma fx_ipart_value:
  assumes "\<forall>c \<in> set ds. is_digit c" "rest = [] \<or> \<not> is_digit (hd rest)"
  shows "fx_ipart (of_int a) (ds @ rest) = (of_int (value_of 10 a ds), rest)"
  using assms(1)
proof (induction ds arbitrary: a)
  case Nil
  then show ?case using assms(2) by (cases rest) auto
next
  case (Cons c ds)
  have "of_int a * 10 + of_int (schar c - 48) = (of_int (a * 10 + (schar c - 48)) :: u64)" by simp
  then show ?case using Cons is_digit_digit_of [of c] by (simp del: of_int_add of_int_mult of_int_diff)
qed

lemma fx_fpart_value:
  assumes "\<forall>c \<in> set ds. is_digit c" "rest = [] \<or> \<not> is_digit (hd rest)" "n + length ds \<le> 18"
  shows "fx_fpart (of_int a) d n (ds @ rest) = (of_int (value_of 10 a ds), d * 10 ^ length ds, rest)"
  using assms(1,3)
proof (induction ds arbitrary: a d n)
  case Nil
  then show ?case using assms(2) by (cases rest) auto
next
  case (Cons c ds)
  have "of_int a * 10 + of_int (schar c - 48) = (of_int (a * 10 + (schar c - 48)) :: u64)" by simp
  then show ?case using Cons is_digit_digit_of [of c]
    by (simp del: of_int_add of_int_mult of_int_diff add: mult.assoc)
qed

lemma value_of_bound:
  assumes "\<forall>c \<in> set ds. is_digit c" "0 \<le> a"
  shows "0 \<le> value_of 10 a ds \<and> value_of 10 a ds < (a + 1) * 10 ^ length ds"
  using assms
proof (induction ds arbitrary: a)
  case (Cons c ds)
  let ?d = "schar c - 48"
  have d: "0 \<le> ?d" "?d \<le> 9" "digit_of c = Some ?d"
    using Cons.prems is_digit_digit_of [of c] by (auto simp: is_digit_def)
  then have IH: "0 \<le> value_of 10 (a * 10 + ?d) ds" "value_of 10 (a * 10 + ?d) ds < (a * 10 + ?d + 1) * 10 ^ length ds"
    using Cons.IH [of "a * 10 + ?d"] Cons.prems by auto
  have "(a * 10 + ?d + 1) * 10 ^ length ds \<le> ((a + 1) * 10) * 10 ^ length ds"
    using d by (intro mult_right_mono) auto
  with IH(2) have "value_of 10 (a * 10 + ?d) ds < ((a + 1) * 10) * 10 ^ length ds" by (rule less_le_trans)
  then show ?case using IH(1) d(3) by (simp only: value_of_simps option.sel list.size power_Suc mult.assoc) simp
qed simp

text \<open>The fraction scaled to 32 bits: the 128-bit computation does not overflow.\<close>

lemma fraction_bits:
  assumes "0 \<le> f" "f < 10 ^ n" "n \<le> 18"
  shows "(ucast (push_bit 32 (ucast (of_int f :: u64) :: u128) div ucast (10 ^ n :: u64)) :: u64) = of_int (f * 2 ^ 32 div 10 ^ n)"
proof -
  have ten: "(10 :: int) ^ n \<le> 10 ^ 18" using assms(3) by (intro power_increasing) auto
  then have f: "uint (of_int f :: u64) = f" using assms by (intro uint_small) auto
  have "(10 :: u64) ^ n = of_int (10 ^ n)" by simp
  then have d: "uint (10 ^ n :: u64) = 10 ^ n" using ten uint_small [of "10 ^ n"] by simp
  have fu: "uint (ucast (of_int f :: u64) :: u128) = f" "uint (ucast (10 ^ n :: u64) :: u128) = 10 ^ n"
    using f d unat_ucast_wide [of "of_int f"] unat_ucast_wide [of "10 ^ n"] by (metis of_nat_unat)+
  have "push_bit 32 (ucast (of_int f :: u64) :: u128) = of_int (f * 2 ^ 32)"
    using fu(1) by (metis of_int_mult of_int_numeral of_int_power push_bit_eq_mult word_of_int_uint)
  moreover have "f * 2 ^ 32 < 2 ^ 128" using assms ten by simp
  ultimately have "uint (push_bit 32 (ucast (of_int f :: u64) :: u128)) = f * 2 ^ 32"
    using assms(1) by (simp only: uint_word_of_int) simp
  then have "uint (push_bit 32 (ucast (of_int f :: u64) :: u128) div ucast (10 ^ n :: u64)) = f * 2 ^ 32 div 10 ^ n"
    using fu(2) by (simp only: uint_div)
  then show ?thesis by (metis ucast_eq)
qed

lemma not_sign_or_blank:
  "is_digit c \<Longrightarrow> \<not> is_blank c \<and> c \<noteq> CHR ''+'' \<and> c \<noteq> CHR ''-'' \<and> c \<noteq> CHR ''.''"
  by (auto simp: is_digit_def is_blank_def schar_def cval_def)

lemma skip_sign:
  assumes "\<forall>c \<in> set ws. is_blank c" "sg \<in> signs" "\<forall>c \<in> set is. is_digit c"
    and t_def: "t = is @ CHR ''.'' # fs"
  shows "dropWhile is_blank (ws @ sg @ t) = sg @ t"
    and "peek t \<noteq> CHR ''+''" "peek t \<noteq> CHR ''-''"
proof -
  have h: "\<exists>c u. t = c # u \<and> \<not> is_blank c \<and> c \<noteq> CHR ''+'' \<and> c \<noteq> CHR ''-''"
    using assms(3) not_sign_or_blank by (cases "is") (auto simp: t_def is_blank_def)
  then show "peek t \<noteq> CHR ''+''" "peek t \<noteq> CHR ''-''" by (auto simp: peek_def)
  have "\<not> is_blank (CHR ''+'')" "\<not> is_blank (CHR ''-'')" by (simp_all add: is_blank_def)
  then have "dropWhile is_blank (sg @ t) = sg @ t" using assms(2) h by (auto simp: signs_def)
  then show "dropWhile is_blank (ws @ sg @ t) = sg @ t" using assms(1) by simp
qed

text \<open>
  C32. \<open>fx_parse\<close> on blanks, an optional sign and decimal digits around a point, up to 18
  of them after it: the result is the number scaled by \<open>2^32\<close> and rounded towards zero
  (modulo \<open>2^64\<close>), negated after a minus sign, and the end pointer is the rest.
\<close>

theorem fx_parse_decimal:
  assumes "\<forall>c \<in> set ws. is_blank c" "sg \<in> signs" "\<forall>c \<in> set is. is_digit c" "\<forall>c \<in> set fs. is_digit c"
    and "is \<noteq> [] \<or> fs \<noteq> []" "length fs \<le> 18" "rest = [] \<or> \<not> is_digit (hd rest)"
  shows "fx_parse (ws @ sg @ is @ CHR ''.'' # fs @ rest) =
    (let v = of_int (value_of 10 0 is * 2 ^ 32 + value_of 10 0 fs * 2 ^ 32 div 10 ^ length fs)
     in if sg = ''-'' then - v else v, rest)"
proof -
  let ?t = "is @ CHR ''.'' # fs @ rest"
  let ?I = "value_of 10 0 is" and ?F = "value_of 10 0 fs" and ?n = "length fs"
  note sk = skip_sign [OF assms(1-3) refl, of "fs @ rest"]
  have s: "(if peek (sg @ ?t) = CHR ''+'' \<or> peek (sg @ ?t) = CHR ''-'' then tl (sg @ ?t) else sg @ ?t) = ?t"
    "peek (sg @ ?t) = CHR ''-'' \<longleftrightarrow> sg = ''-''"
    using assms(2) sk(2,3) by (auto simp: signs_def peek_def)
  have "\<not> is_digit (CHR ''.'')" by (simp add: is_digit_def schar_def cval_def)
  then have i: "fx_ipart 0 ?t = (of_int ?I, CHR ''.'' # fs @ rest)"
    using fx_ipart_value [OF assms(3), of "CHR ''.'' # fs @ rest" 0] by simp
  have f: "fx_fpart 0 1 0 (fs @ rest) = (of_int ?F, 10 ^ ?n, rest)"
    using fx_fpart_value [OF assms(4,7), of 0 0 1] assms(6) by simp
  have F: "0 \<le> ?F" "?F < 10 ^ ?n" using value_of_bound [OF assms(4), of 0] by auto
  have den: "(1 :: u64) < 10 ^ ?n \<longleftrightarrow> fs \<noteq> []"
  proof -
    have "(10 :: int) ^ ?n \<le> 10 ^ 18" using assms(6) by (intro power_increasing) auto
    then have "uint (10 ^ ?n :: u64) = 10 ^ ?n" using uint_small [of "10 ^ ?n"] by simp
    moreover have "(1 :: int) < 10 ^ ?n \<longleftrightarrow> fs \<noteq> []" by (cases "fs = []") simp_all
    ultimately show ?thesis by (simp add: word_less_def)
  qed
  have r: "(if 1 < (10 ^ ?n :: u64) then push_bit 32 (of_int ?I) +
        ucast (push_bit 32 (ucast (of_int ?F :: u64) :: u128) div ucast (10 ^ ?n :: u64))
      else push_bit 32 (of_int ?I)) = (of_int (?I * 2 ^ 32 + ?F * 2 ^ 32 div 10 ^ ?n) :: u64)"
    using fraction_bits [OF F assms(6)] den by (cases fs) (auto simp: push_bit_eq_mult)
  have any: "CHR ''.'' # fs @ rest \<noteq> ?t \<or> rest \<noteq> fs @ rest" using assms(5) by auto
  show ?thesis
    unfolding fx_parse_def Let_def sk(1) unfolding s(1) unfolding s(2) i
    using any by (simp only: prod.case peek_simps list.sel f r fx_neg_def simp_thms if_True) simp
qed

theorem fx_parse_decimal_witness: "fx_parse '' -1.25kB'' = (- 5368709120, ''kB'')"
  using fx_parse_decimal [of "'' ''" "''-''" "''1''" "''25''" "''kB''"]
  by (simp add: is_blank_def is_digit_def schar_def cval_def signs_def digit_of_def Let_def)

end
