(* ===== verification/Parse.thy ===== *)
theory Parse
  imports Fixed CpuMask "HOL-Library.Multiset"
begin

text \<open>
  The value parsers of \<^verbatim>\<open>kernel/parse.c\<close>, used for the kernel command line. A parser
  returns \<open>None\<close> where the code returns false and \<open>Some\<close> of what it stores through its
  output pointer where it returns true; a null string is rejected like the empty one and
  is not represented. The lemmas state for each format what is accepted and that the
  result is the number meant, without overflow, or rejection.
\<close>

section \<open>Blanks and digits\<close>

definition skip_blank :: "string \<Rightarrow> string" where
  "skip_blank s = dropWhile is_blank s"

definition rskip_blank :: "string \<Rightarrow> string" where
  "rskip_blank s = rev (dropWhile is_blank (rev s))"

text \<open>The decimal loop with the overflow check of sizes, durations and CPU numbers.\<close>

fun dec_checked :: "u64 \<Rightarrow> string \<Rightarrow> (u64 \<times> string) option" where
  "dec_checked value [] = Some (value, [])"
| "dec_checked value (c # s) =
     (if is_digit c then
        let digit = of_int (schar c - 48)
        in if (- 1 - digit) div 10 < value then None else dec_checked (value * 10 + digit) s
      else Some (value, c # s))"

section \<open>Booleans\<close>

definition enabled_terms :: "string list" where
  "enabled_terms =
     [''true'', ''enabled'', ''y'', ''yes'', ''yeah'', ''yup'', ''on'',
      ''positive'', ''1'', ''active'', ''allow'', ''ok'', ''open'']"

definition disabled_terms :: "string list" where
  "disabled_terms =
     [''false'', ''disabled'', ''n'', ''no'', ''nope'', ''off'',
      ''negative'', ''0'', ''inactive'', ''deny'', ''blocked'', ''closed'']"

definition is_term :: "string \<Rightarrow> nat \<Rightarrow> string \<Rightarrow> bool" where
  "is_term str len t \<longleftrightarrow> len = strlen t \<and> strncasecmp str t len = 0"

definition parse_bool_internal :: "string \<Rightarrow> bool option" where
  "parse_bool_internal str =
     (if str = [] then None
      else let str = skip_blank str
           in if str = [] then None
              else let len = length (rskip_blank str)
                   in if list_ex (is_term str len) enabled_terms then Some True
                      else if list_ex (is_term str len) disabled_terms then Some False
                      else None)"

section \<open>Sizes\<close>

definition KIB :: "u64 \<Rightarrow> u64" where "KIB x = push_bit 10 x"
definition MIB :: "u64 \<Rightarrow> u64" where "MIB x = push_bit 20 x"
definition GIB :: "u64 \<Rightarrow> u64" where "GIB x = push_bit 30 x"
definition TIB :: "u64 \<Rightarrow> u64" where "TIB x = push_bit 40 x"

text \<open>The \<open>switch\<close> on the unit letter: the multiplier, whether a prefix was read, and the rest.\<close>

definition size_unit :: "string \<Rightarrow> (u64 \<times> bool \<times> string) option" where
  "size_unit s =
     (let c = peek s
      in if c = CHR ''K'' \<or> c = CHR ''k'' then Some (KIB 1, True, tl s)
         else if c = CHR ''M'' \<or> c = CHR ''m'' then Some (MIB 1, True, tl s)
         else if c = CHR ''G'' \<or> c = CHR ''g'' then Some (GIB 1, True, tl s)
         else if c = CHR ''T'' \<or> c = CHR ''t'' then Some (TIB 1, True, tl s)
         else if c = CHR ''B'' \<or> c = CHR ''b'' then Some (1, False, tl s)
         else if c = NUL then Some (1, False, s)
         else None)"

definition is_b :: "char \<Rightarrow> bool" where
  "is_b c \<longleftrightarrow> c = CHR ''b'' \<or> c = CHR ''B''"

definition size_suffix :: "bool \<Rightarrow> string \<Rightarrow> string option" where
  "size_suffix has_prefix s =
     (if has_prefix then
        (if peek s = CHR ''i'' \<or> peek s = CHR ''I''
         then (if is_b (peek (tl s)) then Some (tl (tl s)) else None)
         else if is_b (peek s) then Some (tl s)
         else Some s)
      else Some s)"

definition parse_data_size_internal :: "string \<Rightarrow> u64 option" where
  "parse_data_size_internal str =
     (if str = [] then None
      else let str = skip_blank str
           in if \<not> is_digit (peek str) then None
              else Option.bind (dec_checked 0 str) (\<lambda>(value, str).
                   Option.bind (size_unit (skip_blank str)) (\<lambda>(multiplier, has_prefix, str).
                   Option.bind (size_suffix has_prefix str) (\<lambda>str.
                   if skip_blank str \<noteq> [] then None
                   else let result = value * multiplier
                        in if 1 < multiplier \<and> result div multiplier \<noteq> value then None else Some result))))"

section \<open>Durations\<close>

definition unit_is :: "string \<Rightarrow> nat \<Rightarrow> string \<Rightarrow> bool" where
  "unit_is unit_start unit_len name \<longleftrightarrow>
     unit_len = length name \<and> strncasecmp unit_start name (length name) = 0"

definition time_unit :: "string \<Rightarrow> nat \<Rightarrow> u64 option" where
  "time_unit s len =
     (if len = 0 then Some 1
      else if unit_is s len ''ns'' then Some 1
      else if unit_is s len ''us'' then Some 1000
      else if unit_is s len ''ms'' then Some 1000000
      else if unit_is s len ''s'' \<or> unit_is s len ''sec'' \<or> unit_is s len ''secs'' \<or>
              unit_is s len ''second'' \<or> unit_is s len ''seconds'' then Some 1000000000
      else if unit_is s len ''m'' \<or> unit_is s len ''min'' \<or> unit_is s len ''mins'' \<or>
              unit_is s len ''minute'' \<or> unit_is s len ''minutes'' then Some (60 * 1000000000)
      else if unit_is s len ''h'' \<or> unit_is s len ''hr'' \<or> unit_is s len ''hrs'' \<or>
              unit_is s len ''hour'' \<or> unit_is s len ''hours'' then Some (3600 * 1000000000)
      else if unit_is s len ''d'' \<or> unit_is s len ''day'' \<or> unit_is s len ''days''
      then Some (86400 * 1000000000)
      else None)"

definition parse_duration_internal :: "string \<Rightarrow> u64 option" where
  "parse_duration_internal str =
     (if str = [] then None
      else let str = skip_blank str
           in if \<not> is_digit (peek str) then None
              else Option.bind (dec_checked 0 str) (\<lambda>(value, str).
                   let unit_start = skip_blank str;
                       unit_len = length (takeWhile (\<lambda>c. \<not> is_blank c) unit_start);
                       str = skip_blank (drop unit_len unit_start)
                   in if str \<noteq> [] then None
                      else Option.bind (time_unit unit_start unit_len) (\<lambda>multiplier.
                           if 0 < multiplier \<and> (- 1) div multiplier < value then None
                           else Some (value * multiplier))))"

section \<open>CPU masks\<close>

text \<open>
  The first pass checks the syntax and the range of every item. \<open>cpu_item\<close> is one round of
  its loop: the bounds read and the rest, or \<open>None\<close> for the early returns.
\<close>

definition cpu_item :: "nat \<Rightarrow> string \<Rightarrow> string option" where
  "cpu_item cpu_count p =
     (if \<not> is_digit (peek p) then None
      else Option.bind (dec_checked 0 p) (\<lambda>(start, p).
           Option.bind
             (if peek p = CHR ''-''
              then (if \<not> is_digit (peek (tl p)) then None else dec_checked 0 (tl p))
              else Some (start, p)) (\<lambda>(end, p).
           if end < start \<or> cpu_count \<le> unat end then None
           else if peek p = CHR '',''
           then (if tl p = [] then None else Some (tl p))
           else if p \<noteq> [] then None
           else Some p)))"

lemma dec_checked_shorter: "dec_checked v s = Some (v', s') \<Longrightarrow> length s' \<le> length s"
  by (induction v s rule: dec_checked.induct) (auto simp: Let_def split: if_splits)

lemma is_digit_NUL [simp]: "\<not> is_digit NUL"
  by (simp add: is_digit_def schar_def cval_def)

lemma cpu_item_shorter:
  assumes "cpu_item n p = Some q" "p \<noteq> []"
  shows "length q < length p"
proof -
  obtain v r where first: "is_digit (peek p)" "dec_checked 0 p = Some (v, r)"
    using assms by (auto simp: cpu_item_def Option.bind_eq_Some_conv split: if_splits)
  then have "length r < length p"
    by (cases p) (auto simp: Let_def dest: dec_checked_shorter split: if_splits)
  moreover have "length q \<le> length r"
  proof (cases "peek r = CHR ''-''")
    case True
    then obtain v' r' where "dec_checked 0 (tl r) = Some (v', r')" "q = tl r' \<or> q = r'"
      using assms(1) first by (auto simp: cpu_item_def Option.bind_eq_Some_conv split: if_splits)
    then show ?thesis using dec_checked_shorter [of 0 "tl r" v' r'] by auto
  next
    case False
    then have "q = tl r \<or> q = r"
      using assms(1) first by (auto simp: cpu_item_def Option.bind_eq_Some_conv split: if_splits)
    then show ?thesis by auto
  qed
  ultimately show ?thesis by simp
qed

function cpu_mask_valid :: "nat \<Rightarrow> string \<Rightarrow> bool" where
  "cpu_mask_valid cpu_count p =
     (if p = [] then True
      else case cpu_item cpu_count p of None \<Rightarrow> False | Some q \<Rightarrow> cpu_mask_valid cpu_count q)"
  by pat_completeness auto
termination by (relation "measure (length \<circ> snd)") (auto dest: cpu_item_shorter)

declare cpu_mask_valid.simps [simp del]

text \<open>The second pass reads the same numbers without checks and sets the bits.\<close>

fun dec_unchecked :: "u64 \<Rightarrow> string \<Rightarrow> u64 \<times> string" where
  "dec_unchecked value [] = (value, [])"
| "dec_unchecked value (c # s) =
     (if is_digit c then dec_unchecked (value * 10 + of_int (schar c - 48)) s else (value, c # s))"

definition cpu_bounds :: "string \<Rightarrow> u64 \<times> u64 \<times> string" where
  "cpu_bounds p =
     (let (start, p) = dec_unchecked 0 p
      in if peek p = CHR ''-'' then (start, dec_unchecked 0 (tl p)) else (start, start, p))"

text \<open>
  The loop over the text is bounded by its length, as a guard: a round that consumes
  nothing (a character the first pass rejects) would repeat forever.
\<close>

fun cpu_mask_populate :: "nat \<Rightarrow> cpu_mask \<Rightarrow> string \<Rightarrow> cpu_mask option" where
  "cpu_mask_populate fuel out [] = Some out"
| "cpu_mask_populate 0 out (c # p) = None"
| "cpu_mask_populate (Suc fuel) out (c # p) =
     (let (start, end, p) = cpu_bounds (c # p)
      in Option.bind (for_loop (unat start) (Suc (unat end)) (\<lambda>i out. cpu_mask_set out i) out) (\<lambda>out.
         cpu_mask_populate fuel out (if peek p = CHR '','' then tl p else p)))"

text \<open>The result is \<open>None\<close> only where an access leaves the mask or the text never ends.\<close>

definition parse_cpu_mask_internal :: "string \<Rightarrow> cpu_mask option \<Rightarrow> nat \<Rightarrow> (bool \<times> cpu_mask option) option" where
  "parse_cpu_mask_internal str out cpu_count =
     (if str = [] \<or> cpu_count = 0 then Some (False, out)
      else if \<not> cpu_mask_valid cpu_count str then Some (False, out)
      else case out of
             None \<Rightarrow> Some (True, None)
           | Some m \<Rightarrow> map_option (\<lambda>m. (True, Some m))
                         (cpu_mask_populate (length str) (cpu_mask_init m cpu_count) str))"

section \<open>Hexadecimal addresses\<close>

definition hex_to_int :: "char \<Rightarrow> int" where
  "hex_to_int c =
     (if 48 \<le> schar c \<and> schar c \<le> 57 then schar c - 48
      else if 97 \<le> schar c \<and> schar c \<le> 102 then schar c - 97 + 10
      else if 65 \<le> schar c \<and> schar c \<le> 70 then schar c - 65 + 10
      else - 1)"

text \<open>The loop with \<open>n\<close> of its six rounds to go.\<close>

fun mac_loop :: "nat \<Rightarrow> u64 \<Rightarrow> string \<Rightarrow> (u64 \<times> string) option" where
  "mac_loop 0 mac p = Some (mac, p)"
| "mac_loop (Suc n) mac p =
     (let high = hex_to_int (peek p)
      in if high < 0 then None
         else let low = hex_to_int (peek (tl p))
              in if low < 0 then None
                 else let mac = push_bit 8 mac OR of_int (push_bit 4 high) OR of_int low;
                          p = tl (tl p)
                      in if 0 < n then (if peek p \<noteq> CHR '':'' then None else mac_loop n mac (tl p))
                         else mac_loop n mac p)"

definition parse_mac_internal :: "string \<Rightarrow> u64 option" where
  "parse_mac_internal str =
     (if str = [] then None
      else case mac_loop 6 0 str of
             None \<Rightarrow> None
           | Some (mac, p) \<Rightarrow> if p \<noteq> [] then None else Some mac)"

section \<open>Numbers\<close>

text \<open>The code compares the end pointer with the start: equal exactly when nothing was consumed.\<close>

definition parse_fx_internal :: "string \<Rightarrow> fx option" where
  "parse_fx_internal str =
     (if str = [] then None
      else let (val, end) = fx_parse str
           in if end = str \<or> end \<noteq> [] then None else Some val)"

definition parse_int_internal :: "string \<Rightarrow> u64 option" where
  "parse_int_internal str =
     (if str = [] then None
      else let (val, end) = strtol str 0
           in if end = str \<or> end \<noteq> [] then None else Some val)"

definition parse_uint_internal :: "string \<Rightarrow> u64 option" where
  "parse_uint_internal str =
     (if str = [] then None
      else if peek (skip_blank str) = CHR ''-'' then None
      else let (val, end) = strtoull str 0
           in if end = str \<or> end \<noteq> [] then None else Some val)"

definition both :: "(string \<Rightarrow> u64 option) \<Rightarrow> string \<Rightarrow> string \<Rightarrow> (u64 \<times> u64) option" where
  "both parse l r = Option.bind (parse l) (\<lambda>s. map_option (Pair s) (parse r))"

definition both_ull :: "string \<Rightarrow> string \<Rightarrow> (u64 \<times> u64) option" where
  "both_ull l r =
     (let (s, end_l) = strtoull l 0; (f, end_r) = strtoull r 0
      in if end_l \<noteq> l \<and> end_l = [] \<and> end_r \<noteq> r \<and> end_r = [] then Some (s, f) else None)"

definition or_else :: "'a option \<Rightarrow> 'a option \<Rightarrow> 'a option" where
  "or_else x y = (case x of None \<Rightarrow> y | Some v \<Rightarrow> Some v)"

definition range_sep :: "string \<Rightarrow> (nat \<times> nat) option" where
  "range_sep str =
     (case strstr str ''..'' of
        Some i \<Rightarrow> Some (i, 2)
      | None \<Rightarrow> map_option (\<lambda>i. (Suc i, 1)) (strchr (tl str) (schar (CHR ''-''))))"

definition parse_range_internal :: "string \<Rightarrow> (u64 \<times> u64) option" where
  "parse_range_internal str =
     (if str = [] then None
      else let str = skip_blank str
           in if peek str = CHR ''-'' \<or> str = [] then None
              else Option.bind (range_sep str) (\<lambda>(sep, sep_len).
                   let left = rskip_blank (take sep str);
                       right_str = skip_blank (drop (sep + sep_len) str)
                   in if left = [] \<or> right_str = [] then None
                      else if 64 \<le> length left then None
                      else case or_else (both parse_duration_internal left right_str)
                                  (or_else (both parse_data_size_internal left right_str)
                                     (or_else (both parse_fx_internal left right_str)
                                        (both_ull left right_str))) of
                             None \<Rightarrow> None
                           | Some (s, f) \<Rightarrow> if f < s then None else Some (s, f)))"

section \<open>Lists\<close>

text \<open>
  The allocator enters through the outcome of each request: request number \<open>k\<close> fails when
  \<open>fails k\<close> holds. The state records the number of requests and the live blocks.
\<close>

record blocks =
  requests :: nat
  live :: "nat list"

definition valloc :: "(nat \<Rightarrow> bool) \<Rightarrow> blocks \<Rightarrow> nat option \<times> blocks" where
  "valloc fails h =
     (let k = requests h
      in if fails k then (None, h\<lparr>requests := Suc k\<rparr>)
         else (Some k, h\<lparr>requests := Suc k, live := k # live h\<rparr>))"

definition vfree :: "nat \<Rightarrow> blocks \<Rightarrow> blocks" where
  "vfree k h = h\<lparr>live := remove1 k (live h)\<rparr>"

text \<open>An entry of the item array is null or a block with the text stored in it.\<close>

type_synonym item_array = "(nat \<times> char list) option list"

record parse_list =
  count :: nat
  items :: "(nat \<times> item_array) option"

definition escape_char :: "char \<Rightarrow> char" where
  "escape_char c =
     (if c = CHR ''n'' then CHR 0x0A else if c = CHR ''t'' then CHR 0x09
      else if c = CHR ''r'' then CHR 0x0D else c)"

definition BACKSLASH :: char where "BACKSLASH = CHR 0x5C"
definition QUOTE :: char where "QUOTE = CHR 0x22"

text \<open>\<open>parse_unescape\<close> on the text between \<open>begin\<close> and \<open>end\<close>, storing from index \<open>i\<close> of \<open>dst\<close>.\<close>

fun unescape_from :: "char list \<Rightarrow> nat \<Rightarrow> string \<Rightarrow> char list option" where
  "unescape_from dst i [] = bput dst i NUL"
| "unescape_from dst i (c # s) =
     (if c = BACKSLASH \<and> s \<noteq> []
      then Option.bind (bput dst i (escape_char (hd s))) (\<lambda>dst. unescape_from dst (Suc i) (tl s))
      else Option.bind (bput dst i c) (\<lambda>dst. unescape_from dst (Suc i) s))"

definition parse_unescape :: "char list \<Rightarrow> string \<Rightarrow> char list option" where
  "parse_unescape dst s = unescape_from dst 0 s"

text \<open>First pass: the number of items and whether a quote is left open.\<close>

fun list_count :: "bool \<Rightarrow> nat \<Rightarrow> string \<Rightarrow> bool \<times> nat" where
  "list_count quoted n [] = (quoted, n)"
| "list_count quoted n (c # s) =
     (if c = BACKSLASH \<and> s \<noteq> [] then list_count quoted n (tl s)
      else if c = QUOTE then list_count (\<not> quoted) n s
      else if c = CHR '','' \<and> \<not> quoted then list_count quoted (Suc n) s
      else list_count quoted n s)"

definition trim :: "string \<Rightarrow> string" where
  "trim s = rskip_blank (skip_blank s)"

definition item_ok :: "string \<Rightarrow> bool" where
  "item_ok t \<longleftrightarrow> t \<noteq> [] \<and> (hd t = QUOTE \<longrightarrow> \<not> (length t < 2 \<or> last t \<noteq> QUOTE))"

text \<open>Second pass: \<open>cur\<close> is the text from \<open>item_start\<close> to \<open>p\<close>.\<close>

fun list_check :: "bool \<Rightarrow> string \<Rightarrow> string \<Rightarrow> bool" where
  "list_check quoted cur [] = item_ok (trim cur)"
| "list_check quoted cur (c # s) =
     (if c = BACKSLASH \<and> s \<noteq> [] then list_check quoted (cur @ [c, hd s]) (tl s)
      else let quoted = (if c = QUOTE then \<not> quoted else quoted)
           in if c = CHR '','' \<and> \<not> quoted
              then item_ok (trim cur) \<and> list_check quoted [] s
              else list_check quoted (cur @ [c]) s)"

text \<open>Third pass: the text of one item is copied to a block of its own; a failed request
  releases what was allocated.\<close>

definition unquote :: "string \<Rightarrow> string" where
  "unquote t = (if peek t = QUOTE then butlast (tl t) else t)"

definition free_items :: "item_array \<Rightarrow> blocks \<Rightarrow> blocks" where
  "free_items xs h = foldl (\<lambda>h x. case x of None \<Rightarrow> h | Some (k, _) \<Rightarrow> vfree k h) h xs"

definition list_item :: "(nat \<Rightarrow> bool) \<Rightarrow> nat \<Rightarrow> string \<Rightarrow> item_array \<Rightarrow> nat \<Rightarrow> blocks
    \<Rightarrow> (item_array option \<times> blocks) option" where
  "list_item fails base cur xs item h =
     (let t = unquote (trim cur)
      in case valloc fails h of
           (None, h) \<Rightarrow> Some (None, vfree base (free_items (take item xs) h))
         | (Some k, h) \<Rightarrow>
             Option.bind (parse_unescape (replicate (length t + 1) NUL) t) (\<lambda>text.
             map_option (\<lambda>xs. (Some xs, h)) (wr xs item (Some (k, text)))))"

fun list_build :: "(nat \<Rightarrow> bool) \<Rightarrow> nat \<Rightarrow> bool \<Rightarrow> string \<Rightarrow> item_array \<Rightarrow> nat \<Rightarrow> blocks \<Rightarrow> string
    \<Rightarrow> (item_array option \<times> blocks) option" where
  "list_build fails base quoted cur xs item h [] = list_item fails base cur xs item h"
| "list_build fails base quoted cur xs item h (c # s) =
     (if c = BACKSLASH \<and> s \<noteq> [] then list_build fails base quoted (cur @ [c, hd s]) xs item h (tl s)
      else let quoted = (if c = QUOTE then \<not> quoted else quoted)
           in if c = CHR '','' \<and> \<not> quoted
              then Option.bind (list_item fails base cur xs item h) (\<lambda>(r, h).
                   case r of None \<Rightarrow> Some (None, h)
                   | Some xs \<Rightarrow> list_build fails base quoted [] xs (Suc item) h s)
              else list_build fails base quoted (cur @ [c]) xs item h s)"

text \<open>
  The result is \<open>None\<close> where a store leaves an array. Otherwise it is the value returned,
  the list stored through the output pointer and the blocks.
\<close>

definition parse_list_internal :: "(nat \<Rightarrow> bool) \<Rightarrow> string \<Rightarrow> parse_list option \<Rightarrow> blocks
    \<Rightarrow> (bool \<times> parse_list option \<times> blocks) option" where
  "parse_list_internal fails str out h =
     (if str = [] then Some (False, out, h)
      else let (quoted, n) = list_count False 1 str
           in if quoted then Some (False, out, h)
              else if \<not> list_check False [] str then Some (False, out, h)
              else case out of None \<Rightarrow> Some (True, None, h)
              | Some l \<Rightarrow>
                 (case valloc fails h of
                    (None, h) \<Rightarrow> Some (False, out, h)
                  | (Some base, h) \<Rightarrow>
                      map_option (\<lambda>(r, h).
                        case r of None \<Rightarrow> (False, out, h)
                        | Some xs \<Rightarrow> (True, Some \<lparr>count = n, items = Some (base, xs)\<rparr>, h))
                        (list_build fails base False [] (replicate n None) 0 h str)))"

definition parse_list_free :: "parse_list \<Rightarrow> blocks \<Rightarrow> parse_list \<times> blocks" where
  "parse_list_free l h =
     (case items l of
        None \<Rightarrow> (l, h)
      | Some (base, xs) \<Rightarrow>
          (\<lparr>count = 0, items = None\<rparr>, vfree base (free_items (take (count l) xs) h)))"

section \<open>The public parsers\<close>

definition parse_is_bool :: "string \<Rightarrow> bool option" where
  "parse_is_bool str = parse_bool_internal str"

definition parse_is_data_size :: "string \<Rightarrow> u64 option" where
  "parse_is_data_size str = parse_data_size_internal str"

definition parse_is_duration :: "string \<Rightarrow> u64 option" where
  "parse_is_duration str = parse_duration_internal str"

definition parse_is_cpu_mask :: "string \<Rightarrow> cpu_mask option \<Rightarrow> nat \<Rightarrow> (bool \<times> cpu_mask option) option" where
  "parse_is_cpu_mask str out cpu_count = parse_cpu_mask_internal str out cpu_count"

definition parse_is_range :: "string \<Rightarrow> (u64 \<times> u64) option" where
  "parse_is_range str = parse_range_internal str"

definition parse_is_mac :: "string \<Rightarrow> u64 option" where
  "parse_is_mac str = parse_mac_internal str"

definition parse_is_fx :: "string \<Rightarrow> fx option" where
  "parse_is_fx str = parse_fx_internal str"

definition parse_is_int :: "string \<Rightarrow> u64 option" where
  "parse_is_int str = parse_int_internal str"

definition parse_is_uint :: "string \<Rightarrow> u64 option" where
  "parse_is_uint str = parse_uint_internal str"

definition parse_is_list :: "(nat \<Rightarrow> bool) \<Rightarrow> string \<Rightarrow> parse_list option \<Rightarrow> blocks
    \<Rightarrow> (bool \<times> parse_list option \<times> blocks) option" where
  "parse_is_list fails str out h = parse_list_internal fails str out h"

lemmas parse_is_defs = parse_is_bool_def parse_is_data_size_def parse_is_duration_def
  parse_is_cpu_mask_def parse_is_range_def parse_is_mac_def parse_is_fx_def parse_is_int_def
  parse_is_uint_def parse_is_list_def

section \<open>Digits and letters\<close>

lemma isupper_uchar: "isupper (uchar c) \<longleftrightarrow> 65 \<le> cval c \<and> cval c \<le> 90"
proof -
  have c: "unat (uchar c) = nat (cval c)" "nat (cval c) < 256" by (simp_all add: unat_uchar cval_def)
  have "uchar c - 65 < 26 \<longleftrightarrow> unat (uchar c - 65) < 26" by (simp add: word_less_nat_alt)
  also have "unat (uchar c - 65) = (if 65 \<le> nat (cval c) then nat (cval c) - 65 else 2 ^ 32 + nat (cval c) - 65)"
    using c by (simp add: unat_sub_if')
  finally show ?thesis using c(2) by (auto simp: isupper_def split: if_splits)
qed

lemma upper_or: "65 \<le> n \<Longrightarrow> n \<le> 90 \<Longrightarrow> (of_nat n :: u32) OR 0x20 = of_nat (n + 32)"
proof -
  have "\<forall>n \<in> set [65..<91]. (of_nat n :: u32) OR 0x20 = of_nat (n + 32)" by (simp add: upt_rec)
  then show "(of_nat n :: u32) OR 0x20 = of_nat (n + 32)" if "65 \<le> n" "n \<le> 90"
    using that by (simp only: set_upt) (drule bspec [of _ _ n], simp_all)
qed

lemma lower_cval: "lower c = of_int (if 65 \<le> cval c \<and> cval c \<le> 90 then cval c + 32 else cval c)"
  using upper_or [of "of_char c"] unfolding lower_def tolower_def isupper_uchar
  by (auto simp: uchar_def cval_def)

lemma lower_eq_iff:
  "lower a = lower b \<longleftrightarrow> (if 65 \<le> cval a \<and> cval a \<le> 90 then cval a + 32 else cval a) =
     (if 65 \<le> cval b \<and> cval b \<le> 90 then cval b + 32 else cval b)"
proof -
  let ?f = "\<lambda>c. if 65 \<le> cval c \<and> cval c \<le> 90 then cval c + 32 else cval c"
  have "uint (lower c) = ?f c" for c
  proof -
    have "cval c < 256" by (simp add: cval_def)
    then have "0 \<le> ?f c" "?f c < 2 ^ 32" by auto
    then show ?thesis unfolding lower_cval by (simp only: uint_word_of_int) simp
  qed
  from this [of a] this [of b] show ?thesis unfolding uint_inject [of "lower a", symmetric] by (simp only:)
qed

lemma lower_letters:
  "lower c = lower (CHR ''k'') \<longleftrightarrow> c = CHR ''K'' \<or> c = CHR ''k''"
  "lower c = lower (CHR ''m'') \<longleftrightarrow> c = CHR ''M'' \<or> c = CHR ''m''"
  "lower c = lower (CHR ''g'') \<longleftrightarrow> c = CHR ''G'' \<or> c = CHR ''g''"
  "lower c = lower (CHR ''t'') \<longleftrightarrow> c = CHR ''T'' \<or> c = CHR ''t''"
  "lower c = lower (CHR ''b'') \<longleftrightarrow> c = CHR ''B'' \<or> c = CHR ''b''"
  "lower c = lower (CHR ''i'') \<longleftrightarrow> c = CHR ''I'' \<or> c = CHR ''i''"
proof -
  have cv: "c = d \<longleftrightarrow> cval c = cval d" for c d by simp
  have lit: "cval (CHR ''K'') = 75" "cval (CHR ''k'') = 107" "cval (CHR ''M'') = 77" "cval (CHR ''m'') = 109"
    "cval (CHR ''G'') = 71" "cval (CHR ''g'') = 103" "cval (CHR ''T'') = 84" "cval (CHR ''t'') = 116"
    "cval (CHR ''B'') = 66" "cval (CHR ''b'') = 98" "cval (CHR ''I'') = 73" "cval (CHR ''i'') = 105"
    by (simp_all add: cval_def)
  show "lower c = lower (CHR ''k'') \<longleftrightarrow> c = CHR ''K'' \<or> c = CHR ''k''"
    "lower c = lower (CHR ''m'') \<longleftrightarrow> c = CHR ''M'' \<or> c = CHR ''m''"
    "lower c = lower (CHR ''g'') \<longleftrightarrow> c = CHR ''G'' \<or> c = CHR ''g''"
    "lower c = lower (CHR ''t'') \<longleftrightarrow> c = CHR ''T'' \<or> c = CHR ''t''"
    "lower c = lower (CHR ''b'') \<longleftrightarrow> c = CHR ''B'' \<or> c = CHR ''b''"
    "lower c = lower (CHR ''i'') \<longleftrightarrow> c = CHR ''I'' \<or> c = CHR ''i''"
    unfolding lower_eq_iff cv lit by auto
qed

lemma dec_checked_spec:
  "dec_checked a s =
     (let v = value_of 10 (uint a) (takeWhile is_digit s)
      in if v < 2 ^ 64 then Some (of_int v, dropWhile is_digit s) else None)"
proof (induction s arbitrary: a)
  case Nil
  then show ?case using uint_lt [of a] by (simp add: Let_def)
next
  case (Cons c s)
  show ?case
  proof (cases "is_digit c")
    case True
    let ?d = "schar c - 48" and ?ds = "takeWhile is_digit s"
    have d: "0 \<le> ?d" "?d < 10" "digit_of c = Some ?d"
      using True is_digit_digit_of [of c] by (auto simp: is_digit_def)
    have ge: "uint a * 10 + ?d \<le> value_of 10 (uint a * 10 + ?d) ?ds"
      using d by (intro value_of_ge) (auto simp: in_base_digit is_digit_digit_of is_digit_def dest!: set_takeWhileD)
    have over: "(- 1 - of_int ?d) div 10 < a \<longleftrightarrow> 2 ^ 64 - 1 < uint a * 10 + ?d"
      using digit_overflow_iff [OF d(1,2), of "- 1" a] by (simp add: uint_max)
    show ?thesis
    proof (cases "uint a * 10 + ?d < 2 ^ 64")
      case small: True
      then have "uint (a * 10 + of_int ?d) = uint a * 10 + ?d"
        using uint_mul_add [of ?d 10 a] d by simp
      then show ?thesis using Cons.IH [of "a * 10 + of_int ?d"] True small over d(3)
        by (simp add: Let_def del: of_int_diff)
    next
      case False
      then show ?thesis using ge True over d(3) by (auto simp: Let_def)
    qed
  next
    case False
    then show ?thesis using uint_lt [of a] by (simp add: Let_def)
  qed
qed

section \<open>Sizes\<close>

definition blanks :: "string \<Rightarrow> bool" where
  "blanks s \<longleftrightarrow> (\<forall>c \<in> set s. is_blank c)"

definition same_nocase :: "string \<Rightarrow> string \<Rightarrow> bool" where
  "same_nocase s t \<longleftrightarrow> map lower s = map lower t"

text \<open>The suffixes of sizes, with the number of bytes each stands for.\<close>

definition size_prefixes :: "(char \<times> int) list" where
  "size_prefixes = [(CHR ''k'', 2 ^ 10), (CHR ''m'', 2 ^ 20), (CHR ''g'', 2 ^ 30), (CHR ''t'', 2 ^ 40)]"

definition size_names :: "(string \<times> int) list" where
  "size_names = ([], 1) # (''b'', 1) #
     concat (map (\<lambda>(c, m). [([c], m), (c # ''b'', m), (c # ''ib'', m)]) size_prefixes)"

definition read_unit :: "string \<Rightarrow> u64 option" where
  "read_unit s = Option.bind (size_unit s) (\<lambda>(multiplier, has_prefix, s).
     Option.bind (size_suffix has_prefix s) (\<lambda>s. if skip_blank s \<noteq> [] then None else Some multiplier))"

lemma skip_blank_Nil: "skip_blank s = [] \<longleftrightarrow> blanks s"
  by (simp add: skip_blank_def blanks_def)

lemma same_nocase_Cons [simp]:
  "same_nocase [] t \<longleftrightarrow> t = []"
  "same_nocase t [] \<longleftrightarrow> t = []"
  "same_nocase (a # s) (b # t) \<longleftrightarrow> lower a = lower b \<and> same_nocase s t"
  by (auto simp: same_nocase_def)

lemma not_blank_letters: "is_blank c \<Longrightarrow> \<not> is_b c \<and> c \<noteq> CHR ''i'' \<and> c \<noteq> CHR ''I''"
  by (auto simp: is_blank_def is_b_def)

definition after_name :: "string \<Rightarrow> string \<Rightarrow> bool" where
  "after_name n s \<longleftrightarrow> (\<exists>suf ws. s = suf @ ws \<and> same_nocase suf n \<and> blanks ws)"

lemma after_name_simps [simp]:
  "after_name [] s \<longleftrightarrow> blanks s"
  "after_name (a # n) s \<longleftrightarrow> s \<noteq> [] \<and> lower (hd s) = lower a \<and> after_name n (tl s)"
proof -
  show "after_name [] s \<longleftrightarrow> blanks s" by (simp add: after_name_def)
  show "after_name (a # n) s \<longleftrightarrow> s \<noteq> [] \<and> lower (hd s) = lower a \<and> after_name n (tl s)"
  proof
    assume "after_name (a # n) s"
    then obtain suf ws where "s = suf @ ws" "same_nocase suf (a # n)" "blanks ws" by (auto simp: after_name_def)
    then show "s \<noteq> [] \<and> lower (hd s) = lower a \<and> after_name n (tl s)"
      by (cases suf) (auto simp: after_name_def)
  next
    assume "s \<noteq> [] \<and> lower (hd s) = lower a \<and> after_name n (tl s)"
    then obtain suf ws where "s \<noteq> []" "lower (hd s) = lower a" "tl s = suf @ ws" "same_nocase suf n" "blanks ws"
      by (auto simp: after_name_def)
    then have "s = (hd s # suf) @ ws" "same_nocase (hd s # suf) (a # n)" by (cases s, auto)+
    then show "after_name (a # n) s" using \<open>blanks ws\<close> unfolding after_name_def by blast
  qed
qed

lemma unit_values:
  "KIB 1 = of_int (2 ^ 10)" "MIB 1 = of_int (2 ^ 20)" "GIB 1 = of_int (2 ^ 30)" "TIB 1 = of_int (2 ^ 40)"
  by (simp_all add: KIB_def MIB_def GIB_def TIB_def)

lemma suffix_names:
  "(\<exists>s'. size_suffix True s = Some s' \<and> blanks s') \<longleftrightarrow>
     after_name [] s \<or> after_name ''b'' s \<or> after_name ''ib'' s"
proof (cases s)
  case (Cons c t)
  show ?thesis
  proof (cases t)
    case Nil
    then show ?thesis using Cons not_blank_letters [of c]
      by (auto simp: size_suffix_def is_b_def lower_letters blanks_def)
  next
    case (Cons d u)
    then show ?thesis using \<open>s = c # t\<close> not_blank_letters [of c]
      by (auto simp: size_suffix_def is_b_def lower_letters blanks_def)
  qed
qed (simp add: size_suffix_def blanks_def)

lemma read_unit_prefix:
  assumes "size_unit s = Some (m, p, t)"
  shows "read_unit s = Some k \<longleftrightarrow> k = m \<and> (\<exists>s'. size_suffix p t = Some s' \<and> blanks s')"
  using assms by (auto simp: read_unit_def Option.bind_eq_Some_conv skip_blank_Nil split: if_splits)

definition after_prefix :: "string \<Rightarrow> bool" where
  "after_prefix t \<longleftrightarrow> after_name [] t \<or> after_name ''b'' t \<or> after_name ''ib'' t"

lemma bex_size_names:
  "(\<exists>(n, k) \<in> set size_names. P n k) \<longleftrightarrow> P [] 1 \<or> P ''b'' 1 \<or>
     (\<exists>(a, k) \<in> set size_prefixes. P [a] k \<or> P (a # ''b'') k \<or> P (a # ''ib'') k)"
proof -
  have "(\<exists>(n, k) \<in> set (concat (map (\<lambda>(c, m). [([c], m), (c # ''b'', m), (c # ''ib'', m)]) ps)). P n k) \<longleftrightarrow>
      (\<exists>(a, k) \<in> set ps. P [a] k \<or> P (a # ''b'') k \<or> P (a # ''ib'') k)" for ps
    by (induction ps) auto
  then show ?thesis unfolding size_names_def by simp
qed

lemma after_size_names:
  "(\<exists>(n, k) \<in> set size_names. after_name n (c # t) \<and> m = of_int k) \<longleftrightarrow>
     blanks (c # t) \<and> m = 1 \<or> lower c = lower (CHR ''b'') \<and> blanks t \<and> m = 1 \<or>
     lower c = lower (CHR ''k'') \<and> after_prefix t \<and> m = KIB 1 \<or>
     lower c = lower (CHR ''m'') \<and> after_prefix t \<and> m = MIB 1 \<or>
     lower c = lower (CHR ''g'') \<and> after_prefix t \<and> m = GIB 1 \<or>
     lower c = lower (CHR ''t'') \<and> after_prefix t \<and> m = TIB 1"
  unfolding bex_size_names size_prefixes_def after_prefix_def unit_values after_name_simps(2)
  by (simp only: list.set bex_simps prod.case list.distinct list.sel simp_thms after_name_simps(1) of_int_1
      conj_disj_distribL conj_disj_distribR disj_assoc conj_assoc)

lemma read_unit_names:
  assumes "skip_blank s = s" "cstring s"
  shows "read_unit s = Some m \<longleftrightarrow> (\<exists>(n, k) \<in> set size_names. after_name n s \<and> m = of_int k)"
proof (cases s)
  case Nil
  then show ?thesis
    by (auto simp: read_unit_def size_unit_def size_suffix_def skip_blank_def blanks_def size_names_def)
next
  case (Cons c t)
  then have c: "\<not> is_blank c" "c \<noteq> NUL"
    using assms dropWhile_eq_self_iff [of is_blank s] by (auto simp: skip_blank_def cstring_def)
  have pre: "read_unit s = Some m \<longleftrightarrow> m = m0 \<and> after_prefix t"
    if "size_unit s = Some (m0, True, t)" for m0
    using read_unit_prefix [OF that] suffix_names [of t] by (simp only: after_prefix_def)
  have nb: "\<not> blanks (c # t)" using c by (simp add: blanks_def)
  have unit: "(c = CHR ''K'' \<or> c = CHR ''k'') \<and> size_unit s = Some (KIB 1, True, t) \<or>
      (c = CHR ''M'' \<or> c = CHR ''m'') \<and> size_unit s = Some (MIB 1, True, t) \<or>
      (c = CHR ''G'' \<or> c = CHR ''g'') \<and> size_unit s = Some (GIB 1, True, t) \<or>
      (c = CHR ''T'' \<or> c = CHR ''t'') \<and> size_unit s = Some (TIB 1, True, t) \<or>
      (c = CHR ''B'' \<or> c = CHR ''b'') \<and> size_unit s = Some (1, False, t) \<or>
      c \<notin> set ''KkMmGgTtBb'' \<and> size_unit s = None"
    using Cons c(2) by (simp add: size_unit_def)
  have B: "read_unit s = Some m \<longleftrightarrow> m = 1 \<and> blanks t" if "size_unit s = Some (1, False, t)"
    using read_unit_prefix [OF that] by (simp add: size_suffix_def)
  have N: "read_unit s = None" if "size_unit s = None" using that by (simp add: read_unit_def)
  have names: "(\<exists>(n, k) \<in> set size_names. after_name n s \<and> m = of_int k) \<longleftrightarrow>
      (c = CHR ''B'' \<or> c = CHR ''b'') \<and> blanks t \<and> m = 1 \<or>
      (c = CHR ''K'' \<or> c = CHR ''k'') \<and> after_prefix t \<and> m = KIB 1 \<or>
      (c = CHR ''M'' \<or> c = CHR ''m'') \<and> after_prefix t \<and> m = MIB 1 \<or>
      (c = CHR ''G'' \<or> c = CHR ''g'') \<and> after_prefix t \<and> m = GIB 1 \<or>
      (c = CHR ''T'' \<or> c = CHR ''t'') \<and> after_prefix t \<and> m = TIB 1"
    unfolding Cons after_size_names lower_letters using nb by (simp only: simp_thms)
  show ?thesis unfolding names using unit by (elim disjE conjE) (simp_all add: pre B N conj_commute)
qed

section \<open>Quantities: a number and a unit\<close>

text \<open>
  The texts both quantity parsers accept: blanks, a decimal number, blanks, the name of a
  unit in any case, blanks. The value is exact; a value of \<open>2^64\<close> or more is not accepted.
\<close>

definition quantity :: "(string \<times> int) list \<Rightarrow> string \<Rightarrow> u64 \<Rightarrow> bool" where
  "quantity names s r \<longleftrightarrow>
     (\<exists>ws ds ws' suf ws''. s = ws @ ds @ ws' @ suf @ ws'' \<and> blanks ws \<and> blanks ws' \<and> blanks ws'' \<and>
        ds \<noteq> [] \<and> (\<forall>c \<in> set ds. is_digit c) \<and>
        (\<exists>(n, k) \<in> set names. same_nocase suf n \<and> value_of 10 0 ds * k < 2 ^ 64 \<and>
           r = of_int (value_of 10 0 ds * k)))"

definition unit_names :: "(string \<times> int) list \<Rightarrow> bool" where
  "unit_names names \<longleftrightarrow>
     (\<forall>(n, k) \<in> set names. 1 \<le> k \<and> k < 2 ^ 63 \<and> (n \<noteq> [] \<longrightarrow> 97 \<le> cval (hd n) \<and> cval (hd n) \<le> 122))"

lemma letter_not_digit:
  assumes "lower c = lower a" "97 \<le> cval a" "cval a \<le> 122"
  shows "\<not> is_digit c" "\<not> is_blank c"
proof -
  have "65 \<le> cval c" "cval c \<le> 122" using assms unfolding lower_eq_iff by (auto split: if_splits)
  then show "\<not> is_digit c" "\<not> is_blank c"
    by (auto simp: is_digit_def is_blank_def schar_def cval_def)
qed

lemma blank_not_digit: "is_blank c \<Longrightarrow> \<not> is_digit c"
  using not_sign_or_blank by blast

lemma after_name_skip:
  assumes "blanks ws" "blanks ws''" "same_nocase suf n" "n \<noteq> [] \<longrightarrow> 97 \<le> cval (hd n) \<and> cval (hd n) \<le> 122"
  shows "after_name n (skip_blank (ws @ suf @ ws''))"
    and "takeWhile is_digit (ws @ suf @ ws'') = []" "dropWhile is_digit (ws @ suf @ ws'') = ws @ suf @ ws''"
proof -
  have suf: "\<not> is_digit (hd suf) \<and> \<not> is_blank (hd suf)" if "suf \<noteq> []"
    using that assms(3,4) letter_not_digit [of "hd suf" "hd n"] by (cases suf; cases n) auto
  have "is_digit (hd (ws @ suf @ ws'')) \<Longrightarrow> ws @ suf @ ws'' = []"
    using assms(1,2) suf blank_not_digit
    by (cases ws; cases suf; cases ws'') (auto simp: blanks_def)
  then show "takeWhile is_digit (ws @ suf @ ws'') = []" "dropWhile is_digit (ws @ suf @ ws'') = ws @ suf @ ws''"
    by (cases "ws @ suf @ ws''"; auto)+
  have "skip_blank (ws @ suf @ ws'') = (if suf = [] then [] else suf @ ws'')"
    using assms(1,2) suf by (cases suf) (auto simp: skip_blank_def blanks_def dropWhile_append)
  then show "after_name n (skip_blank (ws @ suf @ ws''))"
    using assms(2,3) unfolding after_name_def by (cases "suf = []") (auto simp: blanks_def)
qed

lemma quantity_split:
  assumes "unit_names names"
  shows "quantity names s r \<longleftrightarrow>
    (let t = skip_blank s; ds = takeWhile is_digit t
     in ds \<noteq> [] \<and> (\<exists>(n, k) \<in> set names. after_name n (skip_blank (dropWhile is_digit t)) \<and>
          value_of 10 0 ds * k < 2 ^ 64 \<and> r = of_int (value_of 10 0 ds * k)))"
    (is "_ \<longleftrightarrow> ?R")
proof
  assume "quantity names s r"
  then obtain ws ds ws' suf ws'' n k where s: "s = ws @ ds @ ws' @ suf @ ws''"
    and b: "blanks ws" "blanks ws'" "blanks ws''" "ds \<noteq> []" "\<forall>c \<in> set ds. is_digit c"
    and n: "(n, k) \<in> set names" "same_nocase suf n"
    and r: "value_of 10 0 ds * k < 2 ^ 64" "r = of_int (value_of 10 0 ds * k)"
    unfolding quantity_def by blast
  have "n \<noteq> [] \<longrightarrow> 97 \<le> cval (hd n) \<and> cval (hd n) \<le> 122" using assms n(1) by (auto simp: unit_names_def)
  note a = after_name_skip [OF b(2,3) n(2) this]
  have "skip_blank s = ds @ ws' @ suf @ ws''"
    using b blank_not_digit unfolding s skip_blank_def blanks_def by (cases ds) auto
  then have "takeWhile is_digit (skip_blank s) = ds" "dropWhile is_digit (skip_blank s) = ws' @ suf @ ws''"
    using b(5) a(2,3) by simp_all
  then show ?R using a(1) n(1) r b(4) by (auto simp: Let_def)
next
  define t where "t = skip_blank s"
  define ds where "ds = takeWhile is_digit t"
  define d where "d = dropWhile is_digit t"
  assume ?R
  then obtain n k where b: "ds \<noteq> []" and n: "(n, k) \<in> set names" "after_name n (skip_blank d)"
    and r: "value_of 10 0 ds * k < 2 ^ 64" "r = of_int (value_of 10 0 ds * k)"
    unfolding Let_def t_def [symmetric] ds_def [symmetric] d_def [symmetric] by blast
  from n(2) obtain suf ws'' where u: "skip_blank d = suf @ ws''" "same_nocase suf n" "blanks ws''"
    unfolding after_name_def by blast
  have "s = takeWhile is_blank s @ t" "t = ds @ d" "d = takeWhile is_blank d @ skip_blank d"
    by (simp_all add: t_def ds_def d_def skip_blank_def)
  then have s: "s = takeWhile is_blank s @ ds @ takeWhile is_blank d @ suf @ ws''"
    using u(1) by (metis append_assoc)
  have tw: "blanks (takeWhile is_blank x)" for x by (auto simp: blanks_def dest: set_takeWhileD)
  have ds: "\<forall>c \<in> set ds. is_digit c" by (auto simp: ds_def dest: set_takeWhileD)
  have "\<exists>(n, k) \<in> set names. same_nocase suf n \<and> value_of 10 0 ds * k < 2 ^ 64 \<and>
      r = of_int (value_of 10 0 ds * k)" using n(1) u(2) r by blast
  then show "quantity names s r" unfolding quantity_def using s tw u(3) b ds by blast
qed

lemma first_digit: "is_digit (peek t) \<longleftrightarrow> takeWhile is_digit t \<noteq> []"
  by (cases t) auto

lemma digits_value_nonneg: "0 \<le> value_of 10 0 (takeWhile is_digit t)"
  using value_of_bound [of "takeWhile is_digit t" 0] by (auto dest: set_takeWhileD)

lemma size_product:
  assumes "0 \<le> v" "1 \<le> k" "k < 2 ^ 63"
  defines "x \<equiv> of_int v :: u64" and "m \<equiv> of_int k :: u64"
  shows "v < 2 ^ 64 \<and> \<not> (1 < m \<and> x * m div m \<noteq> x) \<longleftrightarrow> v * k < 2 ^ 64"
proof (cases "v < 2 ^ 64")
  case True
  then have u: "uint x = v" "uint m = k" using assms(1-3) unfolding x_def m_def by (simp_all add: uint_small)
  have p: "uint (x * m) = v * k mod 2 ^ 64" using u by (simp add: uint_word_ariths)
  have one: "1 < m \<longleftrightarrow> 1 < k" using u by (simp add: word_less_def)
  have q: "x * m div m = x \<longleftrightarrow> v * k mod 2 ^ 64 div k = v"
    using u p uint_inject [of "x * m div m" x] by (simp only: uint_div)
  show ?thesis
  proof (cases "v * k < 2 ^ 64")
    case small: True
    then have "v * k mod 2 ^ 64 = v * k" using assms(1,2) by simp
    then show ?thesis using True small q assms(2) by simp
  next
    case False
    then have "k \<noteq> 1" using True by auto
    have "v * k mod 2 ^ 64 < v * k" using False
      by (intro less_le_trans [OF pos_mod_bound]) simp_all
    then have "v * k mod 2 ^ 64 div k < v" using int_div_less_iff [of k] assms(2) by simp
    then show ?thesis using False q one \<open>k \<noteq> 1\<close> assms(2) by simp
  qed
next
  case False
  moreover have "v \<le> v * k" using mult_left_mono [OF assms(2,1)] by (simp only: mult_1_right)
  ultimately show ?thesis by linarith
qed

lemma size_names_ok: "unit_names size_names"
  by (simp add: unit_names_def size_names_def size_prefixes_def cval_def)

lemma parse_data_size_read:
  "parse_data_size_internal s =
     (let t = skip_blank s; ds = takeWhile is_digit t; v = value_of 10 0 ds
      in if ds = [] \<or> 2 ^ 64 \<le> v then None
         else Option.bind (read_unit (skip_blank (dropWhile is_digit t))) (\<lambda>m.
           if 1 < m \<and> of_int v * m div m \<noteq> of_int v then None else Some (of_int v * m)))"
proof -
  have "skip_blank [] = []" by (simp add: skip_blank_def)
  then show ?thesis
    by (auto simp: parse_data_size_internal_def first_digit dec_checked_spec read_unit_def Let_def
        intro!: Option.bind_cong split: if_splits prod.splits)
qed

text \<open>
  C21. \<open>parse_is_data_size\<close> accepts exactly the quantities in the size units and returns the
  exact number of bytes: every other text, and every size of \<open>2^64\<close> bytes or more, is rejected.
\<close>

theorem parse_data_size_exact:
  assumes "cstring s"
  shows "parse_is_data_size s = Some r \<longleftrightarrow> quantity size_names s r"
proof -
  define t where "t = skip_blank s"
  define ds where "ds = takeWhile is_digit t"
  define u where "u = skip_blank (dropWhile is_digit t)"
  define v where "v = value_of 10 0 ds"
  have v: "0 \<le> v" unfolding v_def ds_def by (rule digits_value_nonneg)
  have "set u \<subseteq> set s" unfolding u_def t_def skip_blank_def by (auto dest!: set_dropWhileD)
  then have "cstring u" using assms by (auto simp: cstring_def)
  moreover have "skip_blank u = u" by (simp add: u_def skip_blank_def)
  ultimately have names: "read_unit u = Some m \<longleftrightarrow> (\<exists>(n, k) \<in> set size_names. after_name n u \<and> m = of_int k)" for m
    by (intro read_unit_names)
  have "parse_is_data_size s = Some r \<longleftrightarrow> ds \<noteq> [] \<and> v < 2 ^ 64 \<and>
      (\<exists>m. read_unit u = Some m \<and> \<not> (1 < m \<and> of_int v * m div m \<noteq> of_int v) \<and> r = of_int v * m)"
    unfolding parse_is_data_size_def parse_data_size_read Let_def t_def [symmetric] ds_def [symmetric]
      v_def [symmetric] u_def [symmetric] by (auto simp: Option.bind_eq_Some_conv split: if_splits)
  also have "\<dots> \<longleftrightarrow> ds \<noteq> [] \<and> v < 2 ^ 64 \<and> (\<exists>(n, k) \<in> set size_names. after_name n u \<and>
      \<not> (1 < (of_int k :: u64) \<and> of_int v * of_int k div of_int k \<noteq> (of_int v :: u64)) \<and> r = of_int v * of_int k)"
    unfolding names by blast
  also have "\<dots> \<longleftrightarrow> ds \<noteq> [] \<and> (\<exists>(n, k) \<in> set size_names. after_name n u \<and> v * k < 2 ^ 64 \<and> r = of_int (v * k))"
  proof -
    have "1 \<le> k \<and> k < 2 ^ 63" if "(n, k) \<in> set size_names" for n k
      using that size_names_ok by (auto simp: unit_names_def)
    then have "v < 2 ^ 64 \<and> \<not> (1 < (of_int k :: u64) \<and> of_int v * of_int k div of_int k \<noteq> (of_int v :: u64))
        \<longleftrightarrow> v * k < 2 ^ 64" if "(n, k) \<in> set size_names" for n k
      using that size_product [OF v, of k] by blast
    then show ?thesis by auto
  qed
  finally show ?thesis unfolding quantity_split [OF size_names_ok] Let_def t_def [symmetric]
      ds_def [symmetric] v_def [symmetric] u_def [symmetric] .
qed

theorem parse_data_size_exact_witness: "parse_is_data_size '' 16 MiB'' = Some 16777216"
proof -
  have "quantity size_names '' 16 MiB'' 16777216" unfolding quantity_def
    by (rule exI [of _ "'' ''"], rule exI [of _ "''16''"], rule exI [of _ "'' ''"], rule exI [of _ "''MiB''"],
        rule exI [of _ "[]"])
      (simp add: blanks_def is_blank_def is_digit_def schar_def cval_def size_names_def size_prefixes_def
        lower_letters digit_of_def)
  then show ?thesis using parse_data_size_exact [of "'' 16 MiB''" 16777216] by simp
qed

section \<open>Durations\<close>

definition time_names :: "(string \<times> int) list" where
  "time_names =
     [([], 1), (''ns'', 1), (''us'', 10 ^ 3), (''ms'', 10 ^ 6)] @
     map (\<lambda>n. (n, 10 ^ 9)) [''s'', ''sec'', ''secs'', ''second'', ''seconds''] @
     map (\<lambda>n. (n, 60 * 10 ^ 9)) [''m'', ''min'', ''mins'', ''minute'', ''minutes''] @
     map (\<lambda>n. (n, 3600 * 10 ^ 9)) [''h'', ''hr'', ''hrs'', ''hour'', ''hours''] @
     map (\<lambda>n. (n, 86400 * 10 ^ 9)) [''d'', ''day'', ''days'']"

lemma time_names_ok: "unit_names time_names"
  by (simp add: unit_names_def time_names_def cval_def)

lemma unit_is_same:
  assumes "cstring s" "cstring n" "len \<le> length s"
  shows "unit_is s len n \<longleftrightarrow> same_nocase (take len s) n"
proof -
  have "map lower (take len s) = map lower n \<Longrightarrow> len = length n"
    using assms(3) by (metis length_map length_take min.absorb2)
  then show ?thesis using strncasecmp_eq_0 [OF assms(1,2)] by (auto simp: unit_is_def same_nocase_def)
qed


definition lower_names :: "(string \<times> int) list \<Rightarrow> (u32 list \<times> int) list" where
  "lower_names names = map (\<lambda>(n, k). (map lower n, k)) names"

lemma time_names_distinct: "distinct (map fst (lower_names time_names))"
  by (simp add: lower_names_def time_names_def lower_eq_iff cval_def)

lemma if_or: "(if a \<or> b then x else y) = (if a then x else if b then x else y)"
  by simp

lemma time_unit_map_of:
  assumes "cstring s" "len \<le> length s"
  shows "time_unit s len = map_option of_int (map_of (lower_names time_names) (map lower (take len s)))"
proof -
  have u: "unit_is s len n \<longleftrightarrow> map lower (take len s) = map lower n" if "cstring n" for n
    using unit_is_same [OF assms(1) that assms(2)] by (simp add: same_nocase_def)
  have z: "len = 0 \<longleftrightarrow> map lower (take len s) = []" using assms(2) by auto
  have if_map: "map_option f (if b then x else y) = (if b then map_option f x else map_option f y)"
    for f :: "int \<Rightarrow> u64" and b x y by simp
  have fu: "(m(a \<mapsto> b)) x = (if x = a then Some b else m x)" for m :: "u32 list \<rightharpoonup> int" and a b x by simp
  show ?thesis
    unfolding time_unit_def lower_names_def time_names_def z if_or
    by (simp only: append.simps list.map prod.case map_of.simps fst_conv snd_conv fu if_map option.map) (simp add: u)
qed

abbreviation nonblank :: "char \<Rightarrow> bool" where
  "nonblank c \<equiv> \<not> is_blank c"

lemma time_names_letters: "(n, k) \<in> set time_names \<Longrightarrow> \<forall>c \<in> set n. 97 \<le> cval c \<and> cval c \<le> 122"
proof -
  have "list_all (\<lambda>(n, k). list_all (\<lambda>c. 97 \<le> cval c \<and> cval c \<le> 122) n) time_names"
    by (simp add: time_names_def cval_def)
  then show "(n, k) \<in> set time_names \<Longrightarrow> \<forall>c \<in> set n. 97 \<le> cval c \<and> cval c \<le> 122"
    by (auto simp: list_all_iff)
qed

lemma same_nocase_nonblank:
  assumes "same_nocase s n" "\<forall>c \<in> set n. 97 \<le> cval c \<and> cval c \<le> 122"
  shows "\<forall>c \<in> set s. nonblank c"
  using assms
proof (induction s arbitrary: n)
  case (Cons c s)
  then obtain a m where n: "n = a # m" by (cases n) auto
  then show ?case using Cons letter_not_digit(2) [of c a] by auto
qed simp

lemma after_name_word:
  assumes "\<forall>c \<in> set n. 97 \<le> cval c \<and> cval c \<le> 122"
  shows "after_name n u \<longleftrightarrow> same_nocase (takeWhile nonblank u) n \<and> blanks (dropWhile nonblank u)"
proof
  assume "after_name n u"
  then obtain suf ws where u: "u = suf @ ws" "same_nocase suf n" "blanks ws" by (auto simp: after_name_def)
  have "takeWhile nonblank ws = []" "dropWhile nonblank ws = ws" using u(3) by (cases ws; simp add: blanks_def)+
  then show "same_nocase (takeWhile nonblank u) n \<and> blanks (dropWhile nonblank u)"
    using u same_nocase_nonblank [OF u(2) assms] by simp
next
  assume "same_nocase (takeWhile nonblank u) n \<and> blanks (dropWhile nonblank u)"
  then show "after_name n u" unfolding after_name_def by (metis takeWhile_dropWhile_id)
qed

lemma map_of_names:
  "map_of (lower_names time_names) (map lower x) = Some k \<longleftrightarrow> (\<exists>n. (n, k) \<in> set time_names \<and> same_nocase x n)"
  unfolding map_of_eq_Some_iff [OF time_names_distinct] by (auto simp: lower_names_def same_nocase_def)

lemma parse_duration_read:
  assumes "cstring s"
  shows "parse_duration_internal s =
     (let t = skip_blank s; ds = takeWhile is_digit t; v = value_of 10 0 ds; u = skip_blank (dropWhile is_digit t)
      in if ds = [] \<or> 2 ^ 64 \<le> v \<or> \<not> blanks (dropWhile nonblank u) then None
         else Option.bind (map_of (lower_names time_names) (map lower (takeWhile nonblank u))) (\<lambda>k.
           if 0 < (of_int k :: u64) \<and> (- 1) div of_int k < (of_int v :: u64) then None else Some (of_int v * of_int k)))"
proof -
  define t where "t = skip_blank s"
  define u where "u = skip_blank (dropWhile is_digit t)"
  have "set u \<subseteq> set s" unfolding u_def t_def skip_blank_def by (auto dest!: set_dropWhileD)
  then have c: "cstring u" using assms by (auto simp: cstring_def)
  have tk: "take (length (takeWhile nonblank u)) u = takeWhile nonblank u"
    "drop (length (takeWhile nonblank u)) u = dropWhile nonblank u"
    by (simp_all add: takeWhile_eq_take [symmetric] dropWhile_eq_drop [symmetric])
  note unit = time_unit_map_of [OF c length_takeWhile_le [of nonblank], unfolded tk]
  have "s = [] \<Longrightarrow> t = []" by (simp add: t_def skip_blank_def)
  then show ?thesis
    unfolding parse_duration_internal_def Let_def t_def [symmetric] first_digit
    by (auto simp: dec_checked_spec Let_def u_def [symmetric] unit tk skip_blank_Nil bind_map_option o_def
        split: if_splits)
qed

lemma duration_product:
  assumes "0 \<le> v" "1 \<le> k" "k < 2 ^ 63"
  shows "v < 2 ^ 64 \<and> \<not> (0 < (of_int k :: u64) \<and> (- 1) div of_int k < (of_int v :: u64)) \<longleftrightarrow> v * k < 2 ^ 64"
proof (cases "v < 2 ^ 64")
  case True
  then have u: "uint (of_int v :: u64) = v" "uint (of_int k :: u64) = k" using assms by (simp_all add: uint_small)
  then have "0 < (of_int k :: u64)" using assms(2) by (simp add: word_less_def)
  moreover have "(- 1) div of_int k < (of_int v :: u64) \<longleftrightarrow> (2 ^ 64 - 1) div k < v"
    unfolding word_less_def uint_div u uint_max ..
  ultimately show ?thesis using True assms(2) int_div_less_iff [of k "2 ^ 64 - 1" v] by auto
next
  case False
  moreover have "v \<le> v * k" using mult_left_mono [OF assms(2,1)] by (simp only: mult_1_right)
  ultimately show ?thesis by linarith
qed

text \<open>
  C22. \<open>parse_is_duration\<close> accepts exactly the quantities in the time units and returns the
  exact number of nanoseconds: every other text, and every duration of \<open>2^64\<close> nanoseconds or
  more, is rejected.
\<close>

theorem parse_duration_exact:
  assumes "cstring s"
  shows "parse_is_duration s = Some r \<longleftrightarrow> quantity time_names s r"
proof -
  define t where "t = skip_blank s"
  define ds where "ds = takeWhile is_digit t"
  define u where "u = skip_blank (dropWhile is_digit t)"
  define v where "v = value_of 10 0 ds"
  have v: "0 \<le> v" unfolding v_def ds_def by (rule digits_value_nonneg)
  have "parse_is_duration s = Some r \<longleftrightarrow> ds \<noteq> [] \<and> (\<exists>(n, k) \<in> set time_names.
      same_nocase (takeWhile nonblank u) n \<and> blanks (dropWhile nonblank u) \<and>
      (v < 2 ^ 64 \<and> \<not> (0 < (of_int k :: u64) \<and> (- 1) div of_int k < (of_int v :: u64))) \<and> r = of_int v * of_int k)"
    unfolding parse_is_duration_def parse_duration_read [OF assms] Let_def t_def [symmetric] ds_def [symmetric]
      v_def [symmetric] u_def [symmetric]
    by (auto simp: Option.bind_eq_Some_conv map_of_names split: if_splits)
  also have "\<dots> \<longleftrightarrow> ds \<noteq> [] \<and> (\<exists>(n, k) \<in> set time_names. after_name n u \<and> v * k < 2 ^ 64 \<and> r = of_int (v * k))"
  proof -
    have k: "1 \<le> k \<and> k < 2 ^ 63" if "(n, k) \<in> set time_names" for n k
      using that time_names_ok by (auto simp: unit_names_def)
    have "(same_nocase (takeWhile nonblank u) n \<and> blanks (dropWhile nonblank u) \<and>
      (v < 2 ^ 64 \<and> \<not> (0 < (of_int k :: u64) \<and> (- 1) div of_int k < (of_int v :: u64))) \<and> r = of_int v * of_int k)
      \<longleftrightarrow> after_name n u \<and> v * k < 2 ^ 64 \<and> r = of_int (v * k)" if "(n, k) \<in> set time_names" for n k
      unfolding after_name_word [OF time_names_letters [OF that]]
      using duration_product [OF v, of k] k [OF that] by (simp only: of_int_mult) blast
    then show ?thesis by (auto simp del: of_int_mult)
  qed
  finally show ?thesis unfolding quantity_split [OF time_names_ok] Let_def t_def [symmetric]
      ds_def [symmetric] v_def [symmetric] u_def [symmetric] .
qed

theorem parse_duration_exact_witness: "parse_is_duration ''250 ms'' = Some 250000000"
proof -
  have "quantity time_names ''250 ms'' 250000000" unfolding quantity_def
    by (rule exI [of _ "[]"], rule exI [of _ "''250''"], rule exI [of _ "'' ''"], rule exI [of _ "''ms''"],
        rule exI [of _ "[]"])
      (simp add: blanks_def is_blank_def is_digit_def schar_def cval_def time_names_def digit_of_def)
  then show ?thesis using parse_duration_exact [of "''250 ms''" 250000000] by simp
qed

section \<open>CPU lists\<close>

text \<open>
  The syntax of a CPU list: numbers and ranges separated by commas. A range is given by the
  digits of its first CPU and, where it has one, of its last.
\<close>

type_synonym cpu_range = "string \<times> string option"

fun range_text :: "cpu_range \<Rightarrow> string" where
  "range_text (a, None) = a"
| "range_text (a, Some b) = a @ CHR ''-'' # b"

definition first_cpu :: "cpu_range \<Rightarrow> int" where
  "first_cpu r = value_of 10 0 (fst r)"

definition last_cpu :: "cpu_range \<Rightarrow> int" where
  "last_cpu r = (case snd r of None \<Rightarrow> value_of 10 0 (fst r) | Some b \<Rightarrow> value_of 10 0 b)"

definition number :: "string \<Rightarrow> bool" where
  "number ds \<longleftrightarrow> ds \<noteq> [] \<and> (\<forall>c \<in> set ds. is_digit c)"

definition range_ok :: "nat \<Rightarrow> cpu_range \<Rightarrow> bool" where
  "range_ok n r \<longleftrightarrow> number (fst r) \<and> (\<forall>b. snd r = Some b \<longrightarrow> number b) \<and>
     first_cpu r \<le> last_cpu r \<and> last_cpu r < int n"

fun ranges_text :: "cpu_range list \<Rightarrow> string" where
  "ranges_text [] = []"
| "ranges_text [r] = range_text r"
| "ranges_text (r # rs) = range_text r @ CHR '','' # ranges_text rs"

lemma dec_unchecked_ipart: "dec_unchecked v s = fx_ipart v s"
  by (induction v s rule: dec_unchecked.induct) simp_all

lemma sep_not_digit: "\<not> is_digit (CHR '','')" "\<not> is_digit (CHR ''-'')"
  by (simp_all add: is_digit_def schar_def cval_def)

lemma split_number:
  assumes "is_digit (peek s)"
  obtains ds rest where "s = ds @ rest" "number ds" "\<not> is_digit (peek rest)"
proof
  show "s = takeWhile is_digit s @ dropWhile is_digit s" by simp
  show "number (takeWhile is_digit s)" using assms by (auto simp: number_def first_digit dest: set_takeWhileD)
  show "\<not> is_digit (peek (dropWhile is_digit s))"
    by (induction s) auto
qed

lemma dec_checked_number:
  assumes "number ds" "\<not> is_digit (peek rest)"
  shows "dec_checked 0 (ds @ rest) =
    (if value_of 10 0 ds < 2 ^ 64 then Some (of_int (value_of 10 0 ds), rest) else None)"
proof -
  have "takeWhile is_digit rest = []" "dropWhile is_digit rest = rest" using assms(2) by (cases rest; simp)+
  then show ?thesis using assms(1) by (simp add: dec_checked_spec number_def Let_def)
qed

lemma dec_unchecked_number:
  assumes "number ds" "\<not> is_digit (peek rest)"
  shows "dec_unchecked 0 (ds @ rest) = (of_int (value_of 10 0 ds), rest)"
  using fx_ipart_value [of ds rest 0] assms by (cases rest) (simp_all add: dec_unchecked_ipart number_def)

lemma number_nonneg: "number ds \<Longrightarrow> 0 \<le> value_of 10 0 ds"
  using value_of_bound [of ds 0] by (simp add: number_def)

lemma number_peek: "number ds \<Longrightarrow> is_digit (peek (ds @ rest)) \<and> ds \<noteq> []"
  by (cases ds) (auto simp: number_def)

lemma unat_of_int_small: "0 \<le> v \<Longrightarrow> v < 2 ^ 64 \<Longrightarrow> unat (of_int v :: u64) = nat v"
  by (simp add: unat_eq_nat_uint uint_small)

lemma of_int_less_iff64:
  "0 \<le> v \<Longrightarrow> v < 2 ^ 64 \<Longrightarrow> 0 \<le> w \<Longrightarrow> w < 2 ^ 64 \<Longrightarrow> (of_int v :: u64) < of_int w \<longleftrightarrow> v < w"
  by (simp add: word_less_def uint_small)

text \<open>What follows an item: nothing, or a comma and more text.\<close>

definition item_rest :: "string \<Rightarrow> string \<Rightarrow> bool" where
  "item_rest rest q \<longleftrightarrow> rest = [] \<and> q = [] \<or> q \<noteq> [] \<and> rest = CHR '','' # q"

lemma cpu_item_range:
  assumes "int n < 2 ^ 64" "range_ok n r" "item_rest rest q"
  shows "cpu_item n (range_text r @ rest) = Some q"
proof -
  obtain a b where r: "r = (a, b)" by force
  have rest: "\<not> is_digit (peek rest)" "peek rest \<noteq> CHR ''-''"
    using assms(3) sep_not_digit by (auto simp: item_rest_def)
  have tail: "(if peek rest = CHR '','' then (if tl rest = [] then None else Some (tl rest))
      else if rest \<noteq> [] then None else Some rest) = Some q" using assms(3) by (auto simp: item_rest_def)
  have a: "number a" using assms(2) r by (simp add: range_ok_def)
  show ?thesis
  proof (cases b)
    case None
    have v: "0 \<le> value_of 10 0 a" "value_of 10 0 a < int n"
      using assms(2) r None number_nonneg [OF a] by (auto simp: range_ok_def last_cpu_def)
    then have "value_of 10 0 a < 2 ^ 64" using assms(1) by linarith
    then show ?thesis using r None a rest v tail unfolding cpu_item_def
      by (simp add: number_peek dec_checked_number unat_of_int_small not_le)
  next
    case (Some c)
    have c: "number c" using assms(2) r Some by (simp add: range_ok_def)
    have v: "0 \<le> value_of 10 0 a" "value_of 10 0 a \<le> value_of 10 0 c" "value_of 10 0 c < int n"
      using assms(2) r Some number_nonneg [OF a] by (auto simp: range_ok_def last_cpu_def first_cpu_def)
    then have "value_of 10 0 c < 2 ^ 64" "value_of 10 0 a < 2 ^ 64" using assms(1) by linarith+
    then show ?thesis using r Some a c rest v tail sep_not_digit number_nonneg [OF c] unfolding cpu_item_def
      by (simp add: number_peek dec_checked_number unat_of_int_small not_le of_int_less_iff64 not_less)
  qed
qed

lemma cpu_item_text:
  assumes "cpu_item n s = Some q"
  shows "\<exists>r rest. s = range_text r @ rest \<and> range_ok n r \<and> item_rest rest q"
proof -
  have d: "is_digit (peek s)" using assms by (simp add: cpu_item_def split: if_splits)
  obtain a p where a: "s = a @ p" "number a" "\<not> is_digit (peek p)" using split_number [OF d] .
  define v where "v = value_of 10 0 a"
  have v0: "0 \<le> v" unfolding v_def by (rule number_nonneg) (rule a(2))
  have v: "v < 2 ^ 64" "dec_checked 0 s = Some (of_int v, p)"
    using assms d a dec_checked_number [OF a(2,3)] by (auto simp: cpu_item_def v_def split: if_splits)
  show ?thesis
  proof (cases "peek p = CHR ''-''")
    case True
    then obtain p' where p: "p = CHR ''-'' # p'" by (cases p) auto
    have d': "is_digit (peek p')" using assms d v(2) True p by (auto simp: cpu_item_def split: if_splits)
    obtain b t where b: "p' = b @ t" "number b" "\<not> is_digit (peek t)" using split_number [OF d'] .
    define w where "w = value_of 10 0 b"
    have w0: "0 \<le> w" unfolding w_def by (rule number_nonneg) (rule b(2))
    have w: "w < 2 ^ 64" "dec_checked 0 p' = Some (of_int w, t)"
      using assms d d' v(2) True p b dec_checked_number [OF b(2,3)] by (auto simp: cpu_item_def w_def split: if_splits)
    have "\<not> w < v" "w < int n" "item_rest t q"
      using assms d d' v(2) True p w v(1) v0 w0
      by (auto simp: cpu_item_def item_rest_def of_int_less_iff64 unat_of_int_small nat_less_iff not_le
          split: if_splits; cases t; auto)+
    then have "s = range_text (a, Some b) @ t \<and> range_ok n (a, Some b) \<and> item_rest t q"
      using a b p by (simp add: range_ok_def first_cpu_def last_cpu_def v_def w_def)
    then show ?thesis by blast
  next
    case False
    then have "v < int n" "item_rest p q"
      using assms d v v0
      by (auto simp: cpu_item_def item_rest_def unat_of_int_small not_le split: if_splits; cases p; auto)+
    then have "s = range_text (a, None) @ p \<and> range_ok n (a, None) \<and> item_rest p q"
      using a by (simp add: range_ok_def first_cpu_def last_cpu_def v_def)
    then show ?thesis by blast
  qed
qed

lemma ranges_text_Cons: "rs \<noteq> [] \<Longrightarrow> ranges_text (r # rs) = range_text r @ CHR '','' # ranges_text rs"
  by (cases rs) auto

lemma range_text_nonempty: "range_ok n r \<Longrightarrow> range_text r \<noteq> []"
  by (cases r rule: range_text.cases) (auto simp: range_ok_def number_def)

lemma ranges_text_nonempty: "rs \<noteq> [] \<Longrightarrow> \<forall>r \<in> set rs. range_ok n r \<Longrightarrow> ranges_text rs \<noteq> []"
  using range_text_nonempty by (cases rs rule: ranges_text.cases) auto

definition ranges_of :: "nat \<Rightarrow> string \<Rightarrow> cpu_range list \<Rightarrow> bool" where
  "ranges_of n s rs \<longleftrightarrow> rs \<noteq> [] \<and> (\<forall>r \<in> set rs. range_ok n r) \<and> s = ranges_text rs"

lemma ranges_of_Cons:
  assumes "ranges_of n s (r # rs)"
  obtains rest q where "range_ok n r" "s = range_text r @ rest" "item_rest rest q" "q = ranges_text rs"
    "rs \<noteq> [] \<longrightarrow> ranges_of n q rs"
proof (cases rs)
  case Nil
  then show ?thesis using assms that [of "[]" "[]"] by (auto simp: ranges_of_def item_rest_def)
next
  case (Cons r' rs')
  then have rs: "rs \<noteq> []" by simp
  then show ?thesis using assms that [of "CHR '','' # ranges_text rs" "ranges_text rs"] ranges_text_nonempty [OF rs, of n]
    by (auto simp: ranges_of_def item_rest_def ranges_text_Cons)
qed

lemma cpu_mask_valid_iff:
  assumes "int n < 2 ^ 64" "s \<noteq> []"
  shows "cpu_mask_valid n s \<longleftrightarrow> (\<exists>rs. ranges_of n s rs)"
  using assms(2)
proof (induction "length s" arbitrary: s rule: less_induct)
  case less
  show ?case
  proof
    assume v: "cpu_mask_valid n s"
    then obtain q where q: "cpu_item n s = Some q" "cpu_mask_valid n q"
      using less.prems by (subst (asm) cpu_mask_valid.simps) (auto split: option.splits)
    obtain r rest where r: "s = range_text r @ rest" "range_ok n r" "item_rest rest q"
      using cpu_item_text [OF q(1)] by blast
    show "\<exists>rs. ranges_of n s rs"
    proof (cases "q = []")
      case True
      then have "ranges_of n s [r]" using r by (simp add: ranges_of_def item_rest_def)
      then show ?thesis by blast
    next
      case False
      then obtain rs where "ranges_of n q rs"
        using less.hyps [OF cpu_item_shorter [OF q(1) less.prems]] q(2) by blast
      then have "ranges_of n s (r # rs)" using r False by (auto simp: ranges_of_def item_rest_def ranges_text_Cons)
      then show ?thesis by blast
    qed
  next
    assume "\<exists>rs. ranges_of n s rs"
    then obtain r rs where rs: "ranges_of n s (r # rs)" by (auto simp: ranges_of_def neq_Nil_conv)
    obtain rest q where q: "range_ok n r" "s = range_text r @ rest" "item_rest rest q" "q = ranges_text rs"
      "rs \<noteq> [] \<longrightarrow> ranges_of n q rs" using ranges_of_Cons [OF rs] .
    have item: "cpu_item n s = Some q" using cpu_item_range [OF assms(1) q(1,3)] q(2) by simp
    have "cpu_mask_valid n q"
    proof (cases "rs = []")
      case True
      then show ?thesis using q(4) by (simp add: cpu_mask_valid.simps)
    next
      case False
      then have "q \<noteq> []" using q(5) ranges_text_nonempty by (auto simp: ranges_of_def)
      then show ?thesis using less.hyps [OF cpu_item_shorter [OF item less.prems]] q(5) False by blast
    qed
    then show "cpu_mask_valid n s" using item by (subst cpu_mask_valid.simps) simp
  qed
qed

lemma cpu_mask_set_any:
  assumes "mask_ok m"
  shows "\<exists>m'. cpu_mask_set m i = Some m' \<and> mask_ok m' \<and> cpus m' = cpus m \<union> {c. c = i \<and> c < CPU_MASK_BITS}"
proof (cases "i < CPU_MASK_BITS")
  case True
  then show ?thesis using cm.add_law [OF assms True] by auto
next
  case False
  then show ?thesis using assms by (auto simp: cpu_mask_set_def)
qed

lemma cpu_mask_set_span:
  assumes "mask_ok m" "lo \<le> hi"
  shows "\<exists>m'. for_loop lo (Suc hi) (\<lambda>i m. cpu_mask_set m i) m = Some m' \<and> mask_ok m' \<and>
           cpus m' = cpus m \<union> {c. lo \<le> c \<and> c \<le> hi \<and> c < CPU_MASK_BITS}"
proof -
  have "\<exists>m'. for_loop lo (Suc hi) (\<lambda>i m. cpu_mask_set m i) m = Some m' \<and> (mask_ok m' \<and>
           cpus m' = cpus m \<union> {c. lo \<le> c \<and> c < Suc hi \<and> c < CPU_MASK_BITS})"
  proof (rule for_loop_invariant)
    fix k t
    assume "lo \<le> k" "k < Suc hi" "mask_ok t \<and> cpus t = cpus m \<union> {c. lo \<le> c \<and> c < k \<and> c < CPU_MASK_BITS}"
    then show "\<exists>t'. cpu_mask_set t k = Some t' \<and> mask_ok t' \<and>
        cpus t' = cpus m \<union> {c. lo \<le> c \<and> c < Suc k \<and> c < CPU_MASK_BITS}"
      using cpu_mask_set_any [of t k] by auto
  qed (use assms in auto)
  then show ?thesis by (simp add: less_Suc_eq_le)
qed

definition range_cpus :: "cpu_range \<Rightarrow> nat set" where
  "range_cpus r = {c. first_cpu r \<le> int c \<and> int c \<le> last_cpu r \<and> c < CPU_MASK_BITS}"

lemma cpu_bounds_range:
  assumes "int n < 2 ^ 64" "range_ok n r" "item_rest rest q"
  shows "cpu_bounds (range_text r @ rest) = (of_int (first_cpu r), of_int (last_cpu r), rest)"
proof -
  obtain a b where r: "r = (a, b)" by force
  have rest: "\<not> is_digit (peek rest)" "peek rest \<noteq> CHR ''-''"
    using assms(3) sep_not_digit by (auto simp: item_rest_def)
  have a: "number a" using assms(2) r by (simp add: range_ok_def)
  show ?thesis
  proof (cases b)
    case None
    then show ?thesis using r rest dec_unchecked_number [OF a, of rest]
      by (simp add: cpu_bounds_def first_cpu_def last_cpu_def)
  next
    case (Some c)
    then have c: "number c" using assms(2) r by (simp add: range_ok_def)
    then show ?thesis using r Some rest sep_not_digit dec_unchecked_number [OF a, of "CHR ''-'' # c @ rest"]
        dec_unchecked_number [OF c, of rest] by (simp add: cpu_bounds_def first_cpu_def last_cpu_def)
  qed
qed

lemma range_bounds:
  assumes "int n < 2 ^ 64" "range_ok n r"
  shows "unat (of_int (first_cpu r) :: u64) = nat (first_cpu r)" "unat (of_int (last_cpu r) :: u64) = nat (last_cpu r)"
    "0 \<le> first_cpu r" "first_cpu r \<le> last_cpu r"
proof -
  have "0 \<le> first_cpu r" "first_cpu r \<le> last_cpu r" "last_cpu r < 2 ^ 64"
    using assms number_nonneg [of "fst r"] by (auto simp: range_ok_def first_cpu_def)
  then show "unat (of_int (first_cpu r) :: u64) = nat (first_cpu r)" "unat (of_int (last_cpu r) :: u64) = nat (last_cpu r)"
    "0 \<le> first_cpu r" "first_cpu r \<le> last_cpu r"
    by (auto intro!: unat_of_int_small)
qed

lemma cpu_mask_populate_ranges:
  assumes "int n < 2 ^ 64" "mask_ok m" "ranges_of n s rs" "length s \<le> fuel"
  shows "\<exists>m'. cpu_mask_populate fuel m s = Some m' \<and> mask_ok m' \<and> cpus m' = cpus m \<union> (\<Union>r \<in> set rs. range_cpus r)"
  using assms(2-4)
proof (induction rs arbitrary: s m fuel)
  case Nil
  then show ?case by (simp add: ranges_of_def)
next
  case (Cons r rs)
  obtain rest q where q: "range_ok n r" "s = range_text r @ rest" "item_rest rest q" "q = ranges_text rs"
      "rs \<noteq> [] \<longrightarrow> ranges_of n q rs" using ranges_of_Cons [OF Cons.prems(2)] .
  note b = range_bounds [OF assms(1) q(1)]
  have "s \<noteq> []" using q(2) range_text_nonempty [OF q(1)] by simp
  then obtain c s' f where s: "s = c # s'" "fuel = Suc f" using Cons.prems(3) by (cases s; cases fuel) auto
  obtain m1 where m1: "for_loop (nat (first_cpu r)) (Suc (nat (last_cpu r))) (\<lambda>i m. cpu_mask_set m i) m = Some m1"
      "mask_ok m1" "cpus m1 = cpus m \<union> range_cpus r"
    using cpu_mask_set_span [OF Cons.prems(1), of "nat (first_cpu r)" "nat (last_cpu r)"] b(3,4)
    by (auto simp: range_cpus_def nat_le_iff le_nat_iff)
  have "(if peek rest = CHR '','' then tl rest else rest) = q" using q(3) by (auto simp: item_rest_def)
  then have step: "cpu_mask_populate fuel m s = cpu_mask_populate f m1 q"
    using cpu_bounds_range [OF assms(1) q(1,3)] m1(1) b(1,2) s q(2) by simp
  show ?case
  proof (cases "rs = []")
    case True
    then show ?thesis using step q(4) m1 by simp
  next
    case False
    have "length q \<le> f" using q(2,3) s Cons.prems(3) range_text_nonempty [OF q(1)]
      by (cases "range_text r") (auto simp: item_rest_def)
    then show ?thesis using Cons.IH [OF m1(2), of q f] q(5) False step m1(3) by auto
  qed
qed

lemma cpu_mask_init_empty: "mask_ok m \<Longrightarrow> mask_ok (cpu_mask_init m n) \<and> cpus (cpu_mask_init m n) = {}"
  by (auto simp: cpu_mask_init_def mask_ok_def cpus_def member_def)

text \<open>
  C20. \<open>parse_is_cpu_mask\<close> always returns, without leaving the mask. It accepts exactly the
  comma-separated lists of CPU numbers and non-empty ranges below the CPU count, and the mask it
  stores then has exactly the listed CPUs (those the mask has room for); otherwise the mask
  is not touched.
\<close>

theorem parse_cpu_mask_exact:
  assumes "mask_ok m" "0 < n" "int n < 2 ^ 64"
  shows "\<exists>ok m'. parse_is_cpu_mask s (Some m) n = Some (ok, Some m') \<and> mask_ok m' \<and>
    (ok \<longleftrightarrow> (\<exists>rs. ranges_of n s rs)) \<and>
    (\<forall>rs. ranges_of n s rs \<longrightarrow> cpus m' = (\<Union>r \<in> set rs. range_cpus r)) \<and> (\<not> ok \<longrightarrow> m' = m)"
proof (cases "\<exists>rs. ranges_of n s rs")
  case True
  then obtain rs where rs: "ranges_of n s rs" ..
  then have s: "s \<noteq> []" using ranges_text_nonempty by (auto simp: ranges_of_def)
  note init = cpu_mask_init_empty [OF assms(1), of n]
  have pop: "\<exists>m'. cpu_mask_populate (length s) (cpu_mask_init m n) s = Some m' \<and> mask_ok m' \<and>
      cpus m' = (\<Union>r \<in> set rs. range_cpus r)" if "ranges_of n s rs" for rs
    using cpu_mask_populate_ranges [OF assms(3) _ that, of "cpu_mask_init m n" "length s"] init by simp
  from pop [OF rs] obtain m' where m': "cpu_mask_populate (length s) (cpu_mask_init m n) s = Some m'" "mask_ok m'" by blast
  have "\<forall>rs. ranges_of n s rs \<longrightarrow> cpus m' = (\<Union>r \<in> set rs. range_cpus r)" using pop m'(1) by fastforce
  moreover have "parse_is_cpu_mask s (Some m) n = Some (True, Some m')"
    using s m'(1) assms(2) cpu_mask_valid_iff [OF assms(3) s] True
    by (simp add: parse_is_cpu_mask_def parse_cpu_mask_internal_def)
  ultimately show ?thesis using True m'(2) by blast
next
  case False
  then have "parse_is_cpu_mask s (Some m) n = Some (False, Some m)"
    using cpu_mask_valid_iff [OF assms(3), of s] by (auto simp: parse_is_cpu_mask_def parse_cpu_mask_internal_def)
  then show ?thesis using False assms(1) by blast
qed

theorem parse_cpu_mask_exact_witness:
  "\<exists>m'. parse_is_cpu_mask ''0,2-5'' (Some CPU_MASK_INIT) 8 = Some (True, Some m') \<and> cpus m' = {0, 2, 3, 4, 5}"
proof -
  let ?rs = "[(''0'', None), (''2'', Some ''5'')] :: cpu_range list"
  have "mask_ok CPU_MASK_INIT" by (simp add: mask_ok_def CPU_MASK_INIT_def)
  then obtain ok m' where p: "parse_is_cpu_mask ''0,2-5'' (Some CPU_MASK_INIT) 8 = Some (ok, Some m')"
    and ok: "ok \<longleftrightarrow> (\<exists>rs. ranges_of 8 ''0,2-5'' rs)"
    and c: "\<forall>rs. ranges_of 8 ''0,2-5'' rs \<longrightarrow> cpus m' = (\<Union>r \<in> set rs. range_cpus r)"
    using parse_cpu_mask_exact [of CPU_MASK_INIT 8 "''0,2-5''"] by auto
  have r: "ranges_of 8 ''0,2-5'' ?rs"
    by (simp add: ranges_of_def range_ok_def number_def first_cpu_def last_cpu_def is_digit_def schar_def cval_def
        digit_of_def)
  have "range_cpus (''0'', None) = {0}" "range_cpus (''2'', Some ''5'') = {2, 3, 4, 5}"
    by (auto simp: range_cpus_def first_cpu_def last_cpu_def schar_def cval_def digit_of_def CPU_MASK_BITS_def)
  then have "cpus m' = {0, 2, 3, 4, 5}" using c [rule_format, OF r] by (simp add: insert_commute)
  moreover have "ok = True" using ok exI [of "ranges_of 8 ''0,2-5''", OF r] by (simp only:)
  ultimately show ?thesis using p by (intro exI [of _ m'] conjI) (simp_all only:)
qed

section \<open>Hardware addresses\<close>

lemma bit_small_int:
  assumes "0 \<le> x" "x < 2 ^ k" "bit (of_int x :: u64) n"
  shows "n < k"
proof -
  have "take_bit k x = x" using assms(1,2) by (simp add: take_bit_int_eq_self)
  then show ?thesis using assms(3) by (metis bit_take_bit_iff bit_word_of_int_iff)
qed

lemma or_low:
  assumes "0 \<le> x" "x < 2 ^ k"
  shows "push_bit k m OR of_int x = (push_bit k m + of_int x :: u64)"
proof -
  have "\<not> bit (push_bit k m) n \<or> \<not> bit (of_int x :: u64) n" for n
    using bit_small_int [OF assms, of n] by (cases "n < k") (auto simp: bit_push_bit_iff)
  then show ?thesis by (rule disjunctive_add [symmetric])
qed

lemma or_pair:
  assumes "0 \<le> h" "h < 16" "0 \<le> l" "l < 16"
  shows "push_bit 8 m OR of_int (push_bit 4 h) OR of_int l = (m * 256 + of_int (h * 16 + l) :: u64)"
proof -
  have "push_bit 4 (of_int h :: u64) OR of_int l = push_bit 4 (of_int h) + of_int l"
    using assms by (intro or_low) auto
  then have hl: "of_int (push_bit 4 h) OR of_int l = (of_int (h * 16 + l) :: u64)"
    by (simp add: push_bit_eq_mult)
  have "push_bit 8 m OR (of_int (h * 16 + l) :: u64) = push_bit 8 m + of_int (h * 16 + l)"
    using assms by (intro or_low) auto
  then show ?thesis by (simp only: or.assoc hl) (simp add: push_bit_eq_mult)
qed

fun mac_format :: "string \<Rightarrow> string" where
  "mac_format (a # b # c # s) = a # b # CHR '':'' # mac_format (c # s)"
| "mac_format s = s"

lemma hex_to_int_digit: "0 \<le> hex_to_int c \<longleftrightarrow> in_base 16 c" "in_base 16 c \<Longrightarrow> digit_of c = Some (hex_to_int c)"
  by (auto simp: hex_to_int_def in_base_def digit_of_def split: if_splits)

lemma hex_to_int_range: "in_base 16 c \<Longrightarrow> 0 \<le> hex_to_int c \<and> hex_to_int c < 16"
  by (auto simp: hex_to_int_def in_base_def digit_of_def split: if_splits)

lemma mac_step:
  assumes "in_base 16 x" "in_base 16 y"
  shows "mac_loop (Suc n) (of_int a) (x # y # q) =
    (if n = 0 then Some (of_int (value_of 16 a [x, y]), q)
     else if peek q \<noteq> CHR '':'' then None else mac_loop n (of_int (value_of 16 a [x, y])) (tl q))"
proof -
  have r: "0 \<le> hex_to_int x" "hex_to_int x < 16" "0 \<le> hex_to_int y" "hex_to_int y < 16"
    "digit_of x = Some (hex_to_int x)" "digit_of y = Some (hex_to_int y)"
    using assms hex_to_int_range hex_to_int_digit(2) by auto
  have "value_of 16 a [x, y] = a * 256 + (hex_to_int x * 16 + hex_to_int y)" using r by simp
  then have v: "push_bit 8 (of_int a) OR of_int (push_bit 4 (hex_to_int x)) OR of_int (hex_to_int y)
      = (of_int (value_of 16 a [x, y]) :: u64)" using or_pair [OF r(1-4), of "of_int a"] by (simp only:) simp
  have "\<not> hex_to_int x < 0" "\<not> hex_to_int y < 0" using r by simp_all
  then show ?thesis using v by (cases n) (simp_all only: mac_loop.simps peek_simps list.sel Let_def if_False, auto)
qed

lemma mac_reject:
  assumes "\<not> (\<exists>x y q. p = x # y # q \<and> in_base 16 x \<and> in_base 16 y)"
  shows "mac_loop (Suc n) m p = None"
proof -
  have h: "hex_to_int c < 0" if "\<not> in_base 16 c" for c using that hex_to_int_digit(1) [of c] by linarith
  have "hex_to_int NUL < 0" by (simp add: hex_to_int_def schar_def)
  with h show ?thesis using assms by (cases p; cases "tl p") (auto simp: Let_def)
qed

declare mac_loop.simps(2) [simp del]

lemma mac_loop_exact:
  "mac_loop (Suc n) (of_int a) p = Some (v, []) \<longleftrightarrow>
     (\<exists>hs. length hs = 2 * Suc n \<and> (\<forall>c \<in> set hs. in_base 16 c) \<and> p = mac_format hs \<and> v = of_int (value_of 16 a hs))"
proof (induction n arbitrary: a p)
  case 0
  show ?case
  proof
    assume "mac_loop (Suc 0) (of_int a) p = Some (v, [])"
    then obtain x y where "p = [x, y]" "in_base 16 x" "in_base 16 y" "v = of_int (value_of 16 a [x, y])"
      using mac_reject [of p 0 "of_int a"] mac_step [of _ _ 0 a] by fastforce
    then show "\<exists>hs. length hs = 2 * Suc 0 \<and> (\<forall>c \<in> set hs. in_base 16 c) \<and> p = mac_format hs \<and>
        v = of_int (value_of 16 a hs)" by (intro exI [of _ "[x, y]"]) simp
  next
    assume "\<exists>hs. length hs = 2 * Suc 0 \<and> (\<forall>c \<in> set hs. in_base 16 c) \<and> p = mac_format hs \<and>
        v = of_int (value_of 16 a hs)"
    then show "mac_loop (Suc 0) (of_int a) p = Some (v, [])"
      by (auto simp: length_Suc_conv numeral_2_eq_2 mac_step simp del: value_of_simps)
  qed
next
  case (Suc n)
  show ?case
  proof
    assume l: "mac_loop (Suc (Suc n)) (of_int a) p = Some (v, [])"
    then obtain x y q where p: "p = x # y # q" and xy: "in_base 16 x" "in_base 16 y"
      using mac_reject [of p "Suc n" "of_int a"] by (metis option.distinct(1))
    then have "peek q = CHR '':''" "mac_loop (Suc n) (of_int (value_of 16 a [x, y])) (tl q) = Some (v, [])"
      using l mac_step [OF xy, of "Suc n" a q] by (simp_all del: value_of_simps split: if_splits)
    then obtain hs where hs: "length hs = 2 * Suc n" "\<forall>c \<in> set hs. in_base 16 c" "q = CHR '':'' # mac_format hs"
      "v = of_int (value_of 16 (value_of 16 a [x, y]) hs)"
      using Suc.IH [of "value_of 16 a [x, y]" "tl q"] by (cases q) (auto simp del: value_of_simps)
    then have "p = mac_format (x # y # hs)" using p by (cases hs) auto
    then show "\<exists>hs. length hs = 2 * Suc (Suc n) \<and> (\<forall>c \<in> set hs. in_base 16 c) \<and> p = mac_format hs \<and>
        v = of_int (value_of 16 a hs)" using hs xy by (intro exI [of _ "x # y # hs"]) simp
  next
    assume "\<exists>hs. length hs = 2 * Suc (Suc n) \<and> (\<forall>c \<in> set hs. in_base 16 c) \<and> p = mac_format hs \<and>
        v = of_int (value_of 16 a hs)"
    then obtain hs0 where h0: "length hs0 = 2 * Suc (Suc n)" "\<forall>c \<in> set hs0. in_base 16 c" "p = mac_format hs0"
      "v = of_int (value_of 16 a hs0)" by blast
    obtain x y hs where "hs0 = x # y # hs" using h0(1) by (cases hs0; cases "tl hs0") auto
    with h0 have hs: "length hs = 2 * Suc n" "\<forall>c \<in> set hs. in_base 16 c" "in_base 16 x" "in_base 16 y"
      "p = mac_format (x # y # hs)" "v = of_int (value_of 16 a (x # y # hs))" by simp_all
    then have "p = x # y # CHR '':'' # mac_format hs" by (cases hs) auto
    moreover have "mac_loop (Suc n) (of_int (value_of 16 a [x, y])) (mac_format hs) = Some (v, [])"
      using Suc.IH [of "value_of 16 a [x, y]" "mac_format hs"] hs by auto
    ultimately show "mac_loop (Suc (Suc n)) (of_int a) p = Some (v, [])"
      using mac_step [OF hs(3,4), of "Suc n" a] by (simp del: value_of_simps)
  qed
qed

text \<open>
  C33. \<open>parse_is_mac\<close> accepts exactly six pairs of hexadecimal digits, in either case, joined
  by colons, and returns the 48-bit number they spell.
\<close>

theorem parse_mac_exact:
  "parse_is_mac s = Some v \<longleftrightarrow>
     (\<exists>hs. length hs = 12 \<and> (\<forall>c \<in> set hs. in_base 16 c) \<and> s = mac_format hs \<and> v = of_int (value_of 16 0 hs))"
proof -
  have "parse_is_mac s = Some v \<longleftrightarrow> s \<noteq> [] \<and> mac_loop (Suc 5) (of_int 0) s = Some (v, [])"
    by (auto simp: parse_is_mac_def parse_mac_internal_def split: option.splits if_splits)
  also have "\<dots> \<longleftrightarrow> mac_loop (Suc 5) (of_int 0) s = Some (v, [])" using mac_reject [of s 5] by auto
  finally show ?thesis unfolding mac_loop_exact by simp
qed

theorem parse_mac_exact_witness: "parse_is_mac ''52:54:00:12:aB:fF'' = Some 0x52540012abff"
proof -
  have "length ''52540012aBfF'' = 12 \<and> (\<forall>c \<in> set ''52540012aBfF''. in_base 16 c) \<and>
      ''52:54:00:12:aB:fF'' = mac_format ''52540012aBfF'' \<and> 0x52540012abff = (of_int (value_of 16 0 ''52540012aBfF'') :: u64)"
    by (simp add: in_base_def digit_of_def schar_def cval_def)
  then show ?thesis using parse_mac_exact [of "''52:54:00:12:aB:fF''" "0x52540012abff"] by blast
qed

section \<open>Ranges and integers\<close>

lemma skip_blank_idem [simp]: "skip_blank (skip_blank s) = skip_blank s"
  by (simp add: skip_blank_def)

lemma parse_duration_skip:
  assumes "parse_duration_internal s = Some v"
  shows "parse_duration_internal (skip_blank s) = Some v \<and> skip_blank s \<noteq> []"
proof -
  have "s \<noteq> []" "is_digit (peek (skip_blank s))"
    using assms by (auto simp: parse_duration_internal_def Let_def split: if_splits)
  then show ?thesis using assms by (cases "skip_blank s = []") (simp_all add: parse_duration_internal_def Let_def)
qed

lemma strstr_dots:
  assumes "cstring (l @ ''..'' @ r)" "CHR ''.'' \<notin> set l" "length (l @ ''..'' @ r) \<le> SIZE_MAX"
  shows "strstr (l @ ''..'' @ r) ''..'' = Some (length l)"
proof -
  let ?h = "l @ ''..'' @ r"
  have at: "occurs_at ?h ''..'' (length l)" by (simp add: occurs_at_def)
  have before: "\<not> occurs_at ?h ''..'' j" if "j < length l" for j
  proof
    assume "occurs_at ?h ''..'' j"
    then have "take 2 (drop j ?h) = ''..''" by (simp add: occurs_at_def numeral_2_eq_2)
    then have "?h ! j = CHR ''.''" using that
      by (metis append_take_drop_id hd_drop_conv_nth hd_append2 length_append trans_less_add1 list.sel(1) list.distinct(1))
    then show False using that assms(2) by (simp add: nth_append) (metis nth_mem)
  qed
  from strstr_spec [OF assms(1) _ assms(3), of "''..''"] have
    "case strstr ?h ''..'' of Some i \<Rightarrow> occurs_at ?h ''..'' i \<and> (\<forall>j<i. \<not> occurs_at ?h ''..'' j)
       | None \<Rightarrow> \<forall>i. \<not> occurs_at ?h ''..'' i" by simp
  then show ?thesis using at before by (cases "strstr ?h ''..''") (auto intro: linorder_cases)
qed

text \<open>
  A range of two durations separated by two dots is read as the pair of their values,
  provided the first is not above the second; a reversed range is rejected.
\<close>

theorem parse_range_durations:
  assumes "parse_is_duration l = Some a" "parse_is_duration r = Some b"
    and "cstring l" "cstring r" "CHR ''.'' \<notin> set l" "length l < 64" "length l + 2 + length r \<le> SIZE_MAX"
    and "\<not> is_blank (hd l)" "\<not> is_blank (last l)"
  shows "parse_is_range (l @ ''..'' @ r) = (if a \<le> b then Some (a, b) else None)"
proof -
  have d: "parse_duration_internal l = Some a" "parse_duration_internal (skip_blank r) = Some b" "skip_blank r \<noteq> []"
    using assms(1,2) parse_duration_skip [of r b] by (simp_all add: parse_is_duration_def)
  have l: "l \<noteq> []" using d(1) by (auto simp: parse_duration_internal_def)
  then have sk: "skip_blank (l @ x) = l @ x" for x using assms(8) by (cases l) (auto simp: skip_blank_def)
  have "is_digit (peek l)"
    using d(1) sk [of "[]"] by (auto simp: parse_duration_internal_def Let_def split: if_splits)
  then have dash: "peek (l @ x) \<noteq> CHR ''-''" for x using l not_sign_or_blank by (cases l) auto
  have "cstring (l @ ''..'' @ r)" using assms(3,4) by (simp add: cstring_def)
  then have sep: "range_sep (l @ ''..'' @ r) = Some (length l, 2)"
    using strstr_dots [of l r] assms(5,7) by (simp add: range_sep_def)
  have rs: "rskip_blank l = l" using l assms(9) by (cases l rule: rev_cases) (simp_all add: rskip_blank_def)
  have "\<not> 64 \<le> length l" using assms(6) by simp
  then show ?thesis
    unfolding parse_is_range_def parse_range_internal_def Let_def sk
    using l dash sep rs d by (simp add: both_def or_else_def not_le)
qed

theorem parse_range_durations_witness: "parse_is_range ''10ms..2 s'' = Some (10000000, 2000000000)"
proof -
  have "parse_is_duration ''10ms'' = Some 10000000" "parse_is_duration ''2 s'' = Some 2000000000" by code_simp+
  then show ?thesis using parse_range_durations [of "''10ms''" 10000000 "''2 s''" 2000000000]
    by (simp add: SIZE_MAX_def is_blank_def)
qed

text \<open>At the limit the digit loop keeps the longest prefix that fits and skips the rest.\<close>

lemma l_digits_limit:
  assumes "2 \<le> base" "base \<le> 36" "36 \<le> uint limit" "uint acc \<le> uint limit" "\<forall>c \<in> set ds. in_base base c"
    and "uint limit < value_of base (uint acc) ds"
  shows "\<exists>k < length ds. value_of base (uint acc) (take k ds) \<le> uint limit \<and> uint limit < value_of base (uint acc) (take (Suc k) ds) \<and>
    l_digits limit base acc ds = (of_int (value_of base (uint acc) (take k ds)), [])"
  using assms(4-6)
proof (induction ds arbitrary: acc)
  case (Cons c ds)
  then obtain d where d: "digit_of c = Some d" "d < base" by (auto simp: in_base_digit)
  have r: "0 \<le> d" using digit_of_range d by auto
  have ovf: "(limit - of_int d) div of_int base < acc \<longleftrightarrow> uint limit < uint acc * base + d"
    using digit_overflow_iff [of d base limit acc] r d assms by simp
  show ?case
  proof (cases "uint limit < uint acc * base + d")
    case True
    have "dropWhile (in_base base) ds = []" using Cons.prems(2) by simp
    then show ?thesis using True ovf d Cons.prems(1) by (intro exI [of _ 0]) simp
  next
    case False
    let ?acc = "acc * of_int base + of_int d"
    have u: "uint ?acc = uint acc * base + d" using uint_mul_add [of d base acc] r d assms(2) False uint_lt [of limit] by simp
    then obtain k where k: "k < length ds" "value_of base (uint ?acc) (take k ds) \<le> uint limit"
      "uint limit < value_of base (uint ?acc) (take (Suc k) ds)" "l_digits limit base ?acc ds = (of_int (value_of base (uint ?acc) (take k ds)), [])"
      using Cons.IH [of ?acc] Cons.prems False d by auto
    then show ?thesis using d ovf False by (intro exI [of _ "Suc k"]) (simp add: u)
  qed
qed simp

definition no_number :: "string \<Rightarrow> bool" where
  "no_number p \<longleftrightarrow> p = [] \<or> p = ''0x'' \<or> p = ''0X''"

lemma no_number_reads:
  assumes "\<forall>c \<in> set ws. isspace (uchar c)" "sg \<in> signs" "no_number p"
  shows "take_sign (skip_space (ws @ sg @ p)) = (sg = ''-'', p)"
proof -
  have "\<not> isspace (uchar (CHR ''0''))" by code_simp
  then have "skip_space (sg @ p) = sg @ p" using assms(2,3) sign_not_space by (auto simp: skip_space_def signs_def no_number_def)
  then show ?thesis using assms by (auto simp: skip_space_append take_sign_def peek_def signs_def no_number_def)
qed

text \<open>
  C37. \<open>parse_is_int\<close> accepts every text without a digit that consists of white space, an optional sign and an
  optional hexadecimal prefix, and reads it as zero, because \<open>strtol\<close> moves the end pointer past what it
  skipped; \<open>parse_is_uint\<close> rejects all of them. Every decimal number out of range is accepted, and its
  value is that of the longest run of its leading digits that is in range, not the limit.
\<close>

theorem parse_int_defects:
  assumes ws: "\<forall>c \<in> set ws. isspace (uchar c)" and sg: "sg \<in> signs"
  shows "(no_number p \<and> ws @ sg @ p \<noteq> [] \<longrightarrow> parse_is_int (ws @ sg @ p) = Some 0 \<and> parse_is_uint (ws @ sg @ p) = None) \<and>
   (let limit = (if sg = ''-'' then 2 ^ 63 else 2 ^ 63 - 1)
    in (\<forall>c \<in> set ds. in_base 10 c) \<and> ds \<noteq> [] \<and> hd ds \<noteq> CHR ''0'' \<and> limit < value_of 10 0 ds \<longrightarrow>
       (\<exists>k < length ds. value_of 10 0 (take k ds) \<le> limit \<and> limit < value_of 10 0 (take (Suc k) ds) \<and>
          parse_is_int (ws @ sg @ ds) = Some (of_int (if sg = ''-'' then - value_of 10 0 (take k ds) else value_of 10 0 (take k ds)))))"
    (is "?empty \<and> ?cut")
proof
  show ?empty
  proof (intro impI conjI)
    assume p: "no_number p \<and> ws @ sg @ p \<noteq> []"
    let ?t = "ws @ sg @ p"
    have t: "take_sign (skip_space ?t) = (sg = ''-'', p)" using no_number_reads [OF ws sg] p by blast
    have b: "\<exists>b. l_base 0 p = (b, [])" "\<exists>b. ull_base 0 p = (b, [])"
      using p by (auto simp: no_number_def l_base_def ull_base_def has_0x_def peek_def)
    then have "strtol ?t 0 = (0, [])" "strtoull ?t 0 = (0, ?t)"
      unfolding strtol_def strtoull_def t by (auto simp: bad_base_def Let_def)
    then show "parse_is_int ?t = Some 0" "parse_is_uint ?t = None" using p
      unfolding parse_is_int_def parse_int_internal_def parse_is_uint_def parse_uint_internal_def by simp_all
  qed
  show ?cut
    unfolding Let_def
  proof (intro impI, elim conjE)
    let ?lim = "if sg = ''-'' then 2 ^ 63 else 2 ^ 63 - 1 :: int" and ?limit = "if sg = ''-'' then LONG_MAX + 1 else LONG_MAX" and ?t = "ws @ sg @ ds"
    assume ds: "\<forall>c \<in> set ds. in_base 10 c" "ds \<noteq> []" "hd ds \<noteq> CHR ''0''" "?lim < value_of 10 0 ds"
    have u: "uint ?limit = ?lim" by (simp add: LONG_MAX_def)
    obtain k where k: "k < length ds" "value_of 10 0 (take k ds) \<le> ?lim" "?lim < value_of 10 0 (take (Suc k) ds)"
      "l_digits ?limit 10 0 ds = (of_int (value_of 10 0 (take k ds)), [])"
      using l_digits_limit [of 10 ?limit 0 ds] ds(1,4) unfolding u by (auto split: if_splits)
    have t: "take_sign (skip_space ?t) = (sg = ''-'', ds)" using read_sign [OF ws sg ds(2), of 10 "[]"] ds(1,2) by simp
    have b: "l_base 0 ds = (10, ds)" using ds(2,3) by (cases ds) (auto simp: l_base_def peek_def)
    have min: "(of_int (value_of 10 0 (take k ds)) :: u64) = LONG_MAX + 1 \<Longrightarrow> LONG_MIN = - of_int (value_of 10 0 (take k ds))"
      by (simp add: LONG_MIN_def LONG_MAX_def)
    have "strtol ?t 0 = (of_int (if sg = ''-'' then - value_of 10 0 (take k ds) else value_of 10 0 (take k ds)), [])"
      unfolding strtol_def t using b k(4) ds(2) min by (simp add: Let_def bad_base_def)
    then have "parse_is_int ?t = Some (of_int (if sg = ''-'' then - value_of 10 0 (take k ds) else value_of 10 0 (take k ds)))"
      using ds(2) by (simp add: parse_is_int_def parse_int_internal_def)
    then show "\<exists>k < length ds. value_of 10 0 (take k ds) \<le> ?lim \<and> ?lim < value_of 10 0 (take (Suc k) ds) \<and>
        parse_is_int ?t = Some (of_int (if sg = ''-'' then - value_of 10 0 (take k ds) else value_of 10 0 (take k ds)))"
      using k by blast
  qed
qed

theorem parse_int_defects_witness:
  "parse_is_int '' -0x'' = Some 0 \<and> parse_is_uint '' -0x'' = None \<and>
   (\<exists>k < length ''99999999999999999999''. value_of 10 0 (take k ''99999999999999999999'') \<le> 2 ^ 63 \<and>
      parse_is_int '' -99999999999999999999'' = Some (of_int (- value_of 10 0 (take k ''99999999999999999999''))))"
proof -
  have h: "\<forall>c \<in> set '' ''. isspace (uchar c)" "''-'' \<in> signs" by code_simp (simp add: signs_def)
  have d: "(\<forall>c \<in> set ''99999999999999999999''. in_base 10 c) \<and> (2 :: int) ^ 63 < value_of 10 0 ''99999999999999999999''"
    by (simp add: in_base_def digit_of_def schar_def cval_def)
  note w = parse_int_defects [OF h, of "''0x''" "''99999999999999999999''"]
  show ?thesis using w d by (simp add: no_number_def Let_def) (elim exE conjE, blast)
qed

section \<open>Item lists\<close>

fun unescape :: "string \<Rightarrow> string" where
  "unescape [] = []"
| "unescape (c # s) =
     (if c = BACKSLASH \<and> s \<noteq> [] then escape_char (hd s) # unescape (tl s) else c # unescape s)"

lemma unescape_from_copy: "unescape_from dst i s = copy_str dst i (unescape s)"
  by (induction s arbitrary: dst i rule: unescape.induct) (auto intro!: Option.bind_cong)

lemma length_unescape: "length (unescape s) \<le> length s"
  by (induction s rule: unescape.induct) auto

lemma parse_unescape_text:
  assumes "length (unescape s) < length dst"
  shows "parse_unescape dst s = Some (unescape s @ NUL # drop (Suc (length (unescape s))) dst)"
  using assms put_chars_NUL [of 0 "unescape s" dst]
  by (simp add: parse_unescape_def unescape_from_copy copy_str_put)

text \<open>The item texts of a list, as the second and third pass cut them.\<close>

fun list_split :: "bool \<Rightarrow> string \<Rightarrow> string \<Rightarrow> string list" where
  "list_split quoted cur [] = [cur]"
| "list_split quoted cur (c # s) =
     (if c = BACKSLASH \<and> s \<noteq> [] then list_split quoted (cur @ [c, hd s]) (tl s)
      else let quoted = (if c = QUOTE then \<not> quoted else quoted)
           in if c = CHR '','' \<and> \<not> quoted
              then cur # list_split quoted [] s
              else list_split quoted (cur @ [c]) s)"

lemma list_check_split: "list_check quoted cur s \<longleftrightarrow> (\<forall>t \<in> set (list_split quoted cur s). item_ok (trim t))"
  by (induction quoted cur s rule: list_check.induct) (auto simp: Let_def)

lemma list_count_split: "snd (list_count quoted n s) + 1 = n + length (list_split quoted cur s)"
  by (induction quoted n s arbitrary: cur rule: list_count.induct) (auto simp: Let_def QUOTE_def)

definition item_text :: "string \<Rightarrow> string" where
  "item_text cur = unescape (unquote (trim cur))"

text \<open>The block of an item: its text, terminated within the block.\<close>

definition holds_text :: "(nat \<times> char list) option \<Rightarrow> string \<Rightarrow> bool" where
  "holds_text x t \<longleftrightarrow> (\<exists>k rest. x = Some (k, t @ NUL # rest))"

definition blocks_of :: "item_array \<Rightarrow> nat multiset" where
  "blocks_of xs = mset (map fst (List.map_filter id xs))"

lemma blocks_of_simps [simp]:
  "blocks_of [] = {#}" "blocks_of (None # xs) = blocks_of xs" "blocks_of (Some p # xs) = {#fst p#} + blocks_of xs"
  "blocks_of (xs @ ys) = blocks_of xs + blocks_of ys" "blocks_of (replicate n None) = {#}"
proof -
  show s: "blocks_of [] = {#}" "blocks_of (None # xs) = blocks_of xs" "blocks_of (Some p # xs) = {#fst p#} + blocks_of xs"
    by (simp_all add: blocks_of_def)
  show "blocks_of (xs @ ys) = blocks_of xs + blocks_of ys" by (simp add: blocks_of_def List.map_filter_def)
  show "blocks_of (replicate n None) = {#}" by (simp add: blocks_of_def List.map_filter_def)
qed

lemma live_vfree: "mset (live (vfree k h)) = mset (live h) - {#k#}"
  by (simp add: vfree_def)

lemma live_free_items: "mset (live (free_items xs h)) = mset (live h) - blocks_of xs"
proof (induction xs arbitrary: h)
  case (Cons x xs)
  then show ?case by (cases x) (auto simp: free_items_def live_vfree)
qed (simp add: free_items_def)

lemma list_item_outcome:
  assumes "item < length xs"
  shows "(\<exists>h'. list_item fails base cur xs item h = Some (None, h') \<and>
            mset (live h') = mset (live h) - blocks_of (take item xs) - {#base#}) \<or>
         (\<exists>k tx h'. list_item fails base cur xs item h = Some (Some (xs[item := Some (k, tx)]), h') \<and>
            holds_text (Some (k, tx)) (item_text cur) \<and> mset (live h') = {#k#} + mset (live h))"
proof -
  let ?t = "unquote (trim cur)"
  have "length (unescape ?t) < length (replicate (length ?t + 1) NUL)"
    using length_unescape [of ?t] by (simp add: le_imp_less_Suc)
  from parse_unescape_text [OF this]
  show ?thesis using assms
    by (auto simp: list_item_def valloc_def wr_def Let_def live_vfree live_free_items holds_text_def item_text_def)
qed

lemma list_item_extends:
  assumes "length ys < n"
    and "xs = map Some ys @ replicate (n - length ys) None"
    and "list_all2 holds_text (map Some ys) ts"
    and "mset (live h) = L + {#base#} + blocks_of xs"
  shows "(\<exists>h'. list_item fails base cur xs (length ys) h = Some (None, h') \<and> mset (live h') = L) \<or>
    (\<exists>k tx h'. let ys' = ys @ [(k, tx)]; xs' = map Some ys' @ replicate (n - length ys') None
       in list_item fails base cur xs (length ys) h = Some (Some xs', h') \<and>
          list_all2 holds_text (map Some ys') (ts @ [item_text cur]) \<and> mset (live h') = L + {#base#} + blocks_of xs')"
proof -
  have up: "xs[length ys := Some p] = map Some (ys @ [p]) @ replicate (n - length (ys @ [p])) None" for p
  proof -
    have "n - length ys = Suc (n - Suc (length ys))" using assms(1) by simp
    then show ?thesis unfolding assms(2) by (simp add: list_update_append)
  qed
  have tk: "take (length ys) xs = map Some ys" unfolding assms(2) by simp
  have bl: "blocks_of xs = blocks_of (map Some ys)" unfolding assms(2) by simp
  have "length ys < length xs" using assms(1) unfolding assms(2) by simp
  from list_item_outcome [OF this, of fails base cur h] show ?thesis
  proof (elim disjE exE conjE)
    fix h' assume "list_item fails base cur xs (length ys) h = Some (None, h')"
      "mset (live h') = mset (live h) - blocks_of (take (length ys) xs) - {#base#}"
    then show ?thesis using assms(4) by (simp add: tk bl)
  next
    fix k tx h'
    assume "list_item fails base cur xs (length ys) h = Some (Some (xs[length ys := Some (k, tx)]), h')"
      "holds_text (Some (k, tx)) (item_text cur)" "mset (live h') = {#k#} + mset (live h)"
    then show ?thesis using assms(3,4) unfolding up
      by (intro disjI2 exI [of _ k] exI [of _ tx] exI [of _ h']) (auto simp: bl list_all2_appendI Let_def)
  qed
qed

text \<open>
  The third pass: with room for the remaining items it never leaves the array; when it fails, the
  blocks are those that were live before the item array was allocated.
\<close>

lemma list_build_outcome:
  assumes "length ys + length (list_split quoted cur s) = n"
    and "xs = map Some ys @ replicate (n - length ys) None"
    and "list_all2 holds_text (map Some ys) ts"
    and "mset (live h) = L + {#base#} + blocks_of xs"
  shows "(\<exists>h'. list_build fails base quoted cur xs (length ys) h s = Some (None, h') \<and> mset (live h') = L) \<or>
         (\<exists>xs' h'. list_build fails base quoted cur xs (length ys) h s = Some (Some xs', h') \<and> length xs' = n \<and>
            list_all2 holds_text xs' (ts @ map item_text (list_split quoted cur s)) \<and>
            mset (live h') = L + {#base#} + blocks_of xs')"
  using assms
proof (induction s arbitrary: quoted cur xs ys ts h rule: length_induct)
  case (1 s)
  note IH = 1(1) and prems = 1(2-5)
  note item = list_item_extends [OF _ prems(2-4), of fails cur]
  show ?case
  proof (cases s)
    case Nil
    then have n: "n = Suc (length ys)" using prems(1) by simp
    with item show ?thesis unfolding Nil by (auto simp: Let_def list_all2_lengthD)
  next
    case (Cons c s')
    let ?q = "if c = QUOTE then \<not> quoted else quoted"
    consider (esc) "c = BACKSLASH" "s' \<noteq> []" | (sep) "\<not> (c = BACKSLASH \<and> s' \<noteq> [])" "c = CHR '',''" "\<not> ?q"
      | (ch) "\<not> (c = BACKSLASH \<and> s' \<noteq> [])" "\<not> (c = CHR '','' \<and> \<not> ?q)" by blast
    then show ?thesis
    proof cases
      case esc
      have "length (tl s') < length s" using Cons by simp
      then show ?thesis using IH [rule_format, of "tl s'" ys quoted "cur @ [c, hd s']" xs ts h] esc prems
        unfolding Cons by simp
    next
      case sep
      have c: "CHR '','' \<noteq> BACKSLASH" "CHR '','' \<noteq> QUOTE" by (simp_all add: BACKSLASH_def QUOTE_def)
      then have q: "?q = quoted" "\<not> quoted" using sep by auto
      then have n: "length ys < n" "length ys + 1 + length (list_split quoted [] s') = n"
        using prems(1) Cons sep(2) c by (auto simp: Let_def)
      from item [OF n(1)] show ?thesis
      proof (elim disjE exE)
        fix h' assume "list_item fails base cur xs (length ys) h = Some (None, h') \<and> mset (live h') = L"
        then show ?thesis using sep(2) c q unfolding Cons by simp
      next
        fix k tx h'
        let ?ys = "ys @ [(k, tx)]"
        let ?xs = "map Some ?ys @ replicate (n - length ?ys) None"
        assume "let ys' = ?ys; xs' = map Some ys' @ replicate (n - length ys') None
          in list_item fails base cur xs (length ys) h = Some (Some xs', h') \<and>
            list_all2 holds_text (map Some ys') (ts @ [item_text cur]) \<and> mset (live h') = L + {#base#} + blocks_of xs'"
        then have i: "list_item fails base cur xs (length ys) h = Some (Some ?xs, h')"
          "list_all2 holds_text (map Some ?ys) (ts @ [item_text cur])" "mset (live h') = L + {#base#} + blocks_of ?xs"
          unfolding Let_def by blast+
        have "length s' < length s" using Cons by simp
        moreover have "length ?ys + length (list_split quoted [] s') = n" using n(2) by simp
        ultimately show ?thesis
          using IH [rule_format, of s' ?ys quoted "[]" ?xs "ts @ [item_text cur]" h'] i sep(2) c q
          unfolding Cons by (simp add: Let_def)
      qed
    next
      case ch
      have "length s' < length s" using Cons by simp
      moreover have eq: "list_split quoted cur s = list_split ?q (cur @ [c]) s'"
        "list_build fails base quoted cur xs (length ys) h s = list_build fails base ?q (cur @ [c]) xs (length ys) h s'"
        unfolding Cons list_split.simps list_build.simps Let_def if_not_P [OF ch(1)] if_not_P [OF ch(2)] by (rule refl)+
      ultimately show ?thesis
        unfolding eq using IH [rule_format, of s' ys ?q "cur @ [c]" xs ts h] prems [unfolded eq] by blast
    qed
  qed
qed

lemma parse_list_accepts:
  assumes "s \<noteq> []" "\<not> fst (list_count False 1 s)" "list_check False [] s" "\<not> fails (requests h)"
  shows "parse_is_list fails s (Some l) h = map_option (\<lambda>(r, h').
      case r of None \<Rightarrow> (False, Some l, h')
      | Some xs \<Rightarrow> (True, Some \<lparr>count = snd (list_count False 1 s), items = Some (requests h, xs)\<rparr>, h'))
      (list_build fails (requests h) False [] (replicate (snd (list_count False 1 s)) None) 0
        (h\<lparr>requests := Suc (requests h), live := requests h # live h\<rparr>) s)"
  using assms by (auto simp: parse_is_list_def parse_list_internal_def valloc_def Let_def case_prod_unfold
      intro!: option.map_cong0 split: option.splits)

lemma parse_list_outcome:
  "\<exists>ok out h'. parse_is_list fails s (Some l) h = Some (ok, out, h') \<and>
     (if ok
      then \<exists>L base xs. out = Some L \<and> items L = Some (base, xs) \<and> count L = length xs \<and>
             list_all2 holds_text xs (map item_text (list_split False [] s)) \<and>
             mset (live (snd (parse_list_free L h'))) = mset (live h)
      else out = Some l \<and> mset (live h') = mset (live h))"
proof (cases "s = [] \<or> fst (list_count False 1 s) \<or> \<not> list_check False [] s \<or> fails (requests h)")
  case True
  then show ?thesis
    by (auto simp: parse_is_list_def parse_list_internal_def valloc_def Let_def case_prod_unfold)
next
  case False
  define n where "n = snd (list_count False 1 s)"
  define h1 where "h1 = h\<lparr>requests := Suc (requests h), live := requests h # live h\<rparr>"
  have n: "n = length (list_split False [] s)" using list_count_split [of False 1 s "[]"] by (simp add: n_def)
  let ?b = "list_build fails (requests h) False [] (replicate n None) 0 h1 s"
  have p: "parse_is_list fails s (Some l) h = map_option (\<lambda>(r, h').
      case r of None \<Rightarrow> (False, Some l, h')
      | Some xs \<Rightarrow> (True, Some \<lparr>count = n, items = Some (requests h, xs)\<rparr>, h')) ?b"
    unfolding n_def h1_def using False by (intro parse_list_accepts) auto
  have "(\<exists>h'. ?b = Some (None, h') \<and> mset (live h') = mset (live h)) \<or>
      (\<exists>xs' h'. ?b = Some (Some xs', h') \<and> length xs' = n \<and>
         list_all2 holds_text xs' (map item_text (list_split False [] s)) \<and>
         mset (live h') = mset (live h) + {#requests h#} + blocks_of xs')"
    using list_build_outcome [of "[]" False "[]" s n "replicate n None" "[]" h1 "mset (live h)" "requests h" fails]
    by (simp add: n h1_def)
  then show ?thesis unfolding p
    by (elim disjE exE conjE) (auto simp: parse_list_free_def live_vfree live_free_items)
qed

text \<open>
  C18. \<open>parse_is_list\<close> always returns and never stores outside the item array or an item's
  block. On success every entry holds the text of its item; freeing the list then gives back
  exactly the blocks that were live before. On failure, whichever allocation failed, nothing is
  leaked and the caller's list is not touched.
\<close>

theorem parse_list_leak_free:
  "\<exists>ok out h'. parse_is_list fails s (Some l) h = Some (ok, out, h') \<and>
     (if ok
      then \<exists>L base xs. out = Some L \<and> items L = Some (base, xs) \<and> count L = length xs \<and>
             list_all2 holds_text xs (map item_text (list_split False [] s)) \<and>
             mset (live (snd (parse_list_free L h'))) = mset (live h)
      else out = Some l \<and> mset (live h') = mset (live h))"
  by (rule parse_list_outcome)

lemma list_item_succeeds: "list_item (\<lambda>_. False) base cur xs item h \<noteq> Some (None, h')"
  by (auto simp: list_item_def valloc_def Let_def Option.bind_eq_Some_conv)

lemma list_build_succeeds: "list_build (\<lambda>_. False) base quoted cur xs item h s \<noteq> Some (None, h')"
proof (induction "\<lambda>_ :: nat. False" base quoted cur xs item h s rule: list_build.induct)
  case (2 base quoted cur xs item h c s)
  then show ?case by (auto simp: list_item_succeeds Let_def Option.bind_eq_Some_conv split: option.splits)
qed (simp add: list_item_succeeds)

text \<open>Quoting: an item in double quotes, with quotes and backslashes escaped.\<close>

definition escape :: "string \<Rightarrow> string" where
  "escape w = concat (map (\<lambda>c. if c = BACKSLASH \<or> c = QUOTE then [BACKSLASH, c] else [c]) w)"

definition quote_item :: "string \<Rightarrow> string" where
  "quote_item w = QUOTE # escape w @ [QUOTE]"

fun join_items :: "string list \<Rightarrow> string" where
  "join_items [] = []"
| "join_items [w] = quote_item w"
| "join_items (w # ws) = quote_item w @ CHR '','' # join_items ws"

lemma item_chars: "QUOTE \<noteq> BACKSLASH" "CHR '','' \<noteq> BACKSLASH" "CHR '','' \<noteq> QUOTE" "QUOTE \<noteq> CHR '',''" "\<not> is_blank QUOTE"
    "escape_char QUOTE = QUOTE" "escape_char BACKSLASH = BACKSLASH"
  by (simp_all add: QUOTE_def BACKSLASH_def is_blank_def escape_char_def)

lemma unescape_escape: "unescape (escape w) = w"
  by (induction w) (auto simp: escape_def item_chars)

lemma split_quoted: "list_split True cur (escape w @ QUOTE # rest) = list_split False (cur @ escape w @ [QUOTE]) rest"
proof (induction w arbitrary: cur)
  case Nil
  then show ?case by (auto simp: escape_def item_chars)
next
  case (Cons c w)
  then show ?case by (auto simp: escape_def item_chars Let_def)
qed

lemma count_quoted: "list_count True n (escape w @ QUOTE # rest) = list_count False n rest"
proof (induction w)
  case Nil
  then show ?case using item_chars by (auto simp: escape_def)
next
  case (Cons c w)
  then show ?case using item_chars by (auto simp: escape_def)
qed

lemma split_quote_item: "list_split False cur (quote_item w @ rest) = list_split False (cur @ quote_item w) rest"
  using split_quoted [of "cur @ [QUOTE]" w rest] item_chars by (auto simp: quote_item_def Let_def)

lemma count_quote_item: "list_count False n (quote_item w @ rest) = list_count False n rest"
  using count_quoted [of n w rest] item_chars by (auto simp: quote_item_def)

lemma split_join: "ws \<noteq> [] \<Longrightarrow> list_split False [] (join_items ws) = map quote_item ws"
proof (induction ws rule: join_items.induct)
  case (2 w)
  then show ?case using split_quote_item [of "[]" w "[]"] by simp
next
  case (3 w v vs)
  then show ?case using split_quote_item [of "[]" w "CHR '','' # join_items (v # vs)"] item_chars by (simp add: Let_def)
qed simp

lemma count_join: "fst (list_count False n (join_items ws)) = False"
proof (induction ws arbitrary: n rule: join_items.induct)
  case (2 w)
  then show ?case using count_quote_item [of n w "[]"] by simp
next
  case (3 w v vs)
  then show ?case using count_quote_item [of n w "CHR '','' # join_items (v # vs)"] item_chars by simp
qed simp

lemma trim_quote_item: "trim (quote_item w) = quote_item w"
  by (simp add: trim_def quote_item_def skip_blank_def rskip_blank_def item_chars)

lemma item_text_quote: "item_text (quote_item w) = w"
  by (simp add: item_text_def trim_quote_item) (simp add: unquote_def quote_item_def unescape_escape)

text \<open>
  C19. Quoting and reading are inverse: a list of arbitrary texts, each quoted and joined by
  commas, is read back by \<open>parse_is_list\<close> as the same texts when memory does not run out.
\<close>

theorem parse_list_roundtrip:
  assumes "ws \<noteq> []"
  shows "\<exists>L base xs h'. parse_is_list (\<lambda>_. False) (join_items ws) (Some l) h = Some (True, Some L, h') \<and>
     items L = Some (base, xs) \<and> count L = length ws \<and> list_all2 holds_text xs ws"
proof -
  let ?s = "join_items ws"
  have sp: "list_split False [] ?s = map quote_item ws" using assms by (rule split_join)
  have ne: "?s \<noteq> []" using assms by (cases ws rule: join_items.cases) (auto simp: quote_item_def)
  have ck: "list_check False [] ?s"
    by (auto simp: list_check_split sp trim_quote_item) (simp add: item_ok_def quote_item_def)
  obtain ok out h' where r: "parse_is_list (\<lambda>_. False) ?s (Some l) h = Some (ok, out, h')"
    and o: "if ok then \<exists>L base xs. out = Some L \<and> items L = Some (base, xs) \<and> count L = length xs \<and>
             list_all2 holds_text xs (map item_text (list_split False [] ?s)) \<and>
             mset (live (snd (parse_list_free L h'))) = mset (live h)
      else out = Some l \<and> mset (live h') = mset (live h)"
    using parse_list_outcome by blast
  have "ok" using r parse_list_accepts [OF ne _ ck, of "\<lambda>_. False" h l] list_build_succeeds
    by (auto simp: count_join split: option.splits)
  then show ?thesis using r o unfolding sp by (auto simp: item_text_quote list_all2_lengthD o_def)
qed

theorem parse_list_roundtrip_witness:
  "\<exists>L base xs h'. parse_is_list (\<lambda>_. False) (join_items [''a,b'', [QUOTE, BACKSLASH]])
       (Some \<lparr>count = 0, items = None\<rparr>) \<lparr>requests = 0, live = []\<rparr> = Some (True, Some L, h') \<and>
     items L = Some (base, xs) \<and> count L = length [''a,b'', [QUOTE, BACKSLASH]] \<and>
     list_all2 holds_text xs [''a,b'', [QUOTE, BACKSLASH]]"
  by (rule parse_list_roundtrip) simp

section \<open>Booleans\<close>

lemma rskip_blank_take: "take (length (rskip_blank s)) s = rskip_blank s"
proof -
  have "s = rskip_blank s @ rev (takeWhile is_blank (rev s))"
    unfolding rskip_blank_def by (metis rev_append rev_rev_ident takeWhile_dropWhile_id)
  then show ?thesis by (metis append_eq_conv_conj)
qed

lemma is_term_same:
  assumes "cstring s" "cstring t"
  shows "is_term s (length (rskip_blank s)) t \<longleftrightarrow> same_nocase (rskip_blank s) t"
proof -
  have "map lower (rskip_blank s) = map lower t \<Longrightarrow> length (rskip_blank s) = length t" by (metis length_map)
  then show ?thesis
    using strncasecmp_eq_0 [OF assms, of "length (rskip_blank s)"] assms(2) rskip_blank_take [of s]
    by (auto simp: is_term_def same_nocase_def)
qed

text \<open>
  \<open>parse_is_bool\<close> accepts exactly the listed words, in any case and with blanks around
  them: the first list gives true and the second gives false.
\<close>

theorem parse_bool_exact:
  assumes "cstring s"
  shows "parse_is_bool s =
    (if \<exists>t \<in> set enabled_terms. same_nocase (trim s) t then Some True
     else if \<exists>t \<in> set disabled_terms. same_nocase (trim s) t then Some False else None)"
proof -
  have c: "cstring (skip_blank s)"
    using assms by (auto simp: cstring_def skip_blank_def dest!: set_dropWhileD)
  have "\<forall>t \<in> set enabled_terms \<union> set disabled_terms. cstring t \<and> t \<noteq> []"
    by (simp add: enabled_terms_def disabled_terms_def)
  then have t: "is_term (skip_blank s) (length (rskip_blank (skip_blank s))) t \<longleftrightarrow> same_nocase (trim s) t" "t \<noteq> []"
    if "t \<in> set enabled_terms \<union> set disabled_terms" for t
    using that is_term_same [OF c] by (auto simp: trim_def)
  have "trim s = []" if "s = [] \<or> skip_blank s = []"
    using that by (auto simp: trim_def skip_blank_def rskip_blank_def dest: set_dropWhileD)
  then show ?thesis
    unfolding parse_is_bool_def parse_bool_internal_def Let_def list_ex_iff using t by (auto cong: if_cong)
qed

theorem parse_bool_exact_witness: "parse_is_bool '' Yes'' = Some True \<and> parse_is_bool ''maybe'' = None"
proof -
  have "trim '' Yes'' = ''Yes''" "trim ''maybe'' = ''maybe''" by (simp_all add: trim_def skip_blank_def rskip_blank_def is_blank_def)
  then show ?thesis using parse_bool_exact [of "'' Yes''"] parse_bool_exact [of "''maybe''"]
    by (simp add: enabled_terms_def disabled_terms_def lower_eq_iff cval_def)
qed

end
