(* ===== verification/LockGraph.thy ===== *)
theory LockGraph
  imports BitVec CString "HOL-Library.Monad_Syntax"
begin

text \<open>
  The dependency graph of the lock validator, \<^verbatim>\<open>kernel/sync/lock_chk/graph.c\<close> and the inline
  functions of \<^verbatim>\<open>internal.h\<close> it uses. Pointers into the node and edge arrays are indices; the
  used prefixes of the two arrays are lists, so that \<open>node_count\<close> and \<open>edge_count\<close> are their
  lengths. A result \<open>None\<close> means that an \<open>enforce\<close> fails or an access leaves an array.
\<close>

section \<open>Types and constants\<close>

definition LOCK_CHK_MAX_NODES :: nat where "LOCK_CHK_MAX_NODES = 1024"
definition LOCK_CHK_MAX_EDGES :: nat where "LOCK_CHK_MAX_EDGES = 8192"
definition LOCK_CHK_HASH_BUCKETS :: nat where "LOCK_CHK_HASH_BUCKETS = 1024"
definition LOCK_CHK_MAX_SUBCLASSES :: nat where "LOCK_CHK_MAX_SUBCLASSES = 8"
definition LOCK_CHK_MODE_STATE_COUNT :: nat where "LOCK_CHK_MODE_STATE_COUNT = LOCK_CHK_MAX_NODES * 2"
definition LOCK_CHK_MAX_CYCLE_HOPS :: nat where "LOCK_CHK_MAX_CYCLE_HOPS = 16"

datatype lock_chk_mode = MODE_IGNORED | MODE_SHARED | MODE_EXCLUSIVE

datatype lock_chk_type = TYPE_SPIN | TYPE_QSPIN | TYPE_MUTEX | TYPE_MUTEX_SIMPLE | TYPE_RWLOCK

datatype lock_chk_result =
    RESULT_OK | RESULT_INACTIVE | RESULT_RECURSION | RESULT_CYCLE | RESULT_NOT_HELD | RESULT_WRONG_THREAD
  | RESULT_NODE_CAPACITY | RESULT_EDGE_CAPACITY | RESULT_HELD_CAPACITY | RESULT_BAD_CONTEXT | RESULT_INTERNAL

definition CTX_IRQ :: u8 where "CTX_IRQ = 1"
definition CTX_SPIN_DISPATCH :: u8 where "CTX_SPIN_DISPATCH = 2"
definition CTX_SPIN_HIGH :: u8 where "CTX_SPIN_HIGH = 4"

definition LOCK_OP_IRQ_MASK :: u8 where "LOCK_OP_IRQ_MASK = 0x3"
definition LOCK_OP_KIND_MASK :: u8 where "LOCK_OP_KIND_MASK = 0x18"
definition LOCK_OP_IRQ_HIGH :: u8 where "LOCK_OP_IRQ_HIGH = 2"
definition LOCK_OP_RAW :: u8 where "LOCK_OP_RAW = 4"
definition LOCK_OP_KIND_BLOCKING :: u8 where "LOCK_OP_KIND_BLOCKING = 8"
definition LOCK_OP_KIND_TRY :: u8 where "LOCK_OP_KIND_TRY = 16"

definition LOCK_UNCHKD :: u8 where "LOCK_UNCHKD = 0"
definition LOCK_CHKD_ORDER :: u8 where "LOCK_CHKD_ORDER = 1"
definition LOCK_CHKD_THREAD :: u8 where "LOCK_CHKD_THREAD = 2"

definition IRQL_APC_LEVEL :: int where "IRQL_APC_LEVEL = 1"
definition IRQL_HIGH_LEVEL :: int where "IRQL_HIGH_LEVEL = 4"

text \<open>A class is identified by its address.\<close>

record lock_chk_class =
  cls_at :: u64
  cls_name :: string
  cls_file :: string
  cls_line :: u32

record lock_chk_site =
  site_file :: string
  site_func :: string
  site_line :: u32

record lock_chk_node =
  n_id :: nat
  n_class :: lock_chk_class
  n_subclass :: nat
  context_bits :: u8
  out_edges :: "nat list"
  in_edges :: "nat list"

record lock_chk_edge =
  e_from :: nat
  e_to :: nat
  e_from_mode :: lock_chk_mode
  e_to_mode :: lock_chk_mode
  first_site :: lock_chk_site

record lock_chk_graph =
  class_hash :: "nat list list"
  nodes :: "lock_chk_node list"
  edges :: "lock_chk_edge list"
  visit_generation :: "u32 list"
  parent_state :: "int list"
  parent_edge :: "int list"
  last_cycle_end_state :: int
  generation :: u32

record lock_chk_dep =
  d_node :: nat
  d_mode :: lock_chk_mode

record lock_chk_id =
  instance_ptr :: u64
  lk_type :: lock_chk_type
  lk_flags :: u8

record lock_chk_map =
  map_class :: "lock_chk_class option"
  instance_class :: lock_chk_class
  base_node :: "nat option"

record lock_chk_acq_req =
  rq_lock :: lock_chk_id
  rq_site :: lock_chk_site
  rq_mode :: lock_chk_mode
  rq_prev_irql :: int
  rq_subclass :: nat
  rq_op_flags :: u8
  rq_irqs_enabled :: bool
  rq_in_irq :: bool
  rq_in_nmi :: bool

record lock_chk_held =
  h_node :: "nat option"
  h_lock :: lock_chk_id
  h_site :: lock_chk_site
  h_mode :: lock_chk_mode
  h_subclass :: nat
  h_prev_irql :: int
  h_trylock :: bool
  h_raw :: bool

section \<open>Small helpers\<close>

definition lock_chk_modes_conflict :: "lock_chk_mode \<Rightarrow> lock_chk_mode \<Rightarrow> bool" where
  "lock_chk_modes_conflict a b \<longleftrightarrow> a = MODE_EXCLUSIVE \<or> b = MODE_EXCLUSIVE"

definition lock_chk_map_class :: "lock_chk_map \<Rightarrow> lock_chk_class" where
  "lock_chk_map_class m = (case map_class m of None \<Rightarrow> instance_class m | Some c \<Rightarrow> c)"

definition lock_chk_type_is_spin :: "lock_chk_type \<Rightarrow> bool" where
  "lock_chk_type_is_spin t \<longleftrightarrow> t = TYPE_SPIN \<or> t = TYPE_QSPIN"

definition lock_chk_type_is_blocking :: "lock_chk_type \<Rightarrow> bool" where
  "lock_chk_type_is_blocking t \<longleftrightarrow> t = TYPE_MUTEX \<or> t = TYPE_MUTEX_SIMPLE \<or> t = TYPE_RWLOCK"

definition lock_chk_class_hash :: "lock_chk_class \<Rightarrow> nat \<Rightarrow> nat" where
  "lock_chk_class_hash c subclass =
     (let key = cls_at c
      in unat (drop_bit 4 key XOR drop_bit 13 key XOR of_nat subclass) mod LOCK_CHK_HASH_BUCKETS)"

definition lock_chk_mode_bit :: "lock_chk_mode \<Rightarrow> nat option" where
  "lock_chk_mode_bit mode =
     (if mode = MODE_SHARED \<or> mode = MODE_EXCLUSIVE
      then Some (if mode = MODE_EXCLUSIVE then 1 else 0) else None)"

definition lock_chk_mode_state :: "lock_chk_node \<Rightarrow> lock_chk_mode \<Rightarrow> nat option" where
  "lock_chk_mode_state node mode = map_option (\<lambda>b. n_id node * 2 + b) (lock_chk_mode_bit mode)"

definition lock_chk_state_mode :: "nat \<Rightarrow> lock_chk_mode" where
  "lock_chk_state_mode state = (if state mod 2 \<noteq> 0 then MODE_EXCLUSIVE else MODE_SHARED)"

definition lock_chk_state_node :: "lock_chk_graph \<Rightarrow> nat \<Rightarrow> lock_chk_node option" where
  "lock_chk_state_node g state = rd (nodes g) (state div 2)"

section \<open>Nodes\<close>

fun find_in :: "lock_chk_graph \<Rightarrow> lock_chk_class \<Rightarrow> nat \<Rightarrow> nat list \<Rightarrow> nat option option" where
  "find_in g c subclass [] = Some None"
| "find_in g c subclass (i # is) =
     do {
       n \<leftarrow> rd (nodes g) i;
       if cls_at (n_class n) = cls_at c \<and> n_subclass n = subclass then Some (Some i)
       else find_in g c subclass is
     }"

definition find_node :: "lock_chk_graph \<Rightarrow> lock_chk_class \<Rightarrow> nat \<Rightarrow> nat option option" where
  "find_node g c subclass =
     do {
       bucket \<leftarrow> rd (class_hash g) (lock_chk_class_hash c subclass);
       find_in g c subclass bucket
     }"

text \<open>\<open>in_interrupt\<close> is the answer of \<open>irq_in_interrupt()\<close>.\<close>

definition request_ctx :: "bool \<Rightarrow> lock_chk_acq_req \<Rightarrow> u8 option" where
  "request_ctx in_interrupt rq =
     (if rq_in_irq rq \<or> in_interrupt then Some CTX_IRQ
      else if rq_op_flags rq AND LOCK_OP_RAW \<noteq> 0 then
        (if IRQL_HIGH_LEVEL \<le> rq_prev_irql rq \<or> \<not> rq_irqs_enabled rq then Some CTX_SPIN_HIGH
         else Some CTX_SPIN_DISPATCH)
      else if rq_op_flags rq AND LOCK_OP_IRQ_MASK = LOCK_OP_IRQ_HIGH then Some CTX_SPIN_HIGH
      else if rq_op_flags rq AND LOCK_OP_IRQ_MASK \<noteq> 0 then Some CTX_SPIN_DISPATCH
      else None)"

definition record_ctx :: "bool \<Rightarrow> lock_chk_node \<Rightarrow> lock_chk_acq_req \<Rightarrow> (lock_chk_result \<times> lock_chk_node) option" where
  "record_ctx in_interrupt base rq =
     (if \<not> lock_chk_type_is_spin (lk_type (rq_lock rq)) then Some (RESULT_OK, base)
      else do {
        ctx \<leftarrow> request_ctx in_interrupt rq;
        if ctx = CTX_SPIN_DISPATCH \<and> context_bits base AND (CTX_SPIN_HIGH OR CTX_IRQ) \<noteq> 0 \<or>
           (ctx = CTX_SPIN_HIGH \<or> ctx = CTX_IRQ) \<and> context_bits base AND CTX_SPIN_DISPATCH \<noteq> 0
        then Some (RESULT_BAD_CONTEXT, base)
        else Some (RESULT_OK, base\<lparr>context_bits := context_bits base OR ctx\<rparr>)
      })"

text \<open>A new node in the next array entry, linked at the head of its hash bucket.\<close>

definition add_node :: "lock_chk_graph \<Rightarrow> lock_chk_class \<Rightarrow> nat \<Rightarrow> lock_chk_graph option" where
  "add_node g c subclass =
     (let i = length (nodes g); b = lock_chk_class_hash c subclass;
          n = \<lparr>n_id = i, n_class = c, n_subclass = subclass, context_bits = 0, out_edges = [], in_edges = []\<rparr>
      in do {
        bucket \<leftarrow> rd (class_hash g) b;
        Some (g\<lparr>nodes := nodes g @ [n], class_hash := (class_hash g)[b := i # bucket]\<rparr>)
      })"

text \<open>Find a node, or make it when there is room: \<open>Inl\<close> is an error result.\<close>

definition get_node :: "lock_chk_graph \<Rightarrow> lock_chk_class \<Rightarrow> nat \<Rightarrow> (lock_chk_result + nat \<times> lock_chk_graph) option" where
  "get_node g c subclass =
     do {
       found \<leftarrow> find_node g c subclass;
       case found of
         Some i \<Rightarrow> Some (Inr (i, g))
       | None \<Rightarrow>
           if length (nodes g) = LOCK_CHK_MAX_NODES then Some (Inl RESULT_NODE_CAPACITY)
           else do { g' \<leftarrow> add_node g c subclass; Some (Inr (length (nodes g), g')) }
     }"

definition record_base :: "bool \<Rightarrow> lock_chk_graph \<Rightarrow> nat \<Rightarrow> lock_chk_acq_req option \<Rightarrow>
    (lock_chk_result \<times> lock_chk_graph) option" where
  "record_base in_interrupt g base rq =
     (case rq of
        None \<Rightarrow> Some (RESULT_OK, g)
      | Some rq \<Rightarrow>
          do {
            n \<leftarrow> rd (nodes g) base;
            (res, n') \<leftarrow> record_ctx in_interrupt n rq;
            Some (res, g\<lparr>nodes := (nodes g)[base := n']\<rparr>)
          })"

text \<open>The result, the node stored through \<open>out\<close>, the graph and the map.\<close>

definition resolve_node :: "bool \<Rightarrow> lock_chk_graph \<Rightarrow> lock_chk_map \<Rightarrow> nat \<Rightarrow> lock_chk_acq_req option \<Rightarrow>
    (lock_chk_result \<times> nat option \<times> lock_chk_graph \<times> lock_chk_map) option" where
  "resolve_node in_interrupt g m subclass rq =
     (if LOCK_CHK_MAX_SUBCLASSES \<le> subclass then Some (RESULT_INTERNAL, None, g, m)
      else let c = lock_chk_map_class m
      in do {
        r \<leftarrow> get_node g c 0;
        case r of
          Inl err \<Rightarrow> Some (err, None, g, m)
        | Inr (base, g) \<Rightarrow>
            let m = m\<lparr>base_node := Some base\<rparr>
            in do {
              (res, g) \<leftarrow> record_base in_interrupt g base rq;
              if res \<noteq> RESULT_OK then Some (res, None, g, m)
              else if subclass = 0 then Some (RESULT_OK, Some base, g, m)
              else do {
                r \<leftarrow> get_node g c subclass;
                case r of
                  Inl err \<Rightarrow> Some (err, None, g, m)
                | Inr (i, g) \<Rightarrow> Some (RESULT_OK, Some i, g, m)
              }
            }
      })"

section \<open>Edges and paths\<close>

fun find_edge_in :: "lock_chk_graph \<Rightarrow> lock_chk_dep \<Rightarrow> lock_chk_dep \<Rightarrow> nat list \<Rightarrow> nat option option" where
  "find_edge_in g from to [] = Some None"
| "find_edge_in g from to (i # is) =
     do {
       e \<leftarrow> rd (edges g) i;
       if e_to e = d_node to \<and> e_from_mode e = d_mode from \<and> e_to_mode e = d_mode to then Some (Some i)
       else find_edge_in g from to is
     }"

definition find_edge :: "lock_chk_graph \<Rightarrow> lock_chk_dep \<Rightarrow> lock_chk_dep \<Rightarrow> nat option option" where
  "find_edge g from to = do { n \<leftarrow> rd (nodes g) (d_node from); find_edge_in g from to (out_edges n) }"

text \<open>A new search: the generation that marks visited states.\<close>

definition next_generation :: "lock_chk_graph \<Rightarrow> lock_chk_graph" where
  "next_generation g =
     (let gen = generation g + 1
      in if gen = 0 then g\<lparr>visit_generation := map (\<lambda>_. 0) (visit_generation g), generation := 1\<rparr>
         else g\<lparr>generation := gen\<rparr>)"

text \<open>Mark a state, remember how it was reached and push it.\<close>

definition visit :: "nat \<Rightarrow> int \<Rightarrow> int \<Rightarrow> lock_chk_graph \<times> nat list \<Rightarrow> (lock_chk_graph \<times> nat list) option" where
  "visit state parent edge = (\<lambda>(g, stack).
     do {
       vis \<leftarrow> wr (visit_generation g) state (generation g);
       ps \<leftarrow> wr (parent_state g) state parent;
       pe \<leftarrow> wr (parent_edge g) state edge;
       if length stack < LOCK_CHK_MODE_STATE_COUNT
       then Some (g\<lparr>visit_generation := vis, parent_state := ps, parent_edge := pe\<rparr>, state # stack)
       else None
     })"

text \<open>The inner loop over the outgoing edges of the state taken from the stack.\<close>

fun scan_edges :: "nat \<Rightarrow> lock_chk_mode \<Rightarrow> nat list \<Rightarrow> lock_chk_graph \<times> nat list \<Rightarrow> (lock_chk_graph \<times> nat list) option" where
  "scan_edges state mode [] gs = Some gs"
| "scan_edges state mode (i # is) gs =
     do {
       e \<leftarrow> rd (edges (fst gs)) i;
       if \<not> lock_chk_modes_conflict mode (e_from_mode e) then scan_edges state mode is gs
       else do {
         n \<leftarrow> rd (nodes (fst gs)) (e_to e);
         next \<leftarrow> lock_chk_mode_state n (e_to_mode e);
         seen \<leftarrow> rd (visit_generation (fst gs)) next;
         if seen = generation (fst gs) then scan_edges state mode is gs
         else do {
           gs \<leftarrow> visit next (int state) (int i) gs;
           scan_edges state mode is gs
         }
       }
     }"

text \<open>The states not yet visited, and the measure of the search.\<close>

definition unseen :: "lock_chk_graph \<Rightarrow> nat" where
  "unseen g = length (filter (\<lambda>v. v \<noteq> generation g) (visit_generation g))"

definition search_size :: "lock_chk_graph \<times> nat list \<Rightarrow> nat" where
  "search_size = (\<lambda>(g, stack). 2 * unseen g + length stack)"

lemma length_filter_update:
  assumes "i < length xs" "P (xs ! i)" "\<not> P x"
  shows "Suc (length (filter P (xs[i := x]))) = length (filter P xs)"
  using assms by (induction xs arbitrary: i) (auto split: nat.splits)

lemma visit_size:
  assumes "visit s p e (g, stack) = Some gs" "visit_generation g ! s \<noteq> generation g"
  shows "search_size gs < search_size (g, stack)"
  using assms length_filter_update [of s "visit_generation g" "\<lambda>v. v \<noteq> generation g" "generation g"]
  by (auto simp: visit_def wr_def search_size_def unseen_def Option.bind_eq_Some_conv split: if_splits)

lemma scan_edges_size: "scan_edges state mode is gs = Some gs' \<Longrightarrow> search_size gs' \<le> search_size gs"
proof (induction state mode "is" gs rule: scan_edges.induct)
  case (2 state mode i "is" gs)
  obtain g stack where gs: "gs = (g, stack)" by force
  from 2 show ?case unfolding gs
    by (fastforce simp: Option.bind_eq_Some_conv rd_def split: if_splits dest: visit_size)
qed simp

text \<open>The search loop: the answer and the graph.\<close>

function dfs :: "lock_chk_dep \<Rightarrow> lock_chk_graph \<times> nat list \<Rightarrow> (bool \<times> lock_chk_graph) option" where
  "dfs target (g, []) = Some (False, g)"
| "dfs target (g, state # stack) =
     (case lock_chk_state_node g state of
        None \<Rightarrow> None
      | Some n \<Rightarrow>
          let mode = lock_chk_state_mode state
          in if state div 2 = d_node target \<and> lock_chk_modes_conflict mode (d_mode target)
             then Some (True, g\<lparr>last_cycle_end_state := int state\<rparr>)
             else (case scan_edges state mode (out_edges n) (g, stack) of
                     None \<Rightarrow> None
                   | Some gs \<Rightarrow> dfs target gs))"
  by pat_completeness auto
termination
  by (relation "measure (search_size \<circ> snd)")
    (auto dest!: scan_edges_size simp: search_size_def)

definition graph_path :: "lock_chk_graph \<Rightarrow> lock_chk_dep \<Rightarrow> lock_chk_dep \<Rightarrow> (bool \<times> lock_chk_graph) option" where
  "graph_path g start target =
     (let g = next_generation g
      in do {
        n \<leftarrow> rd (nodes g) (d_node start);
        start_state \<leftarrow> lock_chk_mode_state n (d_mode start);
        gs \<leftarrow> visit start_state (- 1) (- 1) (g, []);
        dfs target gs
      })"

definition publish_edge :: "lock_chk_graph \<Rightarrow> lock_chk_dep \<Rightarrow> lock_chk_dep \<Rightarrow> lock_chk_site \<Rightarrow> lock_chk_graph option" where
  "publish_edge g from to site =
     (let i = length (edges g);
          e = \<lparr>e_from = d_node from, e_to = d_node to, e_from_mode = d_mode from, e_to_mode = d_mode to, first_site = site\<rparr>
      in if LOCK_CHK_MAX_EDGES \<le> i then None
         else do {
           n \<leftarrow> rd (nodes g) (d_node from);
           ns \<leftarrow> wr (nodes g) (d_node from) (n\<lparr>out_edges := out_edges n @ [i]\<rparr>);
           n \<leftarrow> rd ns (d_node to);
           ns \<leftarrow> wr ns (d_node to) (n\<lparr>in_edges := in_edges n @ [i]\<rparr>);
           Some (g\<lparr>nodes := ns, edges := edges g @ [e]\<rparr>)
         })"

section \<open>Cycle reports\<close>

record lock_chk_cycle_hop =
  from_class :: "lock_chk_class option"
  to_class :: "lock_chk_class option"
  hop_site :: lock_chk_site
  from_subclass :: nat
  to_subclass :: nat
  from_mode :: lock_chk_mode
  to_mode :: lock_chk_mode

text \<open>
  The walk back from the end state to the start of the search: the indices of the edges, the
  last one first, at most \<open>LOCK_CHK_MAX_CYCLE_HOPS\<close> of them. The fuel is the number of states: a
  longer walk would repeat a state and not end.
\<close>

fun walk_back :: "nat \<Rightarrow> lock_chk_graph \<Rightarrow> int \<Rightarrow> nat list \<Rightarrow> nat list option" where
  "walk_back 0 g cur acc = None"
| "walk_back (Suc fuel) g cur acc =
     (if cur < 0 then Some acc
      else do {
        p \<leftarrow> rd (parent_state g) (nat cur);
        if p = - 1 then Some acc
        else do {
          e \<leftarrow> rd (parent_edge g) (nat cur);
          walk_back fuel g p
            (if 0 \<le> e \<and> length acc < LOCK_CHK_MAX_CYCLE_HOPS then acc @ [nat e] else acc)
        }
      })"

definition make_hop :: "lock_chk_graph \<Rightarrow> nat \<Rightarrow> lock_chk_mode \<Rightarrow> nat \<Rightarrow> lock_chk_mode \<Rightarrow> lock_chk_site \<Rightarrow>
    lock_chk_cycle_hop option" where
  "make_hop g f fm t tm site =
     do {
       nf \<leftarrow> rd (nodes g) f;
       nt \<leftarrow> rd (nodes g) t;
       Some \<lparr>from_class = Some (n_class nf), to_class = Some (n_class nt), hop_site = site,
             from_subclass = n_subclass nf, to_subclass = n_subclass nt, from_mode = fm, to_mode = tm\<rparr>
     }"

definition edge_hop :: "lock_chk_graph \<Rightarrow> nat \<Rightarrow> lock_chk_cycle_hop option" where
  "edge_hop g i = do { e \<leftarrow> rd (edges g) i; make_hop g (e_from e) (e_from_mode e) (e_to e) (e_to_mode e) (first_site e) }"

fun all_some :: "'a option list \<Rightarrow> 'a list option" where
  "all_some [] = Some []"
| "all_some (x # xs) = do { v \<leftarrow> x; vs \<leftarrow> all_some xs; Some (v # vs) }"

text \<open>The hops and whether they were truncated.\<close>

definition extract_cycle :: "lock_chk_graph \<Rightarrow> lock_chk_dep \<Rightarrow> lock_chk_dep \<Rightarrow> lock_chk_site \<Rightarrow> nat \<Rightarrow>
    (lock_chk_cycle_hop list \<times> bool) option" where
  "extract_cycle g from to site max_hops =
     (if max_hops = 0 then Some ([], False)
      else do {
        idx \<leftarrow> walk_back (Suc LOCK_CHK_MODE_STATE_COUNT) g (last_cycle_end_state g) [];
        h \<leftarrow> make_hop g (d_node from) (d_mode from) (d_node to) (d_mode to) site;
        hs \<leftarrow> all_some (map (edge_hop g) (take (max_hops - 1) (rev idx)));
        Some (h # hs, max_hops < length idx + 1)
      })"

definition class_name :: "lock_chk_class option \<Rightarrow> string" where
  "class_name c = (case c of None \<Rightarrow> [] | Some c \<Rightarrow> cls_name c)"

definition class_file :: "lock_chk_class option \<Rightarrow> string" where
  "class_file c = (case c of None \<Rightarrow> [] | Some c \<Rightarrow> cls_file c)"

definition class_line :: "lock_chk_class option \<Rightarrow> u32" where
  "class_line c = (case c of None \<Rightarrow> 0 | Some c \<Rightarrow> cls_line c)"

definition mode_num :: "lock_chk_mode \<Rightarrow> nat" where
  "mode_num m = (case m of MODE_IGNORED \<Rightarrow> 0 | MODE_SHARED \<Rightarrow> 1 | MODE_EXCLUSIVE \<Rightarrow> 2)"

definition cmp3 :: "'a::linorder \<Rightarrow> 'a \<Rightarrow> int" where
  "cmp3 a b = (if a \<noteq> b then (if a < b then - 1 else 1) else 0)"

definition first_nonzero :: "int list \<Rightarrow> int" where
  "first_nonzero cs = (case dropWhile (\<lambda>c. c = 0) cs of [] \<Rightarrow> 0 | c # _ \<Rightarrow> c)"

definition hops_cmp :: "lock_chk_cycle_hop \<Rightarrow> lock_chk_cycle_hop \<Rightarrow> int" where
  "hops_cmp a b = first_nonzero
     [strcmp (class_name (from_class a)) (class_name (from_class b)),
      strcmp (class_file (from_class a)) (class_file (from_class b)),
      cmp3 (class_line (from_class a)) (class_line (from_class b)),
      cmp3 (from_subclass a) (from_subclass b),
      cmp3 (mode_num (from_mode a)) (mode_num (from_mode b)),
      strcmp (class_name (to_class a)) (class_name (to_class b)),
      strcmp (class_file (to_class a)) (class_file (to_class b)),
      cmp3 (class_line (to_class a)) (class_line (to_class b)),
      cmp3 (to_subclass a) (to_subclass b),
      cmp3 (mode_num (to_mode a)) (mode_num (to_mode b))]"

definition compare_rotations :: "lock_chk_cycle_hop list \<Rightarrow> nat \<Rightarrow> nat \<Rightarrow> int" where
  "compare_rotations hops rot_a rot_b =
     first_nonzero (map (\<lambda>offset. hops_cmp (hops ! ((rot_a + offset) mod length hops))
                                           (hops ! ((rot_b + offset) mod length hops)))
                        [0..<length hops])"

definition HASH_FNV1A_64_OFFSET_BASIS :: u64 where "HASH_FNV1A_64_OFFSET_BASIS = 14695981039346656037"
definition HASH_FNV1A_64_PRIME :: u64 where "HASH_FNV1A_64_PRIME = 1099511628211"

definition hash_fnv1a_64_update :: "u64 \<Rightarrow> u8 list \<Rightarrow> u64" where
  "hash_fnv1a_64_update hash data = foldl (\<lambda>h b. (h XOR ucast b) * HASH_FNV1A_64_PRIME) hash data"

definition lock_chk_hash_bytes :: "u64 \<Rightarrow> u8 list \<Rightarrow> u64" where
  "lock_chk_hash_bytes hash data = hash_fnv1a_64_update hash data"

definition lock_chk_hash_str :: "u64 \<Rightarrow> string \<Rightarrow> u64" where
  "lock_chk_hash_str hash str = lock_chk_hash_bytes hash (map (\<lambda>c. of_nat (of_char c)) (take (strlen str) str))"

text \<open>The bytes of a 32-bit line number in memory, the lowest first.\<close>

definition line_bytes :: "u32 \<Rightarrow> u8 list" where
  "line_bytes l = map (\<lambda>k. ucast (drop_bit (8 * k) l)) [0..<4]"

definition hash_hop :: "u64 \<Rightarrow> lock_chk_cycle_hop \<Rightarrow> u64" where
  "hash_hop s hop =
     (let s = lock_chk_hash_str s (class_name (from_class hop));
          s = lock_chk_hash_str s (class_file (from_class hop));
          s = lock_chk_hash_bytes s (line_bytes (class_line (from_class hop)));
          s = lock_chk_hash_bytes s [of_nat (from_subclass hop)];
          s = lock_chk_hash_bytes s [of_nat (mode_num (from_mode hop))];
          s = lock_chk_hash_str s (class_name (to_class hop));
          s = lock_chk_hash_str s (class_file (to_class hop));
          s = lock_chk_hash_bytes s (line_bytes (class_line (to_class hop)));
          s = lock_chk_hash_bytes s [of_nat (to_subclass hop)]
      in lock_chk_hash_bytes s [of_nat (mode_num (to_mode hop))])"

definition best_rotation :: "lock_chk_cycle_hop list \<Rightarrow> nat" where
  "best_rotation hops =
     foldl (\<lambda>best i. if compare_rotations hops i best < 0 then i else best) 0 [1..<length hops]"

definition lock_chk_calc_sig :: "lock_chk_cycle_hop list \<Rightarrow> u64" where
  "lock_chk_calc_sig hops =
     (if hops = [] then 0
      else let best_rot = best_rotation hops
           in foldl hash_hop HASH_FNV1A_64_OFFSET_BASIS
                (map (\<lambda>step. hops ! ((best_rot + step) mod length hops)) [0..<length hops]))"

section \<open>Failures\<close>

datatype lock_chk_failure_kind =
    FAIL_CYCLE | FAIL_RECURSION | FAIL_RELEASE | FAIL_CONTEXT | FAIL_THREAD_EXIT | FAIL_SPIN_ORDER
  | FAIL_CAPACITY | FAIL_UNINITIALIZED | FAIL_NOT_HELD | FAIL_UNEXPECTED_HELD

text \<open>The fields of the fault and its report that decide what is reported; messages are left out.\<close>

record lock_chk_fault =
  f_kind :: lock_chk_failure_kind
  f_class :: "lock_chk_class option"
  f_mode :: lock_chk_mode
  f_subclass :: nat
  f_report :: "(lock_chk_cycle_hop list \<times> bool \<times> u64) option"

text \<open>
  The single report buffer is claimed by the first failure; \<open>busy\<close> is its flag. The result
  is the fault and the flag after the claim.
\<close>

definition make_cycle_fail :: "lock_chk_graph \<Rightarrow> bool \<Rightarrow> lock_chk_site \<Rightarrow> lock_chk_dep \<Rightarrow> lock_chk_dep \<Rightarrow>
    (lock_chk_fault \<times> bool) option" where
  "make_cycle_fail g busy site from to =
     do {
       n \<leftarrow> rd (nodes g) (d_node to);
       rep \<leftarrow> (if busy then Some None
               else do {
                 (hops, truncated) \<leftarrow> extract_cycle g from to site LOCK_CHK_MAX_CYCLE_HOPS;
                 Some (Some (hops, truncated, lock_chk_calc_sig hops))
               });
       Some (\<lparr>f_kind = FAIL_CYCLE, f_class = Some (n_class n), f_mode = d_mode to, f_subclass = n_subclass n,
              f_report = rep\<rparr>, True)
     }"

definition make_cap_fail :: "lock_chk_graph \<Rightarrow> bool \<Rightarrow> nat \<Rightarrow> (lock_chk_fault \<times> bool) option" where
  "make_cap_fail g busy to =
     do {
       n \<leftarrow> rd (nodes g) to;
       Some (\<lparr>f_kind = FAIL_CAPACITY, f_class = Some (n_class n), f_mode = MODE_IGNORED, f_subclass = n_subclass n,
              f_report = (if busy then None else Some ([], False, 0))\<rparr>, True)
     }"

section \<open>Adding dependencies\<close>

text \<open>
  The result, the fault (when the caller gave room for one), the report flag and the graph.
\<close>

type_synonym dep_outcome = "lock_chk_result \<times> lock_chk_fault option \<times> bool \<times> lock_chk_graph"

definition cycle_outcome :: "lock_chk_graph \<Rightarrow> bool \<Rightarrow> bool \<Rightarrow> lock_chk_site \<Rightarrow> lock_chk_dep \<Rightarrow> lock_chk_dep \<Rightarrow>
    dep_outcome option" where
  "cycle_outcome g busy want_fault site from to =
     (if want_fault
      then do { (f, busy) \<leftarrow> make_cycle_fail g busy site from to; Some (RESULT_CYCLE, Some f, busy, g) }
      else Some (RESULT_CYCLE, None, busy, g))"

definition cap_outcome :: "lock_chk_graph \<Rightarrow> bool \<Rightarrow> bool \<Rightarrow> nat \<Rightarrow> dep_outcome option" where
  "cap_outcome g busy want_fault to =
     (if want_fault
      then do { (f, busy) \<leftarrow> make_cap_fail g busy to; Some (RESULT_EDGE_CAPACITY, Some f, busy, g) }
      else Some (RESULT_EDGE_CAPACITY, None, busy, g))"

definition lock_chk_graph_add_dep :: "lock_chk_graph \<Rightarrow> bool \<Rightarrow> bool \<Rightarrow> lock_chk_site \<Rightarrow> lock_chk_dep \<Rightarrow> lock_chk_dep \<Rightarrow>
    dep_outcome option" where
  "lock_chk_graph_add_dep g busy want_fault site from to =
     do {
       found \<leftarrow> find_edge g from to;
       if found \<noteq> None then Some (RESULT_OK, None, busy, g)
       else do {
         (cyc, g) \<leftarrow> graph_path g to from;
         if cyc then cycle_outcome g busy want_fault site from to
         else if length (edges g) = LOCK_CHK_MAX_EDGES then cap_outcome g busy want_fault (d_node to)
         else do { g \<leftarrow> publish_edge g from to site; Some (RESULT_OK, None, busy, g) }
       }
     }"

text \<open>The held locks of a thread: its array up to \<open>depth\<close>.\<close>

definition dep_repeated :: "lock_chk_held list \<Rightarrow> nat \<Rightarrow> bool" where
  "dep_repeated held index \<longleftrightarrow>
     (\<exists>i \<in> set [0..<index]. lk_flags (h_lock (held ! i)) AND LOCK_CHKD_ORDER \<noteq> 0 \<and>
        h_node (held ! i) = h_node (held ! index) \<and> h_mode (held ! i) = h_mode (held ! index))"

definition held_contribs :: "lock_chk_held list \<Rightarrow> nat \<Rightarrow> bool" where
  "held_contribs held index \<longleftrightarrow>
     lk_flags (h_lock (held ! index)) AND LOCK_CHKD_ORDER \<noteq> 0 \<and> \<not> dep_repeated held index"

text \<open>A held lock that takes part in the ordering has a node.\<close>

definition held_dep :: "lock_chk_held \<Rightarrow> lock_chk_dep option" where
  "held_dep h = map_option (\<lambda>n. \<lparr>d_node = n, d_mode = h_mode h\<rparr>) (h_node h)"

text \<open>The first loop of \<open>add_held_deps\<close>: \<open>Inl\<close> is a cycle, \<open>Inr\<close> the number of missing edges.\<close>

fun check_held :: "lock_chk_held list \<Rightarrow> lock_chk_dep \<Rightarrow> nat list \<Rightarrow> nat \<Rightarrow> lock_chk_graph \<Rightarrow>
    ((lock_chk_dep + nat) \<times> lock_chk_graph) option" where
  "check_held held to [] missing g = Some (Inr missing, g)"
| "check_held held to (i # is) missing g =
     (if \<not> held_contribs held i then check_held held to is missing g
      else do {
        from \<leftarrow> held_dep (held ! i);
        found \<leftarrow> find_edge g from to;
        if found \<noteq> None then check_held held to is missing g
        else do {
          (cyc, g) \<leftarrow> graph_path g to from;
          if cyc then Some (Inl from, g) else check_held held to is (Suc missing) g
        }
      })"

fun publish_held :: "lock_chk_held list \<Rightarrow> lock_chk_dep \<Rightarrow> lock_chk_site \<Rightarrow> nat list \<Rightarrow> lock_chk_graph \<Rightarrow>
    lock_chk_graph option" where
  "publish_held held to site [] g = Some g"
| "publish_held held to site (i # is) g =
     (if \<not> held_contribs held i then publish_held held to site is g
      else do {
        from \<leftarrow> held_dep (held ! i);
        found \<leftarrow> find_edge g from to;
        if found \<noteq> None then publish_held held to site is g
        else do { g \<leftarrow> publish_edge g from to site; publish_held held to site is g }
      })"

definition add_held_deps :: "lock_chk_graph \<Rightarrow> bool \<Rightarrow> bool \<Rightarrow> lock_chk_site \<Rightarrow> lock_chk_held list \<Rightarrow> lock_chk_dep \<Rightarrow>
    dep_outcome option" where
  "add_held_deps g busy want_fault site held to =
     do {
       (r, g) \<leftarrow> check_held held to [0..<length held] 0 g;
       case r of
         Inl from \<Rightarrow> cycle_outcome g busy want_fault site from to
       | Inr missing \<Rightarrow>
           if LOCK_CHK_MAX_EDGES - length (edges g) < missing then cap_outcome g busy want_fault (d_node to)
           else do { g \<leftarrow> publish_held held to site [0..<length held] g; Some (RESULT_OK, None, busy, g) }
     }"

text \<open>Dropping the nodes made since: the last array entry goes first, off its hash list.\<close>

function rollback_nodes :: "lock_chk_graph \<Rightarrow> nat \<Rightarrow> lock_chk_graph" where
  "rollback_nodes g old =
     (if old < length (nodes g)
      then rollback_nodes (g\<lparr>nodes := butlast (nodes g),
             class_hash := map (removeAll (length (nodes g) - 1)) (class_hash g)\<rparr>) old
      else g)"
  by pat_completeness auto
termination by (relation "measure (length \<circ> nodes \<circ> fst)") auto

declare rollback_nodes.simps [simp del]

definition restore_ctx :: "nat option \<Rightarrow> u8 \<Rightarrow> lock_chk_graph \<Rightarrow> lock_chk_graph option" where
  "restore_ctx base bits g =
     (case base of
        None \<Rightarrow> Some g
      | Some i \<Rightarrow> do { n \<leftarrow> rd (nodes g) i; ns \<leftarrow> wr (nodes g) i (n\<lparr>context_bits := bits\<rparr>); Some (g\<lparr>nodes := ns\<rparr>) })"

text \<open>The outcome, with the node stored through \<open>out\<close> and the map.\<close>

definition lock_chk_graph_prepare_acq :: "bool \<Rightarrow> lock_chk_graph \<Rightarrow> bool \<Rightarrow> bool \<Rightarrow> lock_chk_map \<Rightarrow> nat \<Rightarrow>
    lock_chk_acq_req \<Rightarrow> lock_chk_held list \<Rightarrow> (dep_outcome \<times> nat option \<times> lock_chk_map) option" where
  "lock_chk_graph_prepare_acq in_interrupt g busy want_fault m subclass rq held =
     do {
       existing \<leftarrow> find_node g (lock_chk_map_class m) 0;
       old_bits \<leftarrow> (case existing of None \<Rightarrow> Some 0 | Some i \<Rightarrow> map_option context_bits (rd (nodes g) i));
       let old_count = length (nodes g);
       let rollback = (\<lambda>res f busy g'.
         do { g' \<leftarrow> restore_ctx existing old_bits (rollback_nodes g' old_count);
              Some ((res, f, busy, g'), None, m) });
       (res, out, g', m') \<leftarrow> resolve_node in_interrupt g m subclass (Some rq);
       if res \<noteq> RESULT_OK then rollback res None busy g'
       else if rq_op_flags rq AND LOCK_OP_KIND_MASK = LOCK_OP_KIND_BLOCKING then
         do {
           i \<leftarrow> out;
           (res, f, busy, g') \<leftarrow> add_held_deps g' busy want_fault (rq_site rq) held \<lparr>d_node = i, d_mode = rq_mode rq\<rparr>;
           if res \<noteq> RESULT_OK then rollback res f busy g'
           else Some ((RESULT_OK, None, busy, g'), Some i, m')
         }
       else Some ((RESULT_OK, None, busy, g'), out, m')
     }"

definition lock_chk_graph_init :: "lock_chk_graph \<Rightarrow> lock_chk_graph" where
  "lock_chk_graph_init g =
     g\<lparr>nodes := [], edges := [], generation := 0, last_cycle_end_state := - 1,
       class_hash := map (\<lambda>_. []) (class_hash g), visit_generation := map (\<lambda>_. 0) (visit_generation g)\<rparr>"

definition lock_chk_graph_resolve_node :: "bool \<Rightarrow> lock_chk_graph \<Rightarrow> lock_chk_map \<Rightarrow> nat \<Rightarrow> lock_chk_acq_req option \<Rightarrow>
    (lock_chk_result \<times> nat option \<times> lock_chk_graph \<times> lock_chk_map) option" where
  "lock_chk_graph_resolve_node in_interrupt g m subclass rq = resolve_node in_interrupt g m subclass rq"

end
