(* ===== verification/LockPath.thy ===== *)
theory LockPath
  imports LockGraph
begin

text \<open>
  Correctness of the lock validator's dependency graph: the search decides reachability between
  lock states, and every accepted acquisition keeps the dependencies free of cycles.
\<close>

section \<open>Well-formed graphs\<close>

definition node_hash :: "lock_chk_node \<Rightarrow> nat" where
  "node_hash n = lock_chk_class_hash (n_class n) (n_subclass n)"

definition edge_ok :: "nat \<Rightarrow> lock_chk_edge \<Rightarrow> bool" where
  "edge_ok n e \<longleftrightarrow> e_from e < n \<and> e_to e < n \<and> e_from_mode e \<noteq> MODE_IGNORED \<and> e_to_mode e \<noteq> MODE_IGNORED"

definition arrays_ok :: "lock_chk_graph \<Rightarrow> bool" where
  "arrays_ok g \<longleftrightarrow>
     length (visit_generation g) = LOCK_CHK_MODE_STATE_COUNT \<and> length (parent_state g) = LOCK_CHK_MODE_STATE_COUNT \<and>
     length (parent_edge g) = LOCK_CHK_MODE_STATE_COUNT"

definition out_ok :: "lock_chk_graph \<Rightarrow> bool" where
  "out_ok g \<longleftrightarrow> (\<forall>i < length (nodes g). n_id (nodes g ! i) = i \<and>
     out_edges (nodes g ! i) = filter (\<lambda>k. e_from (edges g ! k) = i) [0..<length (edges g)] \<and>
     in_edges (nodes g ! i) = filter (\<lambda>k. e_to (edges g ! k) = i) [0..<length (edges g)])"

definition hash_ok :: "lock_chk_graph \<Rightarrow> bool" where
  "hash_ok g \<longleftrightarrow> class_hash g =
     map (\<lambda>b. rev (filter (\<lambda>i. node_hash (nodes g ! i) = b) [0..<length (nodes g)])) [0..<LOCK_CHK_HASH_BUCKETS]"

definition graph_ok :: "lock_chk_graph \<Rightarrow> bool" where
  "graph_ok g \<longleftrightarrow> arrays_ok g \<and> out_ok g \<and> hash_ok g \<and>
     length (nodes g) \<le> LOCK_CHK_MAX_NODES \<and> length (edges g) \<le> LOCK_CHK_MAX_EDGES \<and>
     (\<forall>e \<in> set (edges g). edge_ok (length (nodes g)) e) \<and>
     (\<forall>v \<in> set (visit_generation g). v \<le> generation g)"

section \<open>Lock states and the steps between them\<close>

text \<open>A state is a node with the mode it is held in.\<close>

definition mode_bit :: "lock_chk_mode \<Rightarrow> nat" where
  "mode_bit m = (if m = MODE_EXCLUSIVE then 1 else 0)"

definition state_of :: "nat \<Rightarrow> lock_chk_mode \<Rightarrow> nat" where
  "state_of n m = n * 2 + mode_bit m"

lemma state_of_div [simp]: "state_of n m div 2 = n"
  by (simp add: state_of_def mode_bit_def)

lemma state_of_mode [simp]: "m \<noteq> MODE_IGNORED \<Longrightarrow> lock_chk_state_mode (state_of n m) = m"
  by (cases m) (auto simp: state_of_def mode_bit_def lock_chk_state_mode_def mod_Suc)

lemma state_of_bound: "n < k \<Longrightarrow> state_of n m < k * 2"
  by (simp add: state_of_def mode_bit_def)

lemma mode_state_of: "m \<noteq> MODE_IGNORED \<Longrightarrow> lock_chk_mode_state n m = Some (state_of (n_id n) m)"
  by (cases m) (auto simp: lock_chk_mode_state_def lock_chk_mode_bit_def state_of_def mode_bit_def)

text \<open>An edge leads on from a state when the modes conflict at its start.\<close>

definition leads :: "nat \<Rightarrow> lock_chk_edge \<Rightarrow> bool" where
  "leads s e \<longleftrightarrow> e_from e = s div 2 \<and> lock_chk_modes_conflict (lock_chk_state_mode s) (e_from_mode e)"

definition target_state :: "lock_chk_edge \<Rightarrow> nat" where
  "target_state e = state_of (e_to e) (e_to_mode e)"

definition steps :: "lock_chk_edge set \<Rightarrow> (nat \<times> nat) set" where
  "steps E = {(s, target_state e) | s e. e \<in> E \<and> leads s e}"

definition blocks_dep :: "lock_chk_dep \<Rightarrow> nat \<Rightarrow> bool" where
  "blocks_dep d s \<longleftrightarrow> s div 2 = d_node d \<and> lock_chk_modes_conflict (lock_chk_state_mode s) (d_mode d)"

section \<open>One scan of a state's edges\<close>

definition seen :: "lock_chk_graph \<Rightarrow> nat set" where
  "seen g = {s. s < length (visit_generation g) \<and> visit_generation g ! s = generation g}"

definition same_graph :: "lock_chk_graph \<Rightarrow> lock_chk_graph \<Rightarrow> bool" where
  "same_graph g h \<longleftrightarrow> nodes h = nodes g \<and> edges h = edges g \<and> class_hash h = class_hash g"

text \<open>A search state: the arrays have their sizes and the stack holds distinct visited states.\<close>

definition search_ok :: "lock_chk_graph \<Rightarrow> lock_chk_graph \<Rightarrow> nat list \<Rightarrow> bool" where
  "search_ok g0 g stack \<longleftrightarrow> same_graph g0 g \<and> generation g = generation g0 \<and> arrays_ok g \<and>
     distinct stack \<and> set stack \<subseteq> seen g \<and> (\<forall>v \<in> set (visit_generation g). v \<le> generation g)"

lemma seen_bound: "arrays_ok g \<Longrightarrow> seen g \<subseteq> {..<LOCK_CHK_MODE_STATE_COUNT}"
  by (auto simp: seen_def arrays_ok_def)

lemma visit_ok:
  assumes "search_ok g0 g stack" "s \<notin> seen g" "s < LOCK_CHK_MODE_STATE_COUNT"
  shows "\<exists>g'. visit s p e (g, stack) = Some (g', s # stack) \<and> search_ok g0 g' (s # stack) \<and> seen g' = insert s (seen g) \<and>
    parent_state g' = (parent_state g)[s := p] \<and> parent_edge g' = (parent_edge g)[s := e]"
proof -
  have a: "arrays_ok g" and st: "distinct stack" "set stack \<subseteq> seen g" using assms(1) by (auto simp: search_ok_def)
  have "set stack \<subseteq> {..<LOCK_CHK_MODE_STATE_COUNT} - {s}" using st(2) seen_bound [OF a] assms(2) by blast
  then have "length stack \<le> card ({..<LOCK_CHK_MODE_STATE_COUNT} - {s})"
    using card_mono distinct_card [OF st(1)] by (metis finite_Diff finite_lessThan)
  then have "length stack < LOCK_CHK_MODE_STATE_COUNT" using assms(3) by simp
  then show ?thesis using assms a
    by (auto simp: visit_def wr_def arrays_ok_def search_ok_def same_graph_def seen_def nth_list_update
        dest!: set_update_subset_insert [THEN subsetD])
qed

lemma scan_step:
  assumes "search_ok g0 g stack" "i < length (edges g0)" "\<forall>e \<in> set (edges g0). edge_ok (length (nodes g0)) e"
    and "length (nodes g0) \<le> LOCK_CHK_MAX_NODES" "\<forall>i < length (nodes g0). n_id (nodes g0 ! i) = i"
    and "e_from (edges g0 ! i) = s div 2"
  shows "target_state (edges g0 ! i) < LOCK_CHK_MODE_STATE_COUNT"
    and "scan_edges s (lock_chk_state_mode s) (i # is) (g, stack) =
      (if \<not> leads s (edges g0 ! i) \<or> target_state (edges g0 ! i) \<in> seen g
       then scan_edges s (lock_chk_state_mode s) is (g, stack)
       else do { gs \<leftarrow> visit (target_state (edges g0 ! i)) (int s) (int i) (g, stack);
                 scan_edges s (lock_chk_state_mode s) is gs })"
proof -
  let ?e = "edges g0 ! i"
  have g: "nodes g = nodes g0" "edges g = edges g0" "generation g = generation g0" "arrays_ok g"
    using assms(1) by (auto simp: search_ok_def same_graph_def)
  have e: "edge_ok (length (nodes g0)) ?e" using assms(2,3) by simp
  have nx: "lock_chk_mode_state (nodes g0 ! e_to ?e) (e_to_mode ?e) = Some (target_state ?e)"
    using e assms(5) mode_state_of [of "e_to_mode ?e" "nodes g0 ! e_to ?e"] by (auto simp: edge_ok_def target_state_def)
  show b: "target_state ?e < LOCK_CHK_MODE_STATE_COUNT"
    using e state_of_bound [of "e_to ?e" "length (nodes g0)" "e_to_mode ?e"] assms(4)
    by (auto simp: edge_ok_def target_state_def LOCK_CHK_MODE_STATE_COUNT_def)
  show "scan_edges s (lock_chk_state_mode s) (i # is) (g, stack) =
      (if \<not> leads s ?e \<or> target_state ?e \<in> seen g then scan_edges s (lock_chk_state_mode s) is (g, stack)
       else do { gs \<leftarrow> visit (target_state ?e) (int s) (int i) (g, stack); scan_edges s (lock_chk_state_mode s) is gs })"
    using assms(2,6) e nx b g by (simp add: rd_def edge_ok_def seen_def arrays_ok_def leads_def)
qed

lemma scan_edges_ok:
  assumes "search_ok g0 g stack" "\<forall>i \<in> set is. i < length (edges g0)" "\<forall>e \<in> set (edges g0). edge_ok (length (nodes g0)) e"
    and "length (nodes g0) \<le> LOCK_CHK_MAX_NODES" "\<forall>i < length (nodes g0). n_id (nodes g0 ! i) = i"
    and "\<forall>i \<in> set is. e_from (edges g0 ! i) = s div 2"
  shows "\<exists>g' new. scan_edges s (lock_chk_state_mode s) is (g, stack) = Some (g', new @ stack) \<and> search_ok g0 g' (new @ stack) \<and>
    seen g' = seen g \<union> set new \<and>
    set new \<union> seen g = (\<lambda>i. target_state (edges g0 ! i)) ` {i \<in> set is. leads s (edges g0 ! i)} \<union> seen g"
  using assms(1,2,6)
proof (induction "is" arbitrary: g stack)
  case Nil
  then show ?case by (intro exI [of _ g] exI [of _ "[]"]) simp
next
  case (Cons i "is")
  let ?e = "edges g0 ! i" and ?m = "lock_chk_state_mode s"
  have i: "i < length (edges g0)" "e_from ?e = s div 2" using Cons.prems by auto
  have rest: "\<forall>i \<in> set is. i < length (edges g0)" "\<forall>i \<in> set is. e_from (edges g0 ! i) = s div 2" using Cons.prems by auto
  note step = scan_step [OF Cons.prems(1) i(1) assms(3-5) i(2)]
  show ?case
  proof (cases "\<not> leads s ?e \<or> target_state ?e \<in> seen g")
    case True
    then have "(\<lambda>i. target_state (edges g0 ! i)) ` {j \<in> set (i # is). leads s (edges g0 ! j)} \<union> seen g =
        (\<lambda>i. target_state (edges g0 ! i)) ` {j \<in> set is. leads s (edges g0 ! j)} \<union> seen g" by auto
    then show ?thesis using Cons.IH [OF Cons.prems(1) rest] True unfolding step(2) by (simp only: if_True)
  next
    case False
    then have l: "{j \<in> set (i # is). leads s (edges g0 ! j)} = insert i {j \<in> set is. leads s (edges g0 ! j)}" by auto
    from False obtain g1 where g1: "visit (target_state ?e) (int s) (int i) (g, stack) = Some (g1, target_state ?e # stack)"
      "search_ok g0 g1 (target_state ?e # stack)" "seen g1 = insert (target_state ?e) (seen g)"
      using visit_ok [OF Cons.prems(1) _ step(1)] by blast
    obtain g' new where r: "scan_edges s ?m is (g1, target_state ?e # stack) = Some (g', new @ target_state ?e # stack)"
      "search_ok g0 g' (new @ target_state ?e # stack)" "seen g' = seen g1 \<union> set new"
      "set new \<union> seen g1 = (\<lambda>i. target_state (edges g0 ! i)) ` {i \<in> set is. leads s (edges g0 ! i)} \<union> seen g1"
      using Cons.IH [OF g1(2) rest] by blast
    show ?thesis unfolding step(2) l using False g1 r
      by (intro exI [of _ g'] exI [of _ "new @ [target_state ?e]"]) auto
  qed
qed

section \<open>The search decides reachability\<close>

definition reach :: "lock_chk_edge set \<Rightarrow> nat \<Rightarrow> nat set" where
  "reach E s = (steps E)\<^sup>* `` {s}"

text \<open>The states left behind by the search: followed up, and none of them blocks the target.\<close>

definition done_with :: "lock_chk_edge set \<Rightarrow> lock_chk_dep \<Rightarrow> nat set \<Rightarrow> nat \<Rightarrow> bool" where
  "done_with E target V s \<longleftrightarrow> steps E `` {s} \<subseteq> V \<and> \<not> blocks_dep target s"

lemma reach_node:
  assumes "\<forall>e \<in> E. edge_ok n e" "s div 2 < n" "t \<in> reach E s"
  shows "t div 2 < n"
proof -
  have "(s, t) \<in> (steps E)\<^sup>*" using assms(3) by (simp add: reach_def)
  then show ?thesis using assms(1,2)
    by (induction rule: rtrancl_induct) (auto simp: steps_def target_state_def edge_ok_def)
qed

lemma steps_image: "steps E `` {s} = target_state ` {e \<in> E. leads s e}"
  by (auto simp: steps_def)

lemma closed_reach:
  assumes "s \<in> V" "\<forall>t \<in> V. steps E `` {t} \<subseteq> V"
  shows "reach E s \<subseteq> V"
proof
  fix t
  assume "t \<in> reach E s"
  then have "(s, t) \<in> (steps E)\<^sup>*" by (simp add: reach_def)
  then show "t \<in> V" using assms by (induction rule: rtrancl_induct) auto
qed

lemma dfs_correct:
  assumes "graph_ok g0" "search_ok g0 g stack" "s0 \<in> seen g" "s0 div 2 < length (nodes g0)"
    and "seen g \<subseteq> reach (set (edges g0)) s0"
    and "\<forall>s \<in> seen g - set stack. done_with (set (edges g0)) target (seen g) s"
  shows "\<exists>b g'. dfs target (g, stack) = Some (b, g') \<and> same_graph g0 g' \<and> arrays_ok g' \<and>
    (\<forall>v \<in> set (visit_generation g'). v \<le> generation g') \<and>
    (b \<longleftrightarrow> (\<exists>t \<in> reach (set (edges g0)) s0. blocks_dep target t))"
  using assms
proof (induction target "(g, stack)" arbitrary: g stack rule: dfs.induct)
  case (1 target g)
  let ?E = "set (edges g0)"
  have "\<forall>t \<in> seen g. steps ?E `` {t} \<subseteq> seen g \<and> \<not> blocks_dep target t" using 1 by (auto simp: done_with_def)
  then have "\<not> (\<exists>t \<in> reach ?E s0. blocks_dep target t)" using closed_reach [of s0 "seen g" ?E] 1(3) by blast
  then show ?case using 1(2) by (auto simp: search_ok_def)
next
  case (2 target g s stack)
  let ?E = "set (edges g0)"
  note ok = \<open>graph_ok g0\<close> and S = \<open>search_ok g0 g (s # stack)\<close>
  have gr: "nodes g = nodes g0" "edges g = edges g0" using S by (auto simp: search_ok_def same_graph_def)
  have E: "\<forall>e \<in> ?E. edge_ok (length (nodes g0)) e" using ok by (simp add: graph_ok_def)
  have sR: "s \<in> reach ?E s0" using S 2(6) by (auto simp: search_ok_def)
  then have sn: "s div 2 < length (nodes g0)" using reach_node [OF E 2(5)] by blast
  define n where "n = nodes g0 ! (s div 2)"
  have node: "lock_chk_state_node g s = Some n" using sn gr by (simp add: lock_chk_state_node_def rd_def n_def)
  show ?case
  proof (cases "blocks_dep target s")
    case True
    then have "dfs target (g, s # stack) = Some (True, g\<lparr>last_cycle_end_state := int s\<rparr>)"
      using node by (simp add: blocks_dep_def Let_def)
    then show ?thesis using True sR S by (auto simp: search_ok_def same_graph_def arrays_ok_def)
  next
    case False
    have out: "out_edges n = filter (\<lambda>k. e_from (edges g0 ! k) = s div 2) [0..<length (edges g0)]"
      "\<forall>i < length (nodes g0). n_id (nodes g0 ! i) = i"
      using ok sn by (auto simp: graph_ok_def out_ok_def n_def)
    have S': "search_ok g0 g stack" using S by (auto simp: search_ok_def)
    have ix: "\<forall>i \<in> set (out_edges n). i < length (edges g0)" "\<forall>i \<in> set (out_edges n). e_from (edges g0 ! i) = s div 2"
      by (simp_all add: out(1))
    have len: "length (nodes g0) \<le> LOCK_CHK_MAX_NODES" using ok by (simp add: graph_ok_def)
    obtain g1 new where sc: "scan_edges s (lock_chk_state_mode s) (out_edges n) (g, stack) = Some (g1, new @ stack)"
      "search_ok g0 g1 (new @ stack)" "seen g1 = seen g \<union> set new"
      "set new \<union> seen g = (\<lambda>i. target_state (edges g0 ! i)) ` {i \<in> set (out_edges n). leads s (edges g0 ! i)} \<union> seen g"
      using scan_edges_ok [OF S' ix(1) E len out(2) ix(2)] by blast
    have "{i \<in> set (out_edges n). leads s (edges g0 ! i)} = {i. i < length (edges g0) \<and> leads s (edges g0 ! i)}"
      by (auto simp: out(1) leads_def)
    then have "(\<lambda>i. target_state (edges g0 ! i)) ` {i \<in> set (out_edges n). leads s (edges g0 ! i)} = steps ?E `` {s}"
      by (auto simp: steps_image set_conv_nth)
    then have st: "seen g1 = steps ?E `` {s} \<union> seen g" using sc(3,4) by auto
    have dfs: "dfs target (g, s # stack) = dfs target (g1, new @ stack)"
      using node sc(1) False by (auto simp: blocks_dep_def Let_def)
    have "\<forall>t \<in> seen g1 - set (new @ stack). done_with ?E target (seen g1) t"
    proof
      fix t
      assume t: "t \<in> seen g1 - set (new @ stack)"
      then have tg: "t \<in> seen g" using sc(3) by auto
      show "done_with ?E target (seen g1) t"
      proof (cases "t = s")
        case True
        then show ?thesis using False st by (auto simp: done_with_def)
      next
        case f: False
        then have "done_with ?E target (seen g) t" using 2(7) t tg by auto
        then show ?thesis using sc(3) by (auto simp: done_with_def)
      qed
    qed
    moreover have "seen g1 \<subseteq> reach ?E s0"
      using st sR 2(6) by (auto simp: reach_def intro: rtrancl_into_rtrancl)
    moreover have "\<not> (s div 2 = d_node target \<and> lock_chk_modes_conflict (lock_chk_state_mode s) (d_mode target))"
      using False by (simp add: blocks_dep_def)
    moreover have "s0 \<in> seen g1" using 2(4) sc(3) by simp
    ultimately show ?thesis unfolding dfs using 2(1) [OF node refl _ sc(1)] ok sc(2) 2(5) by blast
  qed
qed

lemma next_generation_ok:
  assumes "arrays_ok g" "\<forall>v \<in> set (visit_generation g). v \<le> generation g"
  shows "same_graph g (next_generation g)" "arrays_ok (next_generation g)" "seen (next_generation g) = {}"
    "\<forall>v \<in> set (visit_generation (next_generation g)). v \<le> generation (next_generation g)"
proof -
  show "same_graph g (next_generation g)" "arrays_ok (next_generation g)"
    using assms(1) by (auto simp: next_generation_def same_graph_def arrays_ok_def Let_def)
  have lt: "v < generation g + 1 \<and> v \<le> generation g + 1" if "generation g + 1 \<noteq> 0" "v \<le> generation g" for v
    using that unatSuc [of "generation g"] by (auto simp: word_less_nat_alt word_le_nat_alt add.commute)
  show "seen (next_generation g) = {}"
  proof (cases "generation g + 1 = 0")
    case False
    have "visit_generation g ! i \<noteq> generation g + 1" if "i < length (visit_generation g)" for i
      using lt [OF False] assms(2) that by (metis less_irrefl nth_mem)
    then show ?thesis using False by (auto simp: next_generation_def seen_def Let_def)
  qed (auto simp: next_generation_def seen_def Let_def)
  show "\<forall>v \<in> set (visit_generation (next_generation g)). v \<le> generation (next_generation g)"
    using assms(2) lt by (auto simp: next_generation_def Let_def)
qed

definition dep_ok :: "lock_chk_graph \<Rightarrow> lock_chk_dep \<Rightarrow> bool" where
  "dep_ok g d \<longleftrightarrow> d_node d < length (nodes g) \<and> d_mode d \<noteq> MODE_IGNORED"

definition dep_state :: "lock_chk_dep \<Rightarrow> nat" where
  "dep_state d = state_of (d_node d) (d_mode d)"

lemma same_graph_ok:
  assumes "graph_ok g" "same_graph g g'" "arrays_ok g'" "\<forall>v \<in> set (visit_generation g'). v \<le> generation g'"
  shows "graph_ok g'"
  using assms by (auto simp: graph_ok_def same_graph_def out_ok_def hash_ok_def)

lemma graph_path_start:
  assumes "graph_ok g" "dep_ok g start"
  shows "\<exists>g0 g1. graph_ok g0 \<and> same_graph g g0 \<and> search_ok g0 g1 [dep_state start] \<and> seen g1 = {dep_state start} \<and>
    parent_state g1 ! dep_state start = - 1 \<and> dep_state start div 2 < length (nodes g0) \<and>
    (\<forall>target. graph_path g start target = dfs target (g1, [dep_state start]))"
proof -
  let ?g = "next_generation g" and ?s = "dep_state start"
  have a: "arrays_ok g" "\<forall>v \<in> set (visit_generation g). v \<le> generation g" using assms(1) by (auto simp: graph_ok_def)
  note ng = next_generation_ok [OF a]
  have ok: "graph_ok ?g" using same_graph_ok [OF assms(1) ng(1,2,4)] .
  have gr: "nodes ?g = nodes g" "edges ?g = edges g" using ng(1) by (simp_all add: same_graph_def)
  have len: "length (nodes g) \<le> LOCK_CHK_MAX_NODES" using assms(1) by (simp add: graph_ok_def)
  have b: "?s < LOCK_CHK_MODE_STATE_COUNT"
    using state_of_bound [of "d_node start" LOCK_CHK_MAX_NODES "d_mode start"] assms(2) len
    by (simp add: dep_ok_def dep_state_def LOCK_CHK_MODE_STATE_COUNT_def)
  have "n_id (nodes g ! d_node start) = d_node start" using assms by (auto simp: graph_ok_def out_ok_def dep_ok_def)
  then have ms: "lock_chk_mode_state (nodes g ! d_node start) (d_mode start) = Some ?s"
    using mode_state_of assms(2) by (simp add: dep_ok_def dep_state_def)
  have "search_ok ?g ?g []" using ng by (simp add: search_ok_def same_graph_def)
  from visit_ok [OF this _ b, of "- 1" "- 1"] obtain g1 where g1: "visit ?s (- 1) (- 1) (?g, []) = Some (g1, [?s])"
    "search_ok ?g g1 [?s]" "seen g1 = {?s}" "parent_state g1 = (parent_state ?g)[?s := - 1]" using ng(3) by auto
  have "graph_path g start target = dfs target (g1, [?s])" for target
    using g1(1) ms assms(2) gr by (simp add: graph_path_def rd_def dep_ok_def Let_def)
  moreover have "?s div 2 < length (nodes ?g)" using assms(2) gr by (simp add: dep_state_def dep_ok_def)
  moreover have "parent_state g1 ! ?s = - 1" using g1(4) b ng(2) by (simp add: arrays_ok_def)
  ultimately show ?thesis using ok ng(1) g1(2,3) by (intro exI [of _ ?g] exI [of _ g1]) simp
qed

lemma graph_path_spec:
  assumes "graph_ok g" "dep_ok g start"
  shows "\<exists>b g'. graph_path g start target = Some (b, g') \<and> graph_ok g' \<and> same_graph g g' \<and>
    (b \<longleftrightarrow> (\<exists>t \<in> reach (set (edges g)) (dep_state start). blocks_dep target t))"
proof -
  let ?s = "dep_state start"
  obtain g0 g1 where g0: "graph_ok g0" "same_graph g g0" "search_ok g0 g1 [?s]" "seen g1 = {?s}"
    "parent_state g1 ! ?s = - 1" "?s div 2 < length (nodes g0)"
    and p: "\<forall>target. graph_path g start target = dfs target (g1, [?s])"
    using graph_path_start [OF assms] by (elim exE conjE)
  obtain b g' where "dfs target (g1, [?s]) = Some (b, g')" "same_graph g0 g'" "arrays_ok g'"
    "\<forall>v \<in> set (visit_generation g'). v \<le> generation g'" "b \<longleftrightarrow> (\<exists>t \<in> reach (set (edges g0)) ?s. blocks_dep target t)"
    using dfs_correct [OF g0(1,3), of ?s target] g0(4,6) by (auto simp: reach_def)
  then show ?thesis using p same_graph_ok [OF g0(1)] g0(2) by (auto simp: same_graph_def)
qed

text \<open>
  C11. The lock validator's search terminates, stays within its arrays and decides reachability:
  it answers true exactly when some chain of recorded dependencies leads from the start lock to a
  state that conflicts with the target lock. The dependencies themselves are not changed.
\<close>

theorem graph_path_decides:
  assumes "graph_ok g" "dep_ok g start"
  shows "\<exists>b g'. graph_path g start target = Some (b, g') \<and> graph_ok g' \<and> same_graph g g' \<and>
    (b \<longleftrightarrow> (\<exists>t \<in> reach (set (edges g)) (dep_state start). blocks_dep target t))"
  using assms by (rule graph_path_spec)

section \<open>Freedom from cycles\<close>

text \<open>
  One dependency follows another when the lock it leads to is the one the other starts from, in
  conflicting modes. A cycle of dependencies is a possible deadlock.
\<close>

definition follows :: "lock_chk_edge set \<Rightarrow> (lock_chk_edge \<times> lock_chk_edge) set" where
  "follows E = {(e, f). e \<in> E \<and> f \<in> E \<and> leads (target_state e) f}"

definition deadlock_free :: "lock_chk_graph \<Rightarrow> bool" where
  "deadlock_free g \<longleftrightarrow> acyclic (follows (set (edges g)))"

definition dep_edge :: "lock_chk_dep \<Rightarrow> lock_chk_dep \<Rightarrow> lock_chk_site \<Rightarrow> lock_chk_edge" where
  "dep_edge from to site = \<lparr>e_from = d_node from, e_to = d_node to, e_from_mode = d_mode from, e_to_mode = d_mode to,
     first_site = site\<rparr>"

lemma follows_reach:
  assumes "(e, f) \<in> (follows E)\<^sup>*"
  shows "target_state f \<in> reach E (target_state e)"
  using assms
proof (induction rule: rtrancl_induct)
  case (step f f')
  then have "(target_state f, target_state f') \<in> steps E" by (auto simp: follows_def steps_def)
  with step.IH show ?case by (auto simp: reach_def intro: rtrancl_into_rtrancl)
qed (simp add: reach_def)

text \<open>
  New dependencies into one lock, none of which closes a cycle by itself, close none together.
\<close>

lemma acyclic_new_edges:
  assumes "acyclic (follows E)" "\<forall>e \<in> N. target_state e = s"
    and "\<forall>e \<in> N. \<forall>t \<in> reach E s. \<not> leads t e"
  shows "acyclic (follows (E \<union> N))"
proof -
  let ?F = "follows (E \<union> N)"
  have key: "target_state f \<in> reach E s" if "(e, f) \<in> ?F\<^sup>*" "e \<in> N" for e f
    using that
  proof (induction rule: rtrancl_induct)
    case base
    then show ?case using assms(2) by (simp add: reach_def)
  next
    case (step f f')
    then have "f' \<in> E" "leads (target_state f) f'" using assms(3) by (auto simp: follows_def)
    then have "(target_state f, target_state f') \<in> steps E" by (auto simp: steps_def)
    then show ?case using step by (auto simp: reach_def intro: rtrancl_into_rtrancl)
  qed
  have out: "(n, n) \<notin> ?F\<^sup>+" if "n \<in> N" for n
  proof
    assume "(n, n) \<in> ?F\<^sup>+"
    then obtain x where "(n, x) \<in> ?F\<^sup>*" "(x, n) \<in> ?F" by (meson tranclD2)
    then show False using key [of n x] that assms(3) by (auto simp: follows_def)
  qed
  have split: "(e, f) \<in> (follows E)\<^sup>+ \<or> (\<exists>n \<in> N. (e, n) \<in> ?F\<^sup>* \<and> (n, f) \<in> ?F\<^sup>*)" if "(e, f) \<in> ?F\<^sup>+" for e f
    using that
  proof (induction rule: trancl_induct)
    case (base f)
    then show ?case by (auto simp: follows_def)
  next
    case (step f f')
    then show ?case
    proof (elim disjE bexE)
      assume ef: "(e, f) \<in> (follows E)\<^sup>+"
      show ?thesis
      proof (cases "f' \<in> N \<and> f' \<notin> E")
        case True
        then show ?thesis using step(1,2) by (meson rtrancl.rtrancl_refl trancl_into_rtrancl trancl_into_trancl)
      next
        case False
        have "f \<in> E" using ef by (auto simp: follows_def elim: tranclE)
        then have "(f, f') \<in> follows E" using False step(2) by (auto simp: follows_def)
        then show ?thesis using ef by (meson trancl_into_trancl)
      qed
    next
      fix n assume "n \<in> N" "(e, n) \<in> ?F\<^sup>* \<and> (n, f) \<in> ?F\<^sup>*"
      then show ?thesis using step(2) by (meson rtrancl_into_rtrancl)
    qed
  qed
  show ?thesis unfolding acyclic_def
  proof (intro allI notI)
    fix e assume ee: "(e, e) \<in> ?F\<^sup>+"
    from split [OF this] show False
    proof (elim disjE bexE)
      assume "(e, e) \<in> (follows E)\<^sup>+" then show False using assms(1) by (auto simp: acyclic_def)
    next
      fix n assume n: "n \<in> N" "(e, n) \<in> ?F\<^sup>* \<and> (n, e) \<in> ?F\<^sup>*"
      then have "(n, n) \<in> ?F\<^sup>+" using ee by (meson rtrancl_trancl_trancl trancl_rtrancl_trancl)
      then show False using out n(1) by blast
    qed
  qed
qed

lemma reach_follows:
  assumes "t \<in> reach E (target_state e)"
  shows "\<exists>f. (e, f) \<in> (follows (insert e E))\<^sup>* \<and> f \<in> insert e E \<and> target_state f = t"
proof -
  have "(target_state e, t) \<in> (steps E)\<^sup>*" using assms by (simp add: reach_def)
  then show ?thesis
  proof (induction rule: rtrancl_induct)
    case (step t t')
    then obtain f f' where f: "(e, f) \<in> (follows (insert e E))\<^sup>*" "f \<in> insert e E" "target_state f = t"
      "f' \<in> E" "leads t f'" "target_state f' = t'" by (auto simp: steps_def)
    then have "(f, f') \<in> follows (insert e E)" by (auto simp: follows_def)
    with f(1) have "(e, f') \<in> (follows (insert e E))\<^sup>*" by (rule rtrancl_into_rtrancl)
    then show ?case using f(4,6) by blast
  qed blast
qed

lemma cycle_closes:
  assumes "t \<in> reach E (target_state e)" "leads t e"
  shows "\<not> acyclic (follows (insert e E))"
proof -
  obtain f where f: "(e, f) \<in> (follows (insert e E))\<^sup>*" "f \<in> insert e E" "target_state f = t"
    using reach_follows [OF assms(1)] by blast
  then have "(f, e) \<in> follows (insert e E)" using assms(2) by (auto simp: follows_def)
  then show ?thesis using f(1) unfolding acyclic_def by (meson rtrancl_into_trancl1)
qed

lemma dep_edge_simps [simp]:
  "target_state (dep_edge from to site) = dep_state to" "leads t (dep_edge from to site) \<longleftrightarrow> blocks_dep from t"
  by (auto simp: dep_edge_def target_state_def dep_state_def leads_def blocks_dep_def)

section \<open>Publishing an edge\<close>

lemma find_edge_in_spec:
  assumes "\<forall>i \<in> set is. i < length (edges g)"
  shows "\<exists>r. find_edge_in g from to is = Some r \<and>
    (r \<noteq> None \<longleftrightarrow> (\<exists>i \<in> set is. e_to (edges g ! i) = d_node to \<and> e_from_mode (edges g ! i) = d_mode from \<and>
       e_to_mode (edges g ! i) = d_mode to))"
  using assms by (induction "is") (auto simp: rd_def)

definition has_edge :: "lock_chk_graph \<Rightarrow> lock_chk_dep \<Rightarrow> lock_chk_dep \<Rightarrow> bool" where
  "has_edge g from to \<longleftrightarrow> (\<exists>site. dep_edge from to site \<in> set (edges g))"

lemma edge_eq_dep:
  "(\<exists>site. e = dep_edge from to site) \<longleftrightarrow>
     e_from e = d_node from \<and> e_to e = d_node to \<and> e_from_mode e = d_mode from \<and> e_to_mode e = d_mode to"
  by (cases e) (auto simp: dep_edge_def)

lemma find_edge_spec:
  assumes "graph_ok g" "d_node from < length (nodes g)"
  shows "\<exists>r. find_edge g from to = Some r \<and> (r \<noteq> None \<longleftrightarrow> has_edge g from to)"
proof -
  let ?n = "nodes g ! d_node from"
  have out: "out_edges ?n = filter (\<lambda>k. e_from (edges g ! k) = d_node from) [0..<length (edges g)]"
    using assms by (auto simp: graph_ok_def out_ok_def)
  have "has_edge g from to \<longleftrightarrow> (\<exists>e \<in> set (edges g). \<exists>site. e = dep_edge from to site)" by (auto simp: has_edge_def)
  also have "\<dots> \<longleftrightarrow> (\<exists>i \<in> set (out_edges ?n). e_to (edges g ! i) = d_node to \<and> e_from_mode (edges g ! i) = d_mode from \<and>
       e_to_mode (edges g ! i) = d_mode to)"
    unfolding edge_eq_dep out by (fastforce simp: in_set_conv_nth)
  finally show ?thesis
    using find_edge_in_spec [of "out_edges ?n" g "from" to] assms(2) out by (auto simp: find_edge_def rd_def)
qed

lemma filter_upt_snoc:
  "filter (\<lambda>k. P ((xs @ [x]) ! k)) [0..<length (xs @ [x])] =
     filter (\<lambda>k. P (xs ! k)) [0..<length xs] @ (if P x then [length xs] else [])"
proof -
  have "filter (\<lambda>k. P ((xs @ [x]) ! k)) [0..<length xs] = filter (\<lambda>k. P (xs ! k)) [0..<length xs]"
    by (rule filter_cong) (auto simp: nth_append)
  then show ?thesis by simp
qed

lemma node_hash_edges [simp]: "node_hash (n\<lparr>out_edges := os\<rparr>) = node_hash n" "node_hash (n\<lparr>in_edges := os\<rparr>) = node_hash n"
  "node_hash (n\<lparr>context_bits := b\<rparr>) = node_hash n"
  by (simp_all add: node_hash_def)

lemma hash_ok_cong:
  assumes "hash_ok g" "length (nodes g') = length (nodes g)" "class_hash g' = class_hash g"
    "\<forall>i < length (nodes g). node_hash (nodes g' ! i) = node_hash (nodes g ! i)"
  shows "hash_ok g'"
proof -
  have "filter (\<lambda>i. node_hash (nodes g' ! i) = b) [0..<length (nodes g)] =
      filter (\<lambda>i. node_hash (nodes g ! i) = b) [0..<length (nodes g)]" for b
    by (rule filter_cong) (use assms(4) in auto)
  then show ?thesis using assms(1-3) by (simp add: hash_ok_def)
qed

lemma publish_edge_spec:
  assumes "graph_ok g" "dep_ok g from" "dep_ok g to" "length (edges g) < LOCK_CHK_MAX_EDGES"
  shows "\<exists>g'. publish_edge g from to site = Some g' \<and> graph_ok g' \<and> edges g' = edges g @ [dep_edge from to site] \<and>
    length (nodes g') = length (nodes g) \<and> generation g' = generation g"
proof -
  let ?k = "length (edges g)" and ?f = "d_node from" and ?t = "d_node to" and ?e = "dep_edge from to site"
  let ?ns = "(nodes g)[?f := (nodes g ! ?f)\<lparr>out_edges := out_edges (nodes g ! ?f) @ [?k]\<rparr>]"
  let ?ns' = "?ns[?t := (?ns ! ?t)\<lparr>in_edges := in_edges (?ns ! ?t) @ [?k]\<rparr>]"
  let ?g = "g\<lparr>nodes := ?ns', edges := edges g @ [?e]\<rparr>"
  have d: "?f < length (nodes g)" "?t < length (nodes g)" using assms(2,3) by (auto simp: dep_ok_def)
  have p: "publish_edge g from to site = Some ?g"
    using d assms(4) by (simp add: publish_edge_def rd_def wr_def dep_edge_def Let_def)
  have nth: "n_id (?ns' ! i) = n_id (nodes g ! i)" "node_hash (?ns' ! i) = node_hash (nodes g ! i)"
    "out_edges (?ns' ! i) = out_edges (nodes g ! i) @ (if i = ?f then [?k] else [])"
    "in_edges (?ns' ! i) = in_edges (nodes g ! i) @ (if i = ?t then [?k] else [])" if "i < length (nodes g)" for i
    using that d by (auto simp: nth_list_update)
  have "out_ok ?g" unfolding out_ok_def
  proof (intro allI impI conjI)
    fix i assume "i < length (nodes ?g)"
    then have i: "i < length (nodes g)" by simp
    note o = assms(1) [unfolded graph_ok_def out_ok_def, THEN conjunct2, THEN conjunct1, rule_format, OF i]
    show "n_id (nodes ?g ! i) = i" using nth(1) [OF i] o by simp
    show "out_edges (nodes ?g ! i) = filter (\<lambda>k. e_from (edges ?g ! k) = i) [0..<length (edges ?g)]"
      using nth(3) [OF i] o filter_upt_snoc [of "\<lambda>e. e_from e = i" "edges g" ?e] by (simp add: dep_edge_def)
    show "in_edges (nodes ?g ! i) = filter (\<lambda>k. e_to (edges ?g ! k) = i) [0..<length (edges ?g)]"
      using nth(4) [OF i] o filter_upt_snoc [of "\<lambda>e. e_to e = i" "edges g" ?e] by (simp add: dep_edge_def)
  qed
  moreover have "hash_ok ?g"
  proof (rule hash_ok_cong [of g])
    show "\<forall>i < length (nodes g). node_hash (nodes ?g ! i) = node_hash (nodes g ! i)" using nth(2) by simp
  qed (use assms(1) in \<open>simp_all add: graph_ok_def\<close>)
  moreover have "edge_ok (length (nodes g)) ?e" using assms(2,3) by (simp add: edge_ok_def dep_ok_def dep_edge_def)
  ultimately show ?thesis using assms(1,4) p by (auto simp: graph_ok_def arrays_ok_def)
qed

section \<open>The recorded way to the end of a cycle\<close>

text \<open>\<open>came g s0 s es\<close>: the parent arrays lead from \<open>s\<close> back to \<open>s0\<close> over the edges \<open>es\<close>, the first one first.\<close>

inductive came :: "lock_chk_graph \<Rightarrow> nat \<Rightarrow> nat \<Rightarrow> nat list \<Rightarrow> bool" for g s0 where
  start: "s0 \<in> seen g \<Longrightarrow> parent_state g ! s0 = - 1 \<Longrightarrow> came g s0 s0 []"
| step: "came g s0 p es \<Longrightarrow> s \<in> seen g \<Longrightarrow> parent_state g ! s = int p \<Longrightarrow> parent_edge g ! s = int i \<Longrightarrow>
    i < length (edges g) \<Longrightarrow> leads p (edges g ! i) \<Longrightarrow> target_state (edges g ! i) = s \<Longrightarrow> came g s0 s (es @ [i])"

definition parents_ok :: "lock_chk_graph \<Rightarrow> nat \<Rightarrow> bool" where
  "parents_ok g s0 \<longleftrightarrow> (\<forall>s \<in> seen g. \<exists>es. came g s0 s es \<and> length es < card (seen g))"

lemma came_visit:
  assumes "came g s0 s es" "x \<notin> seen g" "seen g' = insert x (seen g)" "edges g' = edges g"
    and "parent_state g' = (parent_state g)[x := p]" "parent_edge g' = (parent_edge g)[x := e]"
  shows "came g' s0 s es"
proof -
  have eq: "parent_state g' ! t = parent_state g ! t" "parent_edge g' ! t = parent_edge g ! t" if "t \<in> seen g" for t
    using that assms(2,5,6) by (metis nth_list_update_neq)+
  from assms(1) show ?thesis
  proof induction
    case start
    then show ?case using assms(3) eq by (intro came.start) auto
  next
    case (step q es s i)
    then show ?case using assms(3,4) eq by (intro came.step [of g' s0 q es s i]) auto
  qed
qed

lemma parents_visit:
  assumes "parents_ok g s0" "s \<in> seen g" "x \<notin> seen g" "search_ok g0 g stack"
    and "seen g' = insert x (seen g)" "edges g' = edges g" "x < LOCK_CHK_MODE_STATE_COUNT"
    and "parent_state g' = (parent_state g)[x := int s]" "parent_edge g' = (parent_edge g)[x := int i]"
    and "i < length (edges g)" "leads s (edges g ! i)" "target_state (edges g ! i) = x"
  shows "parents_ok g' s0"
proof -
  have a: "arrays_ok g" using assms(4) by (simp add: search_ok_def)
  have "finite (seen g)" using seen_bound [OF a] finite_subset by blast
  then have card: "card (seen g') = Suc (card (seen g))" using assms(3,5) by simp
  have old: "\<exists>es. came g' s0 t es \<and> length es < card (seen g)" if "t \<in> seen g" for t
    using assms(1) that came_visit [OF _ assms(3,5,6,8,9)] by (force simp: parents_ok_def)
  obtain es where "came g' s0 s es" "length es < card (seen g)" using old [OF assms(2)] by blast
  then have "came g' s0 x (es @ [i])"
    using assms a by (intro came.step [of g' s0 s es x i]) (auto simp: arrays_ok_def)
  with \<open>length es < card (seen g)\<close> show ?thesis using old card assms(5) unfolding parents_ok_def
    by (metis insertE length_append_singleton less_Suc_eq not_less_eq)
qed

lemma scan_edges_parents:
  assumes "scan_edges s (lock_chk_state_mode s) is (g, stack) = Some (g', stack')" "search_ok g0 g stack"
    and "s \<in> seen g" "parents_ok g s0" "\<forall>e \<in> set (edges g0). edge_ok (length (nodes g0)) e"
    and "length (nodes g0) \<le> LOCK_CHK_MAX_NODES" "\<forall>i < length (nodes g0). n_id (nodes g0 ! i) = i"
    and "\<forall>i \<in> set is. i < length (edges g0) \<and> e_from (edges g0 ! i) = s div 2"
  shows "parents_ok g' s0"
  using assms(1-4,8)
proof (induction "is" arbitrary: g stack)
  case (Cons i "is")
  let ?e = "edges g0 ! i"
  have i: "i < length (edges g0)" "e_from ?e = s div 2" using Cons.prems(5) by auto
  have g: "edges g = edges g0" using Cons.prems(2) by (simp add: search_ok_def same_graph_def)
  note step = scan_step [OF Cons.prems(2) i(1) assms(5-7) i(2)]
  show ?case
  proof (cases "\<not> leads s ?e \<or> target_state ?e \<in> seen g")
    case True
    then show ?thesis using Cons step by auto
  next
    case False
    then have f: "target_state ?e \<notin> seen g" by simp
    obtain g1 where g1: "visit (target_state ?e) (int s) (int i) (g, stack) = Some (g1, target_state ?e # stack)"
      "search_ok g0 g1 (target_state ?e # stack)" "seen g1 = insert (target_state ?e) (seen g)"
      "parent_state g1 = (parent_state g)[target_state ?e := int s]" "parent_edge g1 = (parent_edge g)[target_state ?e := int i]"
      using visit_ok [OF Cons.prems(2) f step(1)] by blast
    have "edges g1 = edges g" using g1(2) g by (simp add: search_ok_def same_graph_def)
    then have "parents_ok g1 s0"
      using parents_visit [OF Cons.prems(4,3) f Cons.prems(2) g1(3) _ step(1) g1(4,5)] i False g by simp
    then show ?thesis using Cons.IH [of g1 "target_state ?e # stack"] Cons.prems step(2) False g1 by auto
  qed
qed simp

lemma dfs_parents:
  assumes "dfs target (g, stack) = Some (b, g')" "graph_ok g0" "search_ok g0 g stack" "parents_ok g s0"
    and "\<forall>s \<in> seen g. s div 2 < length (nodes g0)"
  shows "parents_ok g' s0 \<and> edges g' = edges g0 \<and> arrays_ok g' \<and>
    (b \<longrightarrow> (\<exists>t \<in> seen g'. last_cycle_end_state g' = int t \<and> blocks_dep target t))"
  using assms
proof (induction target "(g, stack)" arbitrary: g stack rule: dfs.induct)
  case (1 target g)
  then show ?case by (auto simp: search_ok_def same_graph_def)
next
  case (2 target g s stack)
  note ok = \<open>graph_ok g0\<close> and S = \<open>search_ok g0 g (s # stack)\<close>
  have gr: "nodes g = nodes g0" "edges g = edges g0" using S by (auto simp: search_ok_def same_graph_def)
  have sg: "s \<in> seen g" using S by (auto simp: search_ok_def)
  then have sn: "s div 2 < length (nodes g0)" using 2(6) by blast
  define n where "n = nodes g0 ! (s div 2)"
  have node: "lock_chk_state_node g s = Some n" using sn gr by (simp add: lock_chk_state_node_def rd_def n_def)
  show ?case
  proof (cases "blocks_dep target s")
    case True
    let ?h = "g\<lparr>last_cycle_end_state := int s\<rparr>"
    have "b \<and> g' = ?h" using 2(2) node True by (simp add: blocks_dep_def Let_def)
    moreover have sh: "seen ?h = seen g" by (simp add: seen_def)
    moreover have "came g s0 t es \<Longrightarrow> came ?h s0 t es" for t es
    proof (induction rule: came.induct)
      case start
      then show ?case by (intro came.start) (simp_all add: sh)
    next
      case (step q es s i)
      then show ?case by (intro came.step [of ?h s0 q es s i]) (simp_all add: sh)
    qed
    ultimately have "parents_ok ?h s0" using 2(5) unfolding parents_ok_def by metis
    then show ?thesis using \<open>b \<and> g' = ?h\<close> True sg S gr sh by (auto simp: search_ok_def arrays_ok_def)
  next
    case False
    have out: "out_edges n = filter (\<lambda>k. e_from (edges g0 ! k) = s div 2) [0..<length (edges g0)]"
      "\<forall>i < length (nodes g0). n_id (nodes g0 ! i) = i"
      using ok sn by (auto simp: graph_ok_def out_ok_def n_def)
    have S': "search_ok g0 g stack" using S by (auto simp: search_ok_def)
    have ix: "\<forall>i \<in> set (out_edges n). i < length (edges g0)" "\<forall>i \<in> set (out_edges n). e_from (edges g0 ! i) = s div 2"
      "\<forall>i \<in> set (out_edges n). i < length (edges g0) \<and> e_from (edges g0 ! i) = s div 2"
      by (simp_all add: out(1))
    have len: "length (nodes g0) \<le> LOCK_CHK_MAX_NODES" and E: "\<forall>e \<in> set (edges g0). edge_ok (length (nodes g0)) e"
      using ok by (simp_all add: graph_ok_def)
    obtain g1 new where sc: "scan_edges s (lock_chk_state_mode s) (out_edges n) (g, stack) = Some (g1, new @ stack)"
      "search_ok g0 g1 (new @ stack)" "seen g1 = seen g \<union> set new"
      "set new \<union> seen g = (\<lambda>i. target_state (edges g0 ! i)) ` {i \<in> set (out_edges n). leads s (edges g0 ! i)} \<union> seen g"
      using scan_edges_ok [OF S' ix(1) E len out(2) ix(2)] by blast
    have "target_state (edges g0 ! i) div 2 < length (nodes g0)" if "i \<in> set (out_edges n)" for i
      using that ix(1) E by (auto simp: target_state_def edge_ok_def)
    moreover have "seen g1 = (\<lambda>i. target_state (edges g0 ! i)) ` {i \<in> set (out_edges n). leads s (edges g0 ! i)} \<union> seen g"
      using sc(3,4) by (simp only: Un_commute)
    ultimately have "\<forall>t \<in> seen g1. t div 2 < length (nodes g0)" using 2(6) by auto
    moreover have "parents_ok g1 s0" using scan_edges_parents [OF sc(1) S' sg 2(5) E len out(2) ix(3)] .
    moreover have nb: "\<not> (s div 2 = d_node target \<and> lock_chk_modes_conflict (lock_chk_state_mode s) (d_mode target))"
      using False by (simp add: blocks_dep_def)
    moreover have "dfs target (g1, new @ stack) = Some (b, g')"
      using 2(2) node sc(1) nb by (auto simp: Let_def)
    ultimately show ?thesis using 2(1) [OF node refl _ sc(1)] ok sc(2) by blast
  qed
qed

lemma walk_back_came:
  assumes "came g s0 s es" "length es < fuel" "arrays_ok g" "length acc \<le> LOCK_CHK_MAX_CYCLE_HOPS"
  shows "walk_back fuel g (int s) acc = Some (take LOCK_CHK_MAX_CYCLE_HOPS (acc @ rev es))"
  using assms
proof (induction arbitrary: fuel acc)
  case start
  then show ?case by (cases fuel) (auto simp: rd_def seen_def arrays_ok_def)
next
  case (step p es s i)
  then obtain f where f: "fuel = Suc f" by (cases fuel) auto
  have s: "s < length (parent_state g)" "s < length (parent_edge g)" using step by (auto simp: seen_def arrays_ok_def)
  show ?case
  proof (cases "length acc < LOCK_CHK_MAX_CYCLE_HOPS")
    case True
    then show ?thesis using step.IH [of f "acc @ [i]"] step s f by (simp add: rd_def take_Cons')
  next
    case False
    then show ?thesis using step.IH [of f acc] step s f by (simp add: rd_def)
  qed
qed

lemma graph_path_way:
  assumes "graph_ok g" "dep_ok g start" "graph_path g start target = Some (True, g')"
  shows "\<exists>t es. came g' (dep_state start) t es \<and> last_cycle_end_state g' = int t \<and> blocks_dep target t \<and>
    length es < LOCK_CHK_MODE_STATE_COUNT \<and> arrays_ok g' \<and> edges g' = edges g"
proof -
  let ?s = "dep_state start"
  obtain g0 g1 where g0: "graph_ok g0" "same_graph g g0" "search_ok g0 g1 [?s]" "seen g1 = {?s}"
    "parent_state g1 ! ?s = - 1" "?s div 2 < length (nodes g0)"
    and p: "\<forall>target. graph_path g start target = dfs target (g1, [?s])"
    using graph_path_start [OF assms(1,2)] by (elim exE conjE)
  have "parents_ok g1 ?s" using g0(4,5) came.start [of ?s g1] by (auto simp: parents_ok_def)
  then have r: "parents_ok g' ?s" "edges g' = edges g0" "arrays_ok g'"
    "\<exists>t \<in> seen g'. last_cycle_end_state g' = int t \<and> blocks_dep target t"
    using dfs_parents [of target g1 "[?s]" True g' g0 ?s] assms(3) p g0 by auto
  then obtain t es where t: "t \<in> seen g'" "last_cycle_end_state g' = int t" "blocks_dep target t"
    "came g' ?s t es" "length es < card (seen g')" by (auto simp: parents_ok_def)
  have "card (seen g') \<le> LOCK_CHK_MODE_STATE_COUNT"
    using card_mono [OF _ seen_bound [OF r(3)]] by simp
  then show ?thesis using t r g0(2) by (auto simp: same_graph_def)
qed

text \<open>The edges of the recorded way form a chain.\<close>

fun chain :: "lock_chk_edge list \<Rightarrow> bool" where
  "chain (e # f # es) \<longleftrightarrow> leads (target_state e) f \<and> chain (f # es)"
| "chain es \<longleftrightarrow> True"

lemma chain_snoc: "chain (es @ [e, f]) \<longleftrightarrow> chain (es @ [e]) \<and> leads (target_state e) f"
  by (induction es rule: chain.induct) auto

lemma came_chain:
  assumes "came g s0 s es" "target_state e0 = s0"
  shows "chain (e0 # map ((!) (edges g)) es) \<and> target_state (last (e0 # map ((!) (edges g)) es)) = s \<and>
    (\<forall>i \<in> set es. i < length (edges g))"
  using assms(1)
proof induction
  case start
  then show ?case using assms(2) by simp
next
  case (step p es s i)
  define xs where "xs = e0 # map ((!) (edges g)) es"
  obtain ys y where xs: "xs = ys @ [y]" using rev_exhaust [of xs] by (auto simp: xs_def)
  have "e0 # map ((!) (edges g)) (es @ [i]) = ys @ [y, edges g ! i]" using xs by (simp add: xs_def)
  moreover have "chain (ys @ [y, edges g ! i])" using step xs chain_snoc [of ys y "edges g ! i"] by (simp add: xs_def [symmetric])
  ultimately have "chain (e0 # map ((!) (edges g)) (es @ [i]))" by (simp only:)
  then show ?case using step by simp
qed

definition hop_of :: "lock_chk_graph \<Rightarrow> lock_chk_edge \<Rightarrow> lock_chk_cycle_hop" where
  "hop_of g e = \<lparr>from_class = Some (n_class (nodes g ! e_from e)), to_class = Some (n_class (nodes g ! e_to e)),
     hop_site = first_site e, from_subclass = n_subclass (nodes g ! e_from e), to_subclass = n_subclass (nodes g ! e_to e),
     from_mode = e_from_mode e, to_mode = e_to_mode e\<rparr>"

lemma all_some_map: "\<forall>x \<in> set xs. f x = Some (h x) \<Longrightarrow> all_some (map f xs) = Some (map h xs)"
  by (induction xs) auto

lemma edge_hop_of: "graph_ok g \<Longrightarrow> i < length (edges g) \<Longrightarrow> edge_hop g i = Some (hop_of g (edges g ! i))"
  by (auto simp: edge_hop_def make_hop_def rd_def hop_of_def graph_ok_def edge_ok_def dest: nth_mem)

text \<open>
  The report of a cycle: it starts with the refused dependency and goes on along recorded ones,
  and unless it is marked as truncated, it is a whole cycle.
\<close>

definition real_cycle :: "lock_chk_graph \<Rightarrow> lock_chk_edge \<Rightarrow> lock_chk_cycle_hop list \<times> bool \<Rightarrow> bool" where
  "real_cycle g e = (\<lambda>(hops, truncated).
     \<exists>es. set es \<subseteq> set (edges g) \<and> chain (e # es @ [e]) \<and> hd hops = hop_of g e \<and> length hops \<le> LOCK_CHK_MAX_CYCLE_HOPS \<and>
       set (tl hops) \<subseteq> hop_of g ` set es \<and> (\<not> truncated \<longrightarrow> hops = hop_of g e # map (hop_of g) es))"

lemma extract_cycle_real:
  assumes "graph_ok g" "dep_ok g from" "dep_ok g to" "graph_path g to from = Some (True, g')"
  shows "\<exists>r. extract_cycle g' from to site LOCK_CHK_MAX_CYCLE_HOPS = Some r \<and> real_cycle g' (dep_edge from to site) r"
proof -
  let ?e = "dep_edge from to site"
  obtain t es where t: "came g' (dep_state to) t es" "last_cycle_end_state g' = int t" "blocks_dep from t"
    "length es < LOCK_CHK_MODE_STATE_COUNT" "arrays_ok g'" "edges g' = edges g"
    using graph_path_way [OF assms(1,3,4)] by blast
  have g': "graph_ok g'" "same_graph g g'" using graph_path_spec [OF assms(1,3), of "from"] assms(4) by auto
  have w: "walk_back (Suc LOCK_CHK_MODE_STATE_COUNT) g' (last_cycle_end_state g') [] = Some (take LOCK_CHK_MAX_CYCLE_HOPS (rev es))"
    using walk_back_came [OF t(1) _ t(5), of "Suc LOCK_CHK_MODE_STATE_COUNT" "[]"] t(2,4) by simp
  have c: "chain (?e # map ((!) (edges g')) es)" "target_state (last (?e # map ((!) (edges g')) es)) = t"
    "\<forall>i \<in> set es. i < length (edges g')" using came_chain [OF t(1), of ?e] by auto
  obtain ys y where ys: "?e # map ((!) (edges g')) es = ys @ [y]" using rev_exhaust by blast
  then have "chain (?e # map ((!) (edges g')) es @ [?e])"
    using c(1,2) t(3) chain_snoc [of ys y ?e] by (metis append.assoc append_Cons append_Nil dep_edge_simps(2) last_snoc)
  moreover have h: "make_hop g' (d_node from) (d_mode from) (d_node to) (d_mode to) site = Some (hop_of g' ?e)"
    using assms(2,3) g'(2) by (simp add: make_hop_def rd_def hop_of_def dep_edge_def dep_ok_def same_graph_def)
  have m: "LOCK_CHK_MAX_CYCLE_HOPS \<noteq> 0" by (simp add: LOCK_CHK_MAX_CYCLE_HOPS_def)
  let ?js = "take (LOCK_CHK_MAX_CYCLE_HOPS - 1) (rev (take LOCK_CHK_MAX_CYCLE_HOPS (rev es)))"
  have js: "set ?js \<subseteq> set es" by (auto dest!: in_set_takeD)
  then have hs: "all_some (map (edge_hop g') ?js) = Some (map (\<lambda>i. hop_of g' (edges g' ! i)) ?js)"
    using c(3) edge_hop_of [OF g'(1)] by (intro all_some_map) blast
  have ex: "extract_cycle g' from to site LOCK_CHK_MAX_CYCLE_HOPS =
      Some (hop_of g' ?e # map (\<lambda>i. hop_of g' (edges g' ! i)) ?js,
        LOCK_CHK_MAX_CYCLE_HOPS < length (take LOCK_CHK_MAX_CYCLE_HOPS (rev es)) + 1)"
    unfolding extract_cycle_def w h Option.bind.bind_lunit hs by (simp add: m)
  have "real_cycle g' ?e (hop_of g' ?e # map (\<lambda>i. hop_of g' (edges g' ! i)) ?js,
        LOCK_CHK_MAX_CYCLE_HOPS < length (take LOCK_CHK_MAX_CYCLE_HOPS (rev es)) + 1)"
    unfolding real_cycle_def prod.case
  proof (intro exI [of _ "map ((!) (edges g')) es"] conjI impI)
    show "set (map ((!) (edges g')) es) \<subseteq> set (edges g')" using c(3) by auto
    show "chain (?e # map ((!) (edges g')) es @ [?e])" by fact
    show "set (tl (hop_of g' ?e # map (\<lambda>i. hop_of g' (edges g' ! i)) ?js)) \<subseteq> hop_of g' ` set (map ((!) (edges g')) es)"
      using js by auto
    assume "\<not> LOCK_CHK_MAX_CYCLE_HOPS < length (take LOCK_CHK_MAX_CYCLE_HOPS (rev es)) + 1"
    then have "length es < LOCK_CHK_MAX_CYCLE_HOPS" by (simp add: LOCK_CHK_MAX_CYCLE_HOPS_def)
    then have "?js = es" by simp
    then show "hop_of g' ?e # map (\<lambda>i. hop_of g' (edges g' ! i)) ?js = hop_of g' ?e # map (hop_of g') (map ((!) (edges g')) es)"
      by (simp only:) simp
  qed (simp_all add: LOCK_CHK_MAX_CYCLE_HOPS_def)
  then show ?thesis using ex by blast
qed

section \<open>Adding one dependency\<close>

lemma same_graph_simps:
  assumes "same_graph g g'"
  shows "nodes g' = nodes g" "edges g' = edges g" "dep_ok g' d \<longleftrightarrow> dep_ok g d" "deadlock_free g' \<longleftrightarrow> deadlock_free g"
    "has_edge g' d1 d2 \<longleftrightarrow> has_edge g d1 d2"
  using assms by (auto simp: same_graph_def dep_ok_def deadlock_free_def has_edge_def)

lemma closes_none:
  assumes "deadlock_free g" "\<not> (\<exists>t \<in> reach (set (edges g)) (dep_state to). blocks_dep from t)"
  shows "acyclic (follows (insert (dep_edge from to site) (set (edges g))))"
proof -
  have "acyclic (follows (set (edges g) \<union> {dep_edge from to site}))"
    using assms by (intro acyclic_new_edges [where s = "dep_state to"]) (auto simp: deadlock_free_def)
  then show ?thesis by simp
qed

lemma deadlock_free_publish:
  assumes "deadlock_free g" "edges g' = edges g @ [dep_edge from to site]"
    and "\<not> (\<exists>t \<in> reach (set (edges g)) (dep_state to). blocks_dep from t)"
  shows "deadlock_free g'"
  using closes_none [OF assms(1,3), of site] assms(2) by (simp add: deadlock_free_def)

text \<open>The site of an edge plays no part in what follows what, so a dependency that is recorded closes nothing.\<close>

lemma follows_repeated:
  assumes "has_edge g from to" "deadlock_free g"
  shows "acyclic (follows (insert (dep_edge from to site) (set (edges g))))"
proof -
  obtain s0 where s0: "dep_edge from to s0 \<in> set (edges g)" using assms(1) by (auto simp: has_edge_def)
  let ?f = "\<lambda>e. if e = dep_edge from to site then dep_edge from to s0 else e"
  let ?R = "follows (insert (dep_edge from to site) (set (edges g)))" and ?Q = "follows (set (edges g))"
  have one: "(?f a, ?f b) \<in> ?Q" if "(a, b) \<in> ?R" for a b
    using that s0 by (auto simp: follows_def split: if_splits)
  have "(?f a, ?f b) \<in> ?Q\<^sup>+" if "(a, b) \<in> ?R\<^sup>+" for a b
    using that
  proof (induction rule: trancl_induct)
    case (base b)
    show ?case by (rule r_into_trancl) (rule one [OF base])
  next
    case (step b c)
    show ?case by (rule trancl_into_trancl [OF step(3) one [OF step(2)]])
  qed
  then show ?thesis using assms(2) by (auto simp: acyclic_def deadlock_free_def)
qed

definition fault_real :: "lock_chk_graph \<Rightarrow> lock_chk_edge \<Rightarrow> lock_chk_fault \<Rightarrow> bool" where
  "fault_real g e f \<longleftrightarrow> f_kind f = FAIL_CYCLE \<and>
     (case f_report f of None \<Rightarrow> True | Some (hops, truncated, sig) \<Rightarrow> real_cycle g e (hops, truncated))"

lemma cycle_outcome_spec:
  assumes "graph_ok g" "dep_ok g from" "dep_ok g to" "graph_path g to from = Some (True, g')"
  shows "\<exists>f busy'. cycle_outcome g' busy want site from to = Some (RESULT_CYCLE, f, busy', g') \<and>
    (want \<longleftrightarrow> f \<noteq> None) \<and> (\<forall>x. f = Some x \<longrightarrow> fault_real g' (dep_edge from to site) x)"
proof -
  obtain r where r: "extract_cycle g' from to site LOCK_CHK_MAX_CYCLE_HOPS = Some r" "real_cycle g' (dep_edge from to site) r"
    using extract_cycle_real [OF assms] by blast
  have "d_node to < length (nodes g')"
    using graph_path_spec [OF assms(1,3), of "from"] assms(3,4) by (auto simp: same_graph_def dep_ok_def)
  then show ?thesis using r
    by (cases r) (auto simp: cycle_outcome_def make_cycle_fail_def rd_def fault_real_def)
qed

text \<open>
  C10. Recording a dependency between two locks: the call returns without a fault of its own,
  and the dependencies stay free of cycles. It is refused as a cycle exactly when recording it
  would close one, in which case the report is a real cycle through the refused dependency.
  A dependency that closes none is accepted when it is known, and otherwise
  recorded as a new edge, or refused for lack of room, which happens only when the edge array is full.
\<close>

theorem add_dep_keeps_deadlock_free:
  assumes "graph_ok g" "deadlock_free g" "dep_ok g from" "dep_ok g to"
  shows "\<exists>res f busy' g'. lock_chk_graph_add_dep g busy want site from to = Some (res, f, busy', g') \<and>
    graph_ok g' \<and> deadlock_free g' \<and> length (nodes g') = length (nodes g) \<and>
    (res = RESULT_CYCLE \<longleftrightarrow> \<not> acyclic (follows (insert (dep_edge from to site) (set (edges g))))) \<and>
    (res = RESULT_OK \<and> edges g' = (if has_edge g from to then edges g else edges g @ [dep_edge from to site]) \<or>
     res = RESULT_CYCLE \<and> edges g' = edges g \<and>
       (\<forall>x. f = Some x \<longrightarrow> fault_real g' (dep_edge from to site) x) \<or>
     res = RESULT_EDGE_CAPACITY \<and> edges g' = edges g \<and> \<not> has_edge g from to \<and> length (edges g) = LOCK_CHK_MAX_EDGES)"
proof -
  have fr: "d_node from < length (nodes g)" and tt: "d_node to < length (nodes g)"
    using assms(3,4) by (auto simp: dep_ok_def)
  obtain r where r: "find_edge g from to = Some r" "r \<noteq> None \<longleftrightarrow> has_edge g from to"
    using find_edge_spec [OF assms(1) fr, of to] by blast
  obtain b g1 where p: "graph_path g to from = Some (b, g1)" "graph_ok g1" "same_graph g g1"
    "b \<longleftrightarrow> (\<exists>t \<in> reach (set (edges g)) (dep_state to). blocks_dep from t)"
    using graph_path_spec [OF assms(1,4), of "from"] by blast
  note sg = same_graph_simps [OF p(3)]
  consider (known) "has_edge g from to" | (cyc) "\<not> has_edge g from to" b
    | (full) "\<not> has_edge g from to" "\<not> b" "length (edges g) = LOCK_CHK_MAX_EDGES"
    | (new) "\<not> has_edge g from to" "\<not> b" "length (edges g) < LOCK_CHK_MAX_EDGES"
    using assms(1) by (force simp: graph_ok_def)
  then show ?thesis
  proof cases
    case known
    then show ?thesis using r assms follows_repeated by (simp add: lock_chk_graph_add_dep_def)
  next
    case cyc
    then obtain t where "t \<in> reach (set (edges g)) (dep_state to)" "blocks_dep from t" using p(4) by blast
    then have "\<not> acyclic (follows (insert (dep_edge from to site) (set (edges g))))"
      using cycle_closes [of t "set (edges g)" "dep_edge from to site"] by simp
    then show ?thesis using cyc r p sg assms cycle_outcome_spec [OF assms(1,3,4), of g1 busy want site]
      by (auto simp: lock_chk_graph_add_dep_def)
  next
    case full
    then show ?thesis using r p sg tt assms(2) closes_none [OF assms(2)]
      by (auto simp: lock_chk_graph_add_dep_def cap_outcome_def make_cap_fail_def rd_def)
  next
    case new
    then have l: "length (edges g1) < LOCK_CHK_MAX_EDGES" using sg by simp
    obtain g2 where g2: "publish_edge g1 from to site = Some g2" "graph_ok g2"
      "edges g2 = edges g1 @ [dep_edge from to site]" "length (nodes g2) = length (nodes g1)"
      using publish_edge_spec [OF p(2) _ _ l, of "from" to site] sg assms(3,4) by auto
    have "deadlock_free g2"
      using deadlock_free_publish [of g1 g2] g2(3) new(2) p(4) sg assms(2) by simp
    moreover have "acyclic (follows (insert (dep_edge from to site) (set (edges g))))" using closes_none [OF assms(2)] new(2) p(4) by blast
    ultimately show ?thesis using new r p(1) g2 sg l by (auto simp: lock_chk_graph_add_dep_def)
  qed
qed

section \<open>Nodes of classes\<close>

definition node_for :: "lock_chk_class \<Rightarrow> nat \<Rightarrow> lock_chk_node \<Rightarrow> bool" where
  "node_for c subclass n \<longleftrightarrow> cls_at (n_class n) = cls_at c \<and> n_subclass n = subclass"

lemma find_in_spec:
  assumes "\<forall>i \<in> set is. i < length (nodes g)"
  shows "\<exists>r. find_in g c sc is = Some r \<and> (r = None \<longleftrightarrow> (\<forall>i \<in> set is. \<not> node_for c sc (nodes g ! i))) \<and>
    (\<forall>i. r = Some i \<longrightarrow> i \<in> set is \<and> node_for c sc (nodes g ! i))"
  using assms by (induction "is") (auto simp: rd_def node_for_def)

lemma hash_bound: "lock_chk_class_hash c sc < LOCK_CHK_HASH_BUCKETS"
  by (simp add: lock_chk_class_hash_def LOCK_CHK_HASH_BUCKETS_def Let_def)

lemma node_for_hash: "node_for c sc n \<Longrightarrow> node_hash n = lock_chk_class_hash c sc"
  by (simp add: node_for_def node_hash_def lock_chk_class_hash_def Let_def)

lemma bucket_of:
  assumes "hash_ok g"
  shows "rd (class_hash g) (lock_chk_class_hash c sc) =
    Some (rev (filter (\<lambda>i. node_hash (nodes g ! i) = lock_chk_class_hash c sc) [0..<length (nodes g)]))"
  using assms hash_bound [of c sc] by (simp add: hash_ok_def rd_def)

lemma find_node_spec:
  assumes "hash_ok g"
  shows "\<exists>r. find_node g c sc = Some r \<and> (r = None \<longleftrightarrow> (\<forall>n \<in> set (nodes g). \<not> node_for c sc n)) \<and>
    (\<forall>i. r = Some i \<longrightarrow> i < length (nodes g) \<and> node_for c sc (nodes g ! i))"
proof -
  let ?b = "rev (filter (\<lambda>i. node_hash (nodes g ! i) = lock_chk_class_hash c sc) [0..<length (nodes g)])"
  have "find_node g c sc = find_in g c sc ?b" unfolding find_node_def bucket_of [OF assms] by simp
  moreover have "(\<forall>i \<in> set ?b. \<not> node_for c sc (nodes g ! i)) \<longleftrightarrow> (\<forall>n \<in> set (nodes g). \<not> node_for c sc n)"
    using node_for_hash by (fastforce simp: in_set_conv_nth)
  ultimately show ?thesis using find_in_spec [of ?b g c sc] by auto
qed

text \<open>The graph after nodes were added and the context bits of one node changed.\<close>

definition grown :: "nat option \<Rightarrow> lock_chk_graph \<Rightarrow> lock_chk_graph \<Rightarrow> bool" where
  "grown base g g' \<longleftrightarrow> edges g' = edges g \<and> length (nodes g) \<le> length (nodes g') \<and>
     (\<forall>i < length (nodes g). (nodes g' ! i)\<lparr>context_bits := context_bits (nodes g ! i)\<rparr> = nodes g ! i \<and>
        (base \<noteq> Some i \<longrightarrow> nodes g' ! i = nodes g ! i))"

lemma grown_refl: "grown base g g"
  by (simp add: grown_def)

lemma add_node_spec:
  assumes "graph_ok g" "length (nodes g) < LOCK_CHK_MAX_NODES"
  shows "\<exists>g'. add_node g c sc = Some g' \<and> graph_ok g' \<and> grown base g g' \<and> length (nodes g') = Suc (length (nodes g)) \<and>
    node_for c sc (nodes g' ! length (nodes g))"
proof -
  let ?i = "length (nodes g)" and ?b = "lock_chk_class_hash c sc"
  let ?n = "\<lparr>n_id = ?i, n_class = c, n_subclass = sc, context_bits = 0, out_edges = [], in_edges = []\<rparr>"
  let ?bk = "\<lambda>b. rev (filter (\<lambda>i. node_hash (nodes g ! i) = b) [0..<?i])"
  let ?g = "g\<lparr>nodes := nodes g @ [?n], class_hash := (class_hash g)[?b := ?i # ?bk ?b]\<rparr>"
  have h: "hash_ok g" using assms(1) by (simp add: graph_ok_def)
  have a: "add_node g c sc = Some ?g" unfolding add_node_def Let_def bucket_of [OF h] by simp
  have ch: "class_hash g = map ?bk [0..<LOCK_CHK_HASH_BUCKETS]" using h by (simp add: hash_ok_def)
  have "node_hash ?n = ?b" by (simp add: node_hash_def)
  then have "rev (filter (\<lambda>i. node_hash ((nodes g @ [?n]) ! i) = b) [0..<length (nodes g @ [?n])]) =
      (if b = ?b then ?i # ?bk b else ?bk b)" for b
    unfolding filter_upt_snoc [of "\<lambda>n. node_hash n = b" "nodes g" ?n] by auto
  then have "hash_ok ?g" unfolding hash_ok_def using ch hash_bound [of c sc]
    by (auto intro!: nth_equalityI simp: nth_list_update)
  moreover have "out_ok ?g" unfolding out_ok_def
  proof (intro allI impI conjI)
    fix i assume i: "i < length (nodes ?g)"
    have e: "\<forall>k < length (edges g). e_from (edges g ! k) < ?i \<and> e_to (edges g ! k) < ?i"
      using assms(1) by (auto simp: graph_ok_def edge_ok_def)
    note o = assms(1) [unfolded graph_ok_def out_ok_def, THEN conjunct2, THEN conjunct1, rule_format, of i]
    show "n_id (nodes ?g ! i) = i" using o i by (cases "i = ?i") (auto simp: nth_append)
    show "out_edges (nodes ?g ! i) = filter (\<lambda>k. e_from (edges ?g ! k) = i) [0..<length (edges ?g)]"
      using o i e by (cases "i = ?i") (auto simp: nth_append empty_filter_conv)
    show "in_edges (nodes ?g ! i) = filter (\<lambda>k. e_to (edges ?g ! k) = i) [0..<length (edges ?g)]"
      using o i e by (cases "i = ?i") (auto simp: nth_append empty_filter_conv)
  qed
  moreover have "\<forall>e \<in> set (edges g). edge_ok (Suc ?i) e" using assms(1) by (auto simp: graph_ok_def edge_ok_def)
  moreover have "grown base g ?g" by (simp add: grown_def nth_append)
  ultimately show ?thesis using assms a by (auto simp: graph_ok_def arrays_ok_def node_for_def)
qed

lemma get_node_spec:
  assumes "graph_ok g"
  shows "\<exists>r. get_node g c sc = Some r \<and>
    (case r of Inl err \<Rightarrow> err = RESULT_NODE_CAPACITY \<and> length (nodes g) = LOCK_CHK_MAX_NODES
     | Inr (i, g') \<Rightarrow> graph_ok g' \<and> grown base g g' \<and> i < length (nodes g') \<and> node_for c sc (nodes g' ! i) \<and>
         find_node g c sc = Some (if i < length (nodes g) then Some i else None))"
proof -
  obtain r where r: "find_node g c sc = Some r" "\<forall>i. r = Some i \<longrightarrow> i < length (nodes g) \<and> node_for c sc (nodes g ! i)"
    using find_node_spec [of g c sc] assms by (auto simp: graph_ok_def)
  consider (found) i where "r = Some i" | (full) "r = None" "length (nodes g) = LOCK_CHK_MAX_NODES"
    | (new) "r = None" "length (nodes g) < LOCK_CHK_MAX_NODES"
    using assms by (cases r) (force simp: graph_ok_def)+
  then show ?thesis
  proof cases
    case found
    then show ?thesis using r assms by (simp add: get_node_def grown_refl)
  next
    case full
    then show ?thesis using r by (simp add: get_node_def)
  next
    case new
    then show ?thesis using r add_node_spec [OF assms new(2), of c sc base] by (auto simp: get_node_def)
  qed
qed

lemma graph_ok_ctx:
  assumes "graph_ok g" "i < length (nodes g)"
  shows "graph_ok (g\<lparr>nodes := (nodes g)[i := (nodes g ! i)\<lparr>context_bits := b\<rparr>]\<rparr>)"
proof -
  let ?ns = "(nodes g)[i := (nodes g ! i)\<lparr>context_bits := b\<rparr>]"
  have f: "n_id (?ns ! j) = n_id (nodes g ! j)" "node_hash (?ns ! j) = node_hash (nodes g ! j)"
    "out_edges (?ns ! j) = out_edges (nodes g ! j)" "in_edges (?ns ! j) = in_edges (nodes g ! j)" for j
    using assms(2) by (cases "j = i"; simp add: node_hash_def)+
  show ?thesis using assms(1) by (simp add: graph_ok_def arrays_ok_def out_ok_def hash_ok_def f)
qed

lemma grown_trans: "grown base g g' \<Longrightarrow> grown base g' g'' \<Longrightarrow> grown base g g''"
  by (auto simp: grown_def) (metis (no_types, lifting) lock_chk_node.surjective lock_chk_node.update_convs(4) order_less_le_trans)+

definition ctx_known :: "bool \<Rightarrow> lock_chk_acq_req \<Rightarrow> bool" where
  "ctx_known in_interrupt rq \<longleftrightarrow> (lock_chk_type_is_spin (lk_type (rq_lock rq)) \<longrightarrow> request_ctx in_interrupt rq \<noteq> None)"

lemma record_ctx_spec:
  assumes "ctx_known irq rq"
  shows "\<exists>res b. record_ctx irq n rq = Some (res, n\<lparr>context_bits := b\<rparr>) \<and> (res = RESULT_OK \<or> res = RESULT_BAD_CONTEXT)"
proof -
  have n: "\<exists>b. n = n\<lparr>context_bits := b\<rparr>" by (rule exI [of _ "context_bits n"]) simp
  show ?thesis using assms by (auto simp: record_ctx_def ctx_known_def intro: n)
qed

lemma record_base_spec:
  assumes "graph_ok g" "base < length (nodes g)" "ctx_known irq rq"
  shows "\<exists>res g'. record_base irq g base (Some rq) = Some (res, g') \<and> graph_ok g' \<and> grown (Some base) g g' \<and>
    length (nodes g') = length (nodes g) \<and> n_class (nodes g' ! base) = n_class (nodes g ! base) \<and>
    n_subclass (nodes g' ! base) = n_subclass (nodes g ! base) \<and> (res = RESULT_OK \<or> res = RESULT_BAD_CONTEXT)"
proof -
  obtain res b where "record_ctx irq (nodes g ! base) rq = Some (res, (nodes g ! base)\<lparr>context_bits := b\<rparr>)"
    "res = RESULT_OK \<or> res = RESULT_BAD_CONTEXT" using record_ctx_spec [OF assms(3)] by blast
  then show ?thesis using assms(2) graph_ok_ctx [OF assms(1,2), of b]
    by (auto simp: record_base_def rd_def grown_def nth_list_update)
qed

lemma grown_record:
  assumes "grown ex g g1" "grown (Some base) g1 g2" "ex = (if base < length (nodes g) then Some base else None)"
  shows "grown ex g g2"
proof -
  have "nodes g2 ! i = nodes g1 ! i" if "i < length (nodes g)" "ex \<noteq> Some i" for i
    using that assms by (auto simp: grown_def split: if_splits)
  moreover have "(nodes g2 ! i)\<lparr>context_bits := b\<rparr> = (nodes g1 ! i)\<lparr>context_bits := b\<rparr>" if "i < length (nodes g)" for i b
    using that assms(1,2) unfolding grown_def
    by (metis (no_types, lifting) lock_chk_node.surjective lock_chk_node.update_convs(4) order_less_le_trans)
  ultimately show ?thesis using assms(1,2) by (auto simp: grown_def)
qed

lemma grown_node_for:
  assumes "grown ex g g'" "i < length (nodes g)" "node_for c sc (nodes g ! i)"
  shows "node_for c sc (nodes g' ! i)"
proof -
  have "node_for c sc ((nodes g' ! i)\<lparr>context_bits := context_bits (nodes g ! i)\<rparr>)"
    using assms by (simp add: grown_def)
  then show ?thesis by (simp add: node_for_def)
qed

definition resolved :: "lock_chk_graph \<Rightarrow> lock_chk_map \<Rightarrow> nat \<Rightarrow> lock_chk_graph \<times> lock_chk_map \<times> nat \<Rightarrow> bool" where
  "resolved g m sc = (\<lambda>(g', m', i). i < length (nodes g') \<and> node_for (lock_chk_map_class m) sc (nodes g' ! i) \<and>
     (\<exists>b < length (nodes g'). m' = m\<lparr>base_node := Some b\<rparr> \<and> node_for (lock_chk_map_class m) 0 (nodes g' ! b)))"

lemma resolve_node_spec:
  assumes "graph_ok g" "ctx_known irq rq" "find_node g (lock_chk_map_class m) 0 = Some ex"
  shows "\<exists>res out g' m'. resolve_node irq g m sc (Some rq) = Some (res, out, g', m') \<and> graph_ok g' \<and> grown ex g g' \<and>
    (res = RESULT_OK \<and> (\<exists>i. out = Some i \<and> resolved g m sc (g', m', i)) \<or>
     res \<in> {RESULT_INTERNAL, RESULT_NODE_CAPACITY, RESULT_BAD_CONTEXT})"
proof (cases "LOCK_CHK_MAX_SUBCLASSES \<le> sc")
  case True
  then show ?thesis using assms(1) by (simp add: resolve_node_def grown_refl)
next
  case sub: False
  let ?c = "lock_chk_map_class m"
  obtain r where r: "get_node g ?c 0 = Some r" and rs: "case r of Inl err \<Rightarrow> err = RESULT_NODE_CAPACITY \<and> length (nodes g) = LOCK_CHK_MAX_NODES
     | Inr (i, g') \<Rightarrow> graph_ok g' \<and> grown ex g g' \<and> i < length (nodes g') \<and> node_for ?c 0 (nodes g' ! i) \<and>
         find_node g ?c 0 = Some (if i < length (nodes g) then Some i else None)"
    using get_node_spec [OF assms(1), of ?c 0 ex] by (elim exE conjE)
  show ?thesis
  proof (cases r)
    case (Inl e)
    then show ?thesis using sub r rs assms(1) by (simp add: resolve_node_def grown_refl)
  next
    case (Inr p)
    obtain base g1 where p: "p = (base, g1)" by force
    have g1: "graph_ok g1" "grown ex g g1" "base < length (nodes g1)" "node_for ?c 0 (nodes g1 ! base)"
      "ex = (if base < length (nodes g) then Some base else None)" using rs assms(3) unfolding Inr p by auto
    obtain res g2 where g2: "record_base irq g1 base (Some rq) = Some (res, g2)" "graph_ok g2" "grown (Some base) g1 g2"
      "length (nodes g2) = length (nodes g1)" "res = RESULT_OK \<or> res = RESULT_BAD_CONTEXT"
      using record_base_spec [OF g1(1,3) assms(2)] by blast
    note e = resolve_node_def Let_def r Inr p g2(1)
    have gr: "grown ex g g2" using grown_record [OF g1(2) g2(3) g1(5)] .
    have nf: "node_for ?c 0 (nodes g2 ! base)" using grown_node_for [OF g2(3) g1(3,4)] .
    obtain r' where r': "get_node g2 ?c sc = Some r'" and rs': "case r' of
       Inl err \<Rightarrow> err = RESULT_NODE_CAPACITY \<and> length (nodes g2) = LOCK_CHK_MAX_NODES
     | Inr (i, g') \<Rightarrow> graph_ok g' \<and> grown ex g2 g' \<and> i < length (nodes g') \<and> node_for ?c sc (nodes g' ! i) \<and>
         find_node g2 ?c sc = Some (if i < length (nodes g2) then Some i else None)"
      using get_node_spec [OF g2(2), of ?c sc ex] by (elim exE conjE)
    consider (bad) "res = RESULT_BAD_CONTEXT" | (base) "res = RESULT_OK" "sc = 0"
      | (full) "res = RESULT_OK" "sc \<noteq> 0" "r' = Inl RESULT_NODE_CAPACITY"
      | (ok) i g3 where "res = RESULT_OK" "sc \<noteq> 0" "r' = Inr (i, g3)"
      using g2(5) rs' by (cases r') auto
    then show ?thesis
    proof cases
      case ok
      then have g3: "graph_ok g3" "grown ex g2 g3" "i < length (nodes g3)" "node_for ?c sc (nodes g3 ! i)"
        using rs' by auto
      moreover have "node_for ?c 0 (nodes g3 ! base)" "base < length (nodes g3)"
        using grown_node_for [OF g3(2) _ nf] g1(3) g2(4) g3(2) by (auto simp: grown_def)
      ultimately show ?thesis using ok sub grown_trans [OF gr g3(2)] r' by (auto simp: e resolved_def)
    qed (use sub g1 g2 gr nf r' in \<open>auto simp: e resolved_def\<close>)
  qed
qed

section \<open>Rolling back\<close>

lemma rollback_nodes_eq:
  "old \<le> length (nodes g) \<Longrightarrow> rollback_nodes g old =
     g\<lparr>nodes := take old (nodes g), class_hash := map (filter (\<lambda>i. i < old \<or> length (nodes g) \<le> i)) (class_hash g)\<rparr>"
proof (induction g old rule: rollback_nodes.induct)
  case (1 g old)
  show ?case
  proof (cases "old < length (nodes g)")
    case True
    then have "i < old \<or> length (nodes g) \<le> i \<longleftrightarrow> (i < old \<or> length (nodes g) - 1 \<le> i) \<and> i \<noteq> length (nodes g) - 1" for i
      by linarith
    then have "filter (\<lambda>i. i < old \<or> length (nodes g) - 1 \<le> i) (removeAll (length (nodes g) - 1) xs) =
        filter (\<lambda>i. i < old \<or> length (nodes g) \<le> i) xs" for xs
      unfolding removeAll_filter_not_eq filter_filter by (intro filter_cong) auto
    then show ?thesis using True 1
      by (subst rollback_nodes.simps) (simp add: comp_def take_butlast)
  next
    case False
    then have "map (filter (\<lambda>i. i < old \<or> length (nodes g) \<le> i)) xs = xs" for xs
      using 1 by (intro map_idI filter_True) auto
    then show ?thesis using False 1 by (subst rollback_nodes.simps) simp
  qed
qed

lemma filter_upt_prefix: "k \<le> n \<Longrightarrow> filter (\<lambda>i. i < k \<or> n \<le> i) (rev (filter P [0..<n])) = rev (filter P [0..<k])"
proof -
  assume k: "k \<le> n"
  have "[0..<n] = [0..<k] @ [k..<n]" using k by (metis le0 upt_add_eq_append le_add_diff_inverse)
  moreover have "filter (\<lambda>x. P x \<and> (x < k \<or> n \<le> x)) [0..<k] = filter P [0..<k]" by (rule filter_cong) auto
  moreover have "filter (\<lambda>x. P x \<and> (x < k \<or> n \<le> x)) [k..<n] = []" by (auto simp: filter_empty_conv)
  ultimately show ?thesis by (simp flip: rev_filter add: conj_commute)
qed

lemma grown_hash: "grown ex g g' \<Longrightarrow> i < length (nodes g) \<Longrightarrow> node_hash (nodes g' ! i) = node_hash (nodes g ! i)"
proof -
  assume "grown ex g g'" "i < length (nodes g)"
  then have "node_hash ((nodes g' ! i)\<lparr>context_bits := context_bits (nodes g ! i)\<rparr>) = node_hash (nodes g ! i)"
    by (simp add: grown_def)
  then show ?thesis by (simp add: node_hash_def)
qed

lemma rollback_restores:
  assumes "graph_ok g" "graph_ok g'" "grown ex g g'" "\<forall>i. ex = Some i \<longrightarrow> i < length (nodes g) \<and> bits = context_bits (nodes g ! i)"
  shows "\<exists>h. restore_ctx ex bits (rollback_nodes g' (length (nodes g))) = Some h \<and> same_graph g h \<and> graph_ok h"
proof -
  let ?n = "length (nodes g)"
  let ?h = "rollback_nodes g' ?n"
  have le: "?n \<le> length (nodes g')" using assms(3) by (simp add: grown_def)
  have "class_hash ?h = map (\<lambda>b. rev (filter (\<lambda>i. node_hash (nodes g' ! i) = b) [0..<?n])) [0..<LOCK_CHK_HASH_BUCKETS]"
    using assms(2) filter_upt_prefix [OF le] by (simp add: rollback_nodes_eq [OF le] graph_ok_def hash_ok_def comp_def)
  moreover have "filter (\<lambda>i. node_hash (nodes g' ! i) = b) [0..<?n] = filter (\<lambda>i. node_hash (nodes g ! i) = b) [0..<?n]" for b
    using grown_hash [OF assms(3)] by (intro filter_cong) auto
  ultimately have ch: "class_hash ?h = class_hash g" using assms(1) by (simp add: graph_ok_def hash_ok_def)
  have ed: "edges ?h = edges g" using assms(3) by (simp add: rollback_nodes_eq [OF le] grown_def)
  have nd: "nodes ?h = take ?n (nodes g')" by (simp add: rollback_nodes_eq [OF le])
  have ar: "arrays_ok ?h" "\<forall>v \<in> set (visit_generation ?h). v \<le> generation ?h"
    using assms(2) by (auto simp: rollback_nodes_eq [OF le] graph_ok_def arrays_ok_def)
  have nth: "(nodes g' ! i)\<lparr>context_bits := context_bits (nodes g ! i)\<rparr> = nodes g ! i" "ex \<noteq> Some i \<Longrightarrow> nodes g' ! i = nodes g ! i"
    if "i < ?n" for i using that assms(3) by (auto simp: grown_def)
  show ?thesis
  proof (cases ex)
    case None
    then have "nodes ?h = nodes g" using nth(2) le by (intro nth_equalityI) (auto simp: nd)
    then have "same_graph g ?h" using ch ed by (simp add: same_graph_def)
    then show ?thesis using None same_graph_ok [OF assms(1)] ar by (auto simp: restore_ctx_def)
  next
    case (Some i)
    then have i: "i < ?n" "bits = context_bits (nodes g ! i)" using assms(4) by auto
    let ?ns = "(take ?n (nodes g'))[i := (nodes g' ! i)\<lparr>context_bits := bits\<rparr>]"
    have "?ns = nodes g" using nth i Some le by (intro nth_equalityI) (auto simp: nth_list_update)
    moreover have "restore_ctx ex bits ?h = Some (?h\<lparr>nodes := ?ns\<rparr>)"
      using i(1) le Some by (simp add: restore_ctx_def rd_def wr_def nd)
    moreover have "same_graph g (?h\<lparr>nodes := nodes g\<rparr>)" using ch ed by (simp add: same_graph_def)
    moreover have "graph_ok (?h\<lparr>nodes := nodes g\<rparr>)"
      using same_graph_ok [OF assms(1), of "?h\<lparr>nodes := nodes g\<rparr>"] ar ch ed by (simp add: same_graph_def arrays_ok_def)
    ultimately show ?thesis by simp
  qed
qed

section \<open>Dependencies on the held locks\<close>

abbreviation ordered :: "lock_chk_held \<Rightarrow> bool" where
  "ordered h \<equiv> lk_flags (h_lock h) AND LOCK_CHKD_ORDER \<noteq> 0"

definition dep_of :: "lock_chk_held \<Rightarrow> lock_chk_dep" where
  "dep_of h = \<lparr>d_node = the (h_node h), d_mode = h_mode h\<rparr>"

definition held_ok :: "lock_chk_graph \<Rightarrow> lock_chk_held list \<Rightarrow> bool" where
  "held_ok g held \<longleftrightarrow> (\<forall>h \<in> set held. ordered h \<longrightarrow> h_node h \<noteq> None \<and> dep_ok g (dep_of h))"

definition wanted :: "lock_chk_graph \<Rightarrow> lock_chk_held list \<Rightarrow> lock_chk_dep \<Rightarrow> nat \<Rightarrow> bool" where
  "wanted g held to i \<longleftrightarrow> held_contribs held i \<and> \<not> has_edge g (dep_of (held ! i)) to"

definition path_to :: "lock_chk_graph \<Rightarrow> lock_chk_dep \<Rightarrow> lock_chk_dep \<Rightarrow> bool" where
  "path_to g to from \<longleftrightarrow> (\<exists>t \<in> reach (set (edges g)) (dep_state to). blocks_dep from t)"

lemma held_dep_ok:
  assumes "held_ok g held" "i < length held" "held_contribs held i"
  shows "held_dep (held ! i) = Some (dep_of (held ! i))" "dep_ok g (dep_of (held ! i))"
  using assms by (auto simp: held_ok_def held_contribs_def held_dep_def dep_of_def)

lemma same_graph_keeps:
  assumes "same_graph g g'"
  shows "held_ok g' held = held_ok g held" "dep_ok g' d = dep_ok g d" "wanted g' = wanted g" "path_to g' = path_to g"
    "same_graph g' = same_graph g"
  using assms by (auto simp: same_graph_def held_ok_def dep_ok_def wanted_def has_edge_def path_to_def fun_eq_iff)

lemma check_held_spec:
  assumes "graph_ok g" "dep_ok g to" "held_ok g held" "\<forall>i \<in> set is. i < length held"
  shows "\<exists>r g'. check_held held to is missing g = Some (r, g') \<and> graph_ok g' \<and> same_graph g g' \<and>
    (\<forall>from. r = Inl from \<longrightarrow> (\<exists>g0 i. graph_ok g0 \<and> same_graph g g0 \<and> graph_path g0 to from = Some (True, g') \<and>
       i \<in> set is \<and> wanted g held to i \<and> from = dep_of (held ! i))) \<and>
    (\<forall>k. r = Inr k \<longrightarrow> k = missing + length (filter (wanted g held to) is) \<and>
       (\<forall>i \<in> set is. wanted g held to i \<longrightarrow> \<not> path_to g to (dep_of (held ! i))))"
  using assms
proof (induction "is" arbitrary: missing g)
  case Nil
  then show ?case by (auto simp: same_graph_def)
next
  case (Cons i "is")
  let ?d = "dep_of (held ! i)"
  have rest: "\<forall>i \<in> set is. i < length held" and i: "i < length held" using Cons.prems(4) by auto
  consider (skip) "\<not> held_contribs held i" | (known) "held_contribs held i" "has_edge g ?d to" | (new) "wanted g held to i"
    by (auto simp: wanted_def)
  then show ?case
  proof cases
    case skip
    then show ?thesis using Cons.IH [OF Cons.prems(1-3) rest, of missing] by (fastforce simp: wanted_def)
  next
    case known
    note d = held_dep_ok [OF Cons.prems(3) i known(1)]
    obtain x where "find_edge g ?d to = Some (Some x)"
      using find_edge_spec [OF Cons.prems(1), of ?d to] d(2) known(2) by (auto simp: dep_ok_def)
    then show ?thesis using known d(1) Cons.IH [OF Cons.prems(1-3) rest, of missing] by (fastforce simp: wanted_def)
  next
    case new
    then have c: "held_contribs held i" by (simp add: wanted_def)
    note d = held_dep_ok [OF Cons.prems(3) i c]
    have f: "find_edge g ?d to = Some None"
      using find_edge_spec [OF Cons.prems(1), of ?d to] d(2) new by (auto simp: dep_ok_def wanted_def)
    obtain b g1 where p: "graph_path g to ?d = Some (b, g1)" "graph_ok g1" "same_graph g g1" "b \<longleftrightarrow> path_to g to ?d"
      using graph_path_spec [OF Cons.prems(1,2), of ?d] by (auto simp: path_to_def)
    note k = same_graph_keeps [OF p(3)]
    show ?thesis
    proof (cases b)
      case True
      moreover have "same_graph g g" by (simp add: same_graph_def)
      ultimately show ?thesis using c d(1) f p new Cons.prems(1) by auto
    next
      case False
      have ih: "dep_ok g1 to" "held_ok g1 held" using Cons.prems k by simp_all
      show ?thesis using Cons.IH [OF p(2) ih rest, of "Suc missing"] False c d(1) f p new
        by (simp add: k) fastforce
    qed
  qed
qed

lemma has_edge_append: "edges g' = edges g @ N \<Longrightarrow> has_edge g d to \<Longrightarrow> has_edge g' d to"
  by (auto simp: has_edge_def)

lemma publish_held_spec:
  assumes "graph_ok g" "dep_ok g to" "held_ok g held" "\<forall>i \<in> set is. i < length held"
    and "length (edges g) + length (filter (wanted g held to) is) \<le> LOCK_CHK_MAX_EDGES"
  shows "\<exists>g' N. publish_held held to site is g = Some g' \<and> graph_ok g' \<and> length (nodes g') = length (nodes g) \<and>
    edges g' = edges g @ N \<and> (\<forall>e \<in> set N. \<exists>i \<in> set is. wanted g held to i \<and> e = dep_edge (dep_of (held ! i)) to site) \<and>
    (\<forall>i \<in> set is. held_contribs held i \<longrightarrow> has_edge g' (dep_of (held ! i)) to)"
  using assms
proof (induction "is" arbitrary: g)
  case (Cons i "is")
  let ?d = "dep_of (held ! i)"
  have rest: "\<forall>i \<in> set is. i < length held" and i: "i < length held" using Cons.prems(4) by auto
  consider (skip) "\<not> held_contribs held i" | (known) "held_contribs held i" "has_edge g ?d to" | (new) "wanted g held to i"
    by (auto simp: wanted_def)
  then show ?case
  proof cases
    case skip
    then have "\<not> wanted g held to i" by (simp add: wanted_def)
    then show ?thesis using skip Cons.IH [OF Cons.prems(1-3) rest] Cons.prems(5) by simp
  next
    case known
    note d = held_dep_ok [OF Cons.prems(3) i known(1)]
    obtain x where f: "find_edge g ?d to = Some (Some x)"
      using find_edge_spec [OF Cons.prems(1), of ?d to] d(2) known(2) by (auto simp: dep_ok_def)
    have "\<not> wanted g held to i" using known by (simp add: wanted_def)
    then obtain g' N where "publish_held held to site is g = Some g'" "graph_ok g'" "length (nodes g') = length (nodes g)"
      "edges g' = edges g @ N" "\<forall>e \<in> set N. \<exists>i \<in> set is. wanted g held to i \<and> e = dep_edge (dep_of (held ! i)) to site"
      "\<forall>i \<in> set is. held_contribs held i \<longrightarrow> has_edge g' (dep_of (held ! i)) to"
      using Cons.IH [OF Cons.prems(1-3) rest] Cons.prems(5) by auto
    then show ?thesis using known d(1) f has_edge_append by fastforce
  next
    case new
    then have c: "held_contribs held i" by (simp add: wanted_def)
    note d = held_dep_ok [OF Cons.prems(3) i c]
    have f: "find_edge g ?d to = Some None"
      using find_edge_spec [OF Cons.prems(1), of ?d to] d(2) new by (auto simp: dep_ok_def wanted_def)
    have room: "length (edges g) < LOCK_CHK_MAX_EDGES" using Cons.prems(5) new by simp
    obtain g1 where g1: "publish_edge g ?d to site = Some g1" "graph_ok g1" "edges g1 = edges g @ [dep_edge ?d to site]"
      "length (nodes g1) = length (nodes g)"
      using publish_edge_spec [OF Cons.prems(1) d(2) Cons.prems(2) room] by blast
    have ok: "dep_ok g1 to" "held_ok g1 held" using Cons.prems g1(4) by (auto simp: dep_ok_def held_ok_def)
    have sub: "wanted g held to j" if "wanted g1 held to j" for j
      using that has_edge_append [OF g1(3)] by (auto simp: wanted_def)
    have "length (filter (wanted g1 held to) is) \<le> length (filter (wanted g held to) is)"
      using sub by (induction "is") auto
    then have "length (edges g1) + length (filter (wanted g1 held to) is) \<le> LOCK_CHK_MAX_EDGES"
      using Cons.prems(5) new g1(3) by simp
    then obtain g' N where g': "publish_held held to site is g1 = Some g'" "graph_ok g'" "length (nodes g') = length (nodes g1)"
      "edges g' = edges g1 @ N" "\<forall>e \<in> set N. \<exists>i \<in> set is. wanted g1 held to i \<and> e = dep_edge (dep_of (held ! i)) to site"
      "\<forall>i \<in> set is. held_contribs held i \<longrightarrow> has_edge g' (dep_of (held ! i)) to"
      using Cons.IH [OF g1(2) ok rest] by blast
    have "has_edge g' ?d to" using g'(4) g1(3) by (auto simp: has_edge_def)
    then show ?thesis using g' g1 c d(1) f sub new
      by (intro exI [of _ g'] exI [of _ "dep_edge ?d to site # N"]) auto
  qed
qed simp

text \<open>The first of the held locks with a given node and mode is the one that contributes.\<close>

lemma contributes:
  assumes "i < length held" "ordered (held ! i)"
  shows "\<exists>j \<le> i. held_contribs held j \<and> dep_of (held ! j) = dep_of (held ! i)"
  using assms
proof (induction i rule: less_induct)
  case (less i)
  show ?case
  proof (cases "dep_repeated held i")
    case True
    then obtain k where "k < i" "ordered (held ! k)" "dep_of (held ! k) = dep_of (held ! i)"
      by (auto simp: dep_repeated_def dep_of_def)
    then show ?thesis using less by (metis less_le_trans less_imp_le order_trans less_trans)
  next
    case False
    then show ?thesis using less by (auto simp: held_contribs_def)
  qed
qed

text \<open>Publishing edges keeps the class and subclass of every node.\<close>

definition labels :: "lock_chk_graph \<Rightarrow> (lock_chk_class \<times> nat) list" where
  "labels g = map (\<lambda>n. (n_class n, n_subclass n)) (nodes g)"

lemma publish_edge_labels: "publish_edge g from to site = Some g' \<Longrightarrow> labels g' = labels g"
  by (auto simp: publish_edge_def labels_def rd_def wr_def Let_def Option.bind_eq_Some_conv map_update nth_list_update
      intro!: nth_equalityI split: if_splits)

lemma publish_held_labels: "publish_held held to site is g = Some g' \<Longrightarrow> labels g' = labels g"
  by (induction "is" arbitrary: g) (auto simp: Option.bind_eq_Some_conv publish_edge_labels split: if_splits)

lemma labels_node_for: "labels g' = labels g \<Longrightarrow> i < length (nodes g) \<Longrightarrow> node_for c sc (nodes g' ! i) = node_for c sc (nodes g ! i)"
proof -
  assume l: "labels g' = labels g" and i: "i < length (nodes g)"
  then have "length (nodes g') = length (nodes g)" by (metis labels_def length_map)
  then have "labels g' ! i = labels g ! i" "i < length (nodes g')" using l i by simp_all
  then show ?thesis using i by (simp add: labels_def node_for_def)
qed

definition waits_for_held :: "lock_chk_graph \<Rightarrow> lock_chk_held list \<Rightarrow> lock_chk_dep \<Rightarrow> lock_chk_site \<Rightarrow> lock_chk_held \<Rightarrow> bool" where
  "waits_for_held g held to site h \<longleftrightarrow> h \<in> set held \<and> ordered h \<and>
     \<not> acyclic (follows (insert (dep_edge (dep_of h) to site) (set (edges g))))"

lemma path_closes: "path_to g to from \<Longrightarrow> \<not> acyclic (follows (insert (dep_edge from to site) (set (edges g))))"
  using cycle_closes [of _ "set (edges g)" "dep_edge from to site"] by (auto simp: path_to_def)

lemma add_held_deps_spec:
  assumes "graph_ok g" "deadlock_free g" "dep_ok g to" "held_ok g held"
  shows "\<exists>res f busy' g'. add_held_deps g busy want site held to = Some (res, f, busy', g') \<and> graph_ok g' \<and> deadlock_free g' \<and>
    (res = RESULT_OK \<and> f = None \<and> labels g' = labels g \<and> set (edges g) \<subseteq> set (edges g') \<and>
       (\<forall>h \<in> set held. ordered h \<longrightarrow> has_edge g' (dep_of h) to) \<or>
     res = RESULT_CYCLE \<and> (want \<longleftrightarrow> f \<noteq> None) \<and> same_graph g g' \<and> (\<exists>h. waits_for_held g held to site h \<and>
       (\<forall>x. f = Some x \<longrightarrow> fault_real g' (dep_edge (dep_of h) to site) x)) \<or>
     res = RESULT_EDGE_CAPACITY \<and> (want \<longleftrightarrow> f \<noteq> None) \<and> same_graph g g')"
proof -
  let ?is = "[0..<length held]"
  have "\<forall>i \<in> set ?is. i < length held" by simp
  from check_held_spec [OF assms(1,3,4) this, of 0]
  obtain r g1 where r: "check_held held to ?is 0 g = Some (r, g1)" "graph_ok g1" "same_graph g g1"
    and cyc: "\<forall>from. r = Inl from \<longrightarrow> (\<exists>g0 i. graph_ok g0 \<and> same_graph g g0 \<and> graph_path g0 to from = Some (True, g1) \<and>
       i \<in> set ?is \<and> wanted g held to i \<and> from = dep_of (held ! i))"
    and cnt: "\<forall>k. r = Inr k \<longrightarrow> k = 0 + length (filter (wanted g held to) ?is) \<and>
       (\<forall>i \<in> set ?is. wanted g held to i \<longrightarrow> \<not> path_to g to (dep_of (held ! i)))"
    by (elim exE conjE)
  note k = same_graph_keeps [OF r(3)] and sg = same_graph_simps [OF r(3)]
  have df: "deadlock_free g1" using assms(2) r(3) by (simp add: deadlock_free_def same_graph_def)
  show ?thesis
  proof (cases r)
    case (Inl "from")
    then obtain g0 i where g0: "graph_ok g0" "same_graph g g0" "graph_path g0 to from = Some (True, g1)"
      and i: "i < length held" "held_contribs held i" "from = dep_of (held ! i)" using cyc by (auto simp: wanted_def)
    note k0 = same_graph_keeps [OF g0(2)]
    have d: "dep_ok g0 from" "dep_ok g0 to" using held_dep_ok(2) [OF assms(4) i(1,2)] assms(3) i(3) k0 by auto
    obtain f busy' where o: "cycle_outcome g1 busy want site from to = Some (RESULT_CYCLE, f, busy', g1)"
      "want \<longleftrightarrow> f \<noteq> None" "\<forall>x. f = Some x \<longrightarrow> fault_real g1 (dep_edge from to site) x"
      using cycle_outcome_spec [OF g0(1) d g0(3)] by blast
    have "path_to g0 to from" using graph_path_spec [OF g0(1) d(2), of "from"] g0(3) by (auto simp: path_to_def)
    then have "waits_for_held g held to site (held ! i)"
      using path_closes [of g to "from" site] k0 i by (auto simp: waits_for_held_def held_contribs_def)
    then show ?thesis using Inl r o df i(3) by (auto simp: add_held_deps_def)
  next
    case (Inr n)
    have n: "n = length (filter (wanted g held to) ?is)"
      "\<forall>i < length held. wanted g held to i \<longrightarrow> \<not> path_to g to (dep_of (held ! i))" using cnt Inr by auto
    show ?thesis
    proof (cases "LOCK_CHK_MAX_EDGES - length (edges g1) < n")
      case True
      moreover have "\<exists>f b. cap_outcome g1 busy want (d_node to) = Some (RESULT_EDGE_CAPACITY, f, b, g1) \<and> (want \<longleftrightarrow> f \<noteq> None)"
        using assms(3) sg by (auto simp: cap_outcome_def make_cap_fail_def rd_def dep_ok_def)
      ultimately show ?thesis using Inr r df by (auto simp: add_held_deps_def)
    next
      case False
      have le: "length (edges g1) \<le> LOCK_CHK_MAX_EDGES" using r(2) by (simp add: graph_ok_def)
      have room: "length (edges g1) + length (filter (wanted g1 held to) ?is) \<le> LOCK_CHK_MAX_EDGES"
        using False le n(1) k(3) by simp
      have ok: "dep_ok g1 to" "held_ok g1 held" "\<forall>i \<in> set ?is. i < length held" using assms(3,4) k by auto
      obtain g' N where g': "publish_held held to site ?is g1 = Some g'" "graph_ok g'" "edges g' = edges g1 @ N"
        "\<forall>e \<in> set N. \<exists>i \<in> set ?is. wanted g1 held to i \<and> e = dep_edge (dep_of (held ! i)) to site"
        "\<forall>i \<in> set ?is. held_contribs held i \<longrightarrow> has_edge g' (dep_of (held ! i)) to"
        using publish_held_spec [OF r(2) ok room, of site] by blast
      have "acyclic (follows (set (edges g1) \<union> set N))"
        using df g'(4) n(2) k
        by (intro acyclic_new_edges [of _ _ "dep_state to"]) (auto simp: deadlock_free_def path_to_def sg)
      then have "deadlock_free g'" using g'(3) by (simp add: deadlock_free_def)
      moreover have "has_edge g' (dep_of h) to" if hs: "h \<in> set held" "ordered h" for h
      proof -
        obtain i where i: "i < length held" "h = held ! i" using hs(1) by (auto simp: in_set_conv_nth)
        then obtain j where "j \<le> i" "held_contribs held j" "dep_of (held ! j) = dep_of h" using contributes [of i held] hs(2) by auto
        then show ?thesis using g'(5) i by fastforce
      qed
      moreover have "labels g' = labels g" using publish_held_labels [OF g'(1)] sg by (simp add: labels_def)
      ultimately show ?thesis using Inr False r g' sg by (auto simp: add_held_deps_def)
    qed
  qed
qed

section \<open>Preparing an acquisition\<close>

lemma grown_deps:
  assumes "grown ex g g'"
  shows "dep_ok g d \<Longrightarrow> dep_ok g' d" "held_ok g held \<Longrightarrow> held_ok g' held" "deadlock_free g' = deadlock_free g"
  using assms by (auto simp: grown_def dep_ok_def held_ok_def deadlock_free_def)

lemma grown_same: "grown ex g g' \<Longrightarrow> same_graph g' g'' \<Longrightarrow> grown ex g g''"
  by (simp add: grown_def same_graph_def)

text \<open>Nodes are only added: the ones there keep their class and subclass.\<close>

definition labels_grow :: "lock_chk_graph \<Rightarrow> lock_chk_graph \<Rightarrow> bool" where
  "labels_grow g g' \<longleftrightarrow> length (nodes g) \<le> length (nodes g') \<and> take (length (nodes g)) (labels g') = labels g"

lemma grown_labels: "grown ex g g' \<Longrightarrow> labels_grow g g'"
proof -
  assume gr: "grown ex g g'"
  have "(n_class (nodes g' ! i), n_subclass (nodes g' ! i)) = (n_class (nodes g ! i), n_subclass (nodes g ! i))"
    if "i < length (nodes g)" for i
  proof -
    have "(nodes g' ! i)\<lparr>context_bits := context_bits (nodes g ! i)\<rparr> = nodes g ! i" using gr that by (simp add: grown_def)
    then show ?thesis by (metis lock_chk_node.ext_inject lock_chk_node.surjective lock_chk_node.update_convs(4))
  qed
  then show ?thesis using gr by (auto simp: grown_def labels_def labels_grow_def intro!: nth_equalityI)
qed

lemma same_labels: "labels g'' = labels g' \<Longrightarrow> labels_grow g g' \<Longrightarrow> labels_grow g g''"
  by (metis labels_def labels_grow_def length_map)

lemma same_graph_labels: "same_graph g g' \<Longrightarrow> labels_grow g g'"
  by (simp add: same_graph_def labels_grow_def labels_def)

lemma prepare_acq_spec:
  assumes "graph_ok g" "deadlock_free g" "held_ok g held" "ctx_known irq rq" "rq_mode rq \<noteq> MODE_IGNORED"
  shows "\<exists>res f busy' g' out m'.
    lock_chk_graph_prepare_acq irq g busy want m sc rq held = Some ((res, f, busy', g'), out, m') \<and>
    graph_ok g' \<and> deadlock_free g' \<and> labels_grow g g' \<and>
    (res = RESULT_OK \<and> (\<exists>i. out = Some i \<and> resolved g m sc (g', m', i) \<and> set (edges g) \<subseteq> set (edges g') \<and>
       (rq_op_flags rq AND LOCK_OP_KIND_MASK = LOCK_OP_KIND_BLOCKING \<longrightarrow>
          (\<forall>h \<in> set held. ordered h \<longrightarrow> has_edge g' (dep_of h) \<lparr>d_node = i, d_mode = rq_mode rq\<rparr>))) \<or>
     res \<noteq> RESULT_OK \<and> out = None \<and> m' = m \<and> same_graph g g' \<and>
       (res = RESULT_CYCLE \<or> res = RESULT_EDGE_CAPACITY \<longrightarrow> (want \<longleftrightarrow> f \<noteq> None)) \<and>
       (res = RESULT_CYCLE \<longrightarrow> (\<exists>h i. waits_for_held g held \<lparr>d_node = i, d_mode = rq_mode rq\<rparr> (rq_site rq) h)))"
proof -
  obtain ex where ex: "find_node g (lock_chk_map_class m) 0 = Some ex" "\<forall>i. ex = Some i \<longrightarrow> i < length (nodes g)"
    using find_node_spec [of g "lock_chk_map_class m" 0] assms(1) by (auto simp: graph_ok_def)
  define bits where "bits = (case ex of None \<Rightarrow> 0 | Some i \<Rightarrow> context_bits (nodes g ! i))"
  have bits: "(case ex of None \<Rightarrow> Some 0 | Some i \<Rightarrow> map_option context_bits (rd (nodes g) i)) = Some bits"
    "\<forall>i. ex = Some i \<longrightarrow> i < length (nodes g) \<and> bits = context_bits (nodes g ! i)"
    using ex(2) by (auto simp: bits_def rd_def split: option.splits)
  obtain res out g1 m1 where r: "resolve_node irq g m sc (Some rq) = Some (res, out, g1, m1)" "graph_ok g1" "grown ex g g1"
    "res = RESULT_OK \<and> (\<exists>i. out = Some i \<and> resolved g m sc (g1, m1, i)) \<or>
     res \<in> {RESULT_INTERNAL, RESULT_NODE_CAPACITY, RESULT_BAD_CONTEXT}"
    using resolve_node_spec [OF assms(1,4) ex(1), of sc] by blast
  have undo: "\<exists>h. restore_ctx ex bits (rollback_nodes g' (length (nodes g))) = Some h \<and> same_graph g h \<and> graph_ok h \<and> deadlock_free h"
    if "graph_ok g'" "grown ex g g'" for g'
    using rollback_restores [OF assms(1) that bits(2)] assms(2) by (auto simp: deadlock_free_def same_graph_def)
  note e = lock_chk_graph_prepare_acq_def ex(1) bits(1) r(1) Let_def
  note gr = grown_deps [OF r(3)]
  have sub: "edges g1 = edges g" using r(3) by (simp add: grown_def)
  consider (bad) "res \<noteq> RESULT_OK" "res \<noteq> RESULT_CYCLE" "res \<noteq> RESULT_EDGE_CAPACITY"
    | (free) i where "res = RESULT_OK" "out = Some i" "resolved g m sc (g1, m1, i)"
        "rq_op_flags rq AND LOCK_OP_KIND_MASK \<noteq> LOCK_OP_KIND_BLOCKING"
    | (blocking) i where "res = RESULT_OK" "out = Some i" "resolved g m sc (g1, m1, i)"
        "rq_op_flags rq AND LOCK_OP_KIND_MASK = LOCK_OP_KIND_BLOCKING"
    using r(4) by auto
  then show ?thesis
  proof cases
    case bad
    then show ?thesis using undo [OF r(2,3)] by (auto simp: e dest: same_graph_labels)
  next
    case free
    then show ?thesis using r(2) gr(3) assms(2) sub grown_labels [OF r(3)] by (auto simp: e)
  next
    case blocking
    let ?to = "\<lparr>d_node = i, d_mode = rq_mode rq\<rparr>"
    have d: "deadlock_free g1" "dep_ok g1 ?to" "held_ok g1 held"
      using gr assms(2,3,5) blocking(3) by (auto simp: dep_ok_def resolved_def)
    obtain res' f busy' g2 where a: "add_held_deps g1 busy want (rq_site rq) held ?to = Some (res', f, busy', g2)"
      "graph_ok g2" "deadlock_free g2"
      "res' = RESULT_OK \<and> f = None \<and> labels g2 = labels g1 \<and> set (edges g1) \<subseteq> set (edges g2) \<and>
         (\<forall>h \<in> set held. ordered h \<longrightarrow> has_edge g2 (dep_of h) ?to) \<or>
       res' = RESULT_CYCLE \<and> (want \<longleftrightarrow> f \<noteq> None) \<and> same_graph g1 g2 \<and> (\<exists>h. waits_for_held g1 held ?to (rq_site rq) h \<and>
         (\<forall>x. f = Some x \<longrightarrow> fault_real g2 (dep_edge (dep_of h) ?to (rq_site rq)) x)) \<or>
       res' = RESULT_EDGE_CAPACITY \<and> (want \<longleftrightarrow> f \<noteq> None) \<and> same_graph g1 g2"
      using add_held_deps_spec [OF r(2) d, of busy want "rq_site rq"] by (elim exE conjE)
    note e2 = e blocking(1,2,4) a(1)
    from a(4) show ?thesis
    proof (elim disjE conjE exE)
      assume ok: "res' = RESULT_OK" "labels g2 = labels g1" "set (edges g1) \<subseteq> set (edges g2)"
        "\<forall>h \<in> set held. ordered h \<longrightarrow> has_edge g2 (dep_of h) ?to"
      have "length (nodes g2) = length (nodes g1)" using ok(2) by (metis labels_def length_map)
      then have "resolved g m sc (g2, m1, i)"
        using blocking(3) labels_node_for [OF ok(2)] by (auto simp: resolved_def)
      then show ?thesis using ok a sub same_labels [OF ok(2) grown_labels [OF r(3)]] by (auto simp: e2)
    next
      fix h assume c: "res' = RESULT_CYCLE" "same_graph g1 g2" and w: "want \<longleftrightarrow> f \<noteq> None" and c3: "waits_for_held g1 held ?to (rq_site rq) h"
      then have "waits_for_held g held ?to (rq_site rq) h" using c3 sub by (simp add: waits_for_held_def)
      then have "\<exists>h i. waits_for_held g held \<lparr>d_node = i, d_mode = rq_mode rq\<rparr> (rq_site rq) h" by blast
      moreover obtain hh where hh: "restore_ctx ex bits (rollback_nodes g2 (length (nodes g))) = Some hh" "same_graph g hh"
        "graph_ok hh" "deadlock_free hh" using undo [OF a(2) grown_same [OF r(3) c(2)]] by blast
      ultimately show ?thesis using c(1) same_graph_labels [OF hh(2)] by (simp add: e2 hh) (use w in simp)
    next
      assume c: "res' = RESULT_EDGE_CAPACITY" "same_graph g1 g2" and w: "want \<longleftrightarrow> f \<noteq> None"
      obtain hh where hh: "restore_ctx ex bits (rollback_nodes g2 (length (nodes g))) = Some hh" "same_graph g hh"
        "graph_ok hh" "deadlock_free hh" using undo [OF a(2) grown_same [OF r(3) c(2)]] by blast
      show ?thesis using c(1) same_graph_labels [OF hh(2)] by (simp add: e2 hh) (use w in simp)
    qed
  qed
qed

text \<open>
  C5. Preparing to take a lock while others are held: the validator always answers, and the
  recorded dependencies stay free of cycles. When it accepts, the node belongs to the lock's class and subclass
  and, for a blocking acquisition, every held lock that takes part in the ordering is recorded as
  waited on by the new one. When it refuses, for any reason, the nodes, the edges, the hash table
  and the lock's map are exactly what they were before; a refusal as a cycle names a held lock
  with which the new dependency would close a cycle.
\<close>

theorem prepare_acq_keeps_deadlock_free:
  assumes "graph_ok g" "deadlock_free g" "held_ok g held" "ctx_known irq rq" "rq_mode rq \<noteq> MODE_IGNORED"
  shows "\<exists>res f busy' g' out m'.
    lock_chk_graph_prepare_acq irq g busy want m sc rq held = Some ((res, f, busy', g'), out, m') \<and>
    graph_ok g' \<and> deadlock_free g' \<and> labels_grow g g' \<and>
    (res = RESULT_OK \<and> (\<exists>i. out = Some i \<and> resolved g m sc (g', m', i) \<and> set (edges g) \<subseteq> set (edges g') \<and>
       (rq_op_flags rq AND LOCK_OP_KIND_MASK = LOCK_OP_KIND_BLOCKING \<longrightarrow>
          (\<forall>h \<in> set held. ordered h \<longrightarrow> has_edge g' (dep_of h) \<lparr>d_node = i, d_mode = rq_mode rq\<rparr>))) \<or>
     res \<noteq> RESULT_OK \<and> out = None \<and> m' = m \<and> same_graph g g' \<and>
       (res = RESULT_CYCLE \<or> res = RESULT_EDGE_CAPACITY \<longrightarrow> (want \<longleftrightarrow> f \<noteq> None)) \<and>
       (res = RESULT_CYCLE \<longrightarrow> (\<exists>h i. waits_for_held g held \<lparr>d_node = i, d_mode = rq_mode rq\<rparr> (rq_site rq) h)))"
  using assms by (rule prepare_acq_spec)

section \<open>A concrete graph\<close>

text \<open>Two lock classes, the second taken while the first is held.\<close>

definition class_at :: "u64 \<Rightarrow> lock_chk_class" where
  "class_at a = \<lparr>cls_at = a, cls_name = ''lock'', cls_file = ''a.c'', cls_line = 1\<rparr>"

definition a_site :: lock_chk_site where
  "a_site = \<lparr>site_file = ''a.c'', site_func = ''f'', site_line = 7\<rparr>"

definition lock_x :: "nat \<Rightarrow> lock_chk_dep" where
  "lock_x n = \<lparr>d_node = n, d_mode = MODE_EXCLUSIVE\<rparr>"

definition two_locks :: lock_chk_graph where
  "two_locks = \<lparr>class_hash = (replicate 1024 [])[1 := [0], 2 := [1]],
     nodes = [\<lparr>n_id = 0, n_class = class_at 0x10, n_subclass = 0, context_bits = 0, out_edges = [0], in_edges = []\<rparr>,
              \<lparr>n_id = 1, n_class = class_at 0x20, n_subclass = 0, context_bits = 0, out_edges = [], in_edges = [0]\<rparr>],
     edges = [dep_edge (lock_x 0) (lock_x 1) a_site],
     visit_generation = replicate 2048 0, parent_state = replicate 2048 0, parent_edge = replicate 2048 0,
     last_cycle_end_state = - 1, generation = 0\<rparr>"

lemma two_locks_ok: "graph_ok two_locks"
proof -
  have n: "length (nodes two_locks) = 2" by (simp add: two_locks_def)
  have h: "node_hash (nodes two_locks ! 0) = 1" "node_hash (nodes two_locks ! Suc 0) = 2"
    by (simp_all add: two_locks_def node_hash_def lock_chk_class_hash_def class_at_def LOCK_CHK_HASH_BUCKETS_def Let_def)
  have ch: "class_hash two_locks = (replicate 1024 [])[1 := [0], 2 := [1]]" by (simp add: two_locks_def)
  have "hash_ok two_locks" unfolding hash_ok_def n LOCK_CHK_HASH_BUCKETS_def
  proof (rule nth_equalityI)
    show "length (class_hash two_locks) = length (map (\<lambda>b. rev (filter (\<lambda>i. node_hash (nodes two_locks ! i) = b) [0..<2])) [0..<1024])"
      by (simp add: two_locks_def)
    fix b assume "b < length (class_hash two_locks)"
    then have b: "b < 1024" by (simp add: two_locks_def)
    have u: "[0..<2] = [0, Suc 0]" by (simp add: upt_rec)
    show "class_hash two_locks ! b = map (\<lambda>b. rev (filter (\<lambda>i. node_hash (nodes two_locks ! i) = b) [0..<2])) [0..<1024] ! b"
      using b by (auto simp add: u h ch nth_list_update)
  qed
  moreover have "out_ok two_locks"
    by (auto simp: out_ok_def two_locks_def dep_edge_def lock_x_def less_Suc_eq)
  ultimately show ?thesis
    by (simp add: graph_ok_def arrays_ok_def two_locks_def LOCK_CHK_MODE_STATE_COUNT_def LOCK_CHK_MAX_NODES_def
        LOCK_CHK_MAX_EDGES_def edge_ok_def dep_edge_def lock_x_def)
qed

lemma two_locks_free: "deadlock_free two_locks"
proof -
  have "follows (set (edges two_locks)) = {}"
    by (auto simp: follows_def two_locks_def leads_def target_state_def dep_edge_def lock_x_def)
  then show ?thesis by (simp add: deadlock_free_def acyclic_def)
qed

lemma two_locks_dep [simp]: "n < 2 \<Longrightarrow> dep_ok two_locks (lock_x n)"
  by (simp add: dep_ok_def two_locks_def lock_x_def)

lemma two_locks_reach: "dep_state (lock_x 1) \<in> reach (set (edges two_locks)) (dep_state (lock_x 0))"
proof -
  have "leads (dep_state (lock_x 0)) (dep_edge (lock_x 0) (lock_x 1) a_site)"
    by (simp add: blocks_dep_def dep_state_def lock_x_def lock_chk_modes_conflict_def)
  then have "(dep_state (lock_x 0), dep_state (lock_x 1)) \<in> steps (set (edges two_locks))"
    unfolding steps_def by (force simp: two_locks_def)
  then show ?thesis by (auto simp: reach_def)
qed

lemma lock_x_blocks [simp]: "blocks_dep (lock_x n) (dep_state (lock_x n))"
  by (simp add: blocks_dep_def dep_state_def lock_x_def lock_chk_modes_conflict_def)

theorem graph_path_decides_witness:
  "graph_ok two_locks \<and> dep_ok two_locks (lock_x 0) \<and> (\<exists>g'. graph_path two_locks (lock_x 0) (lock_x 1) = Some (True, g'))"
proof -
  have "\<exists>t \<in> reach (set (edges two_locks)) (dep_state (lock_x 0)). blocks_dep (lock_x 1) t"
    by (rule bexI [OF _ two_locks_reach]) (rule lock_x_blocks)
  then show ?thesis using graph_path_decides [OF two_locks_ok, of "lock_x 0" "lock_x 1"] two_locks_ok by (simp, elim exE conjE) simp
qed

lemma two_locks_close: "\<not> acyclic (follows (insert (dep_edge (lock_x 1) (lock_x 0) a_site) (set (edges two_locks))))"
  using two_locks_reach by (intro cycle_closes [of "dep_state (lock_x 1)"]) simp_all

theorem add_dep_keeps_deadlock_free_witness:
  "graph_ok two_locks \<and> deadlock_free two_locks \<and> dep_ok two_locks (lock_x 1) \<and> dep_ok two_locks (lock_x 0) \<and>
   (\<exists>f b g'. lock_chk_graph_add_dep two_locks False True a_site (lock_x 1) (lock_x 0) = Some (RESULT_CYCLE, f, b, g') \<and>
      deadlock_free g' \<and> edges g' = edges two_locks)"
proof -
  have d: "dep_ok two_locks (lock_x 1)" "dep_ok two_locks (lock_x 0)" by (simp_all add: dep_ok_def two_locks_def lock_x_def)
  from add_dep_keeps_deadlock_free [OF two_locks_ok two_locks_free d, of False True a_site] show ?thesis
  proof (elim exE conjE, goal_cases)
    case (1 res f b g')
    have r: "res = RESULT_CYCLE" using 1(5) two_locks_close by blast
    then have "edges g' = edges two_locks" using 1(6) by simp
    then show ?case using 1(1,3) r d two_locks_ok two_locks_free by blast
  qed
qed

definition a_request :: lock_chk_acq_req where
  "a_request = \<lparr>rq_lock = \<lparr>instance_ptr = 0x5000, lk_type = TYPE_MUTEX, lk_flags = LOCK_CHKD_ORDER\<rparr>, rq_site = a_site,
     rq_mode = MODE_EXCLUSIVE, rq_prev_irql = 0, rq_subclass = 0, rq_op_flags = LOCK_OP_KIND_BLOCKING,
     rq_irqs_enabled = True, rq_in_irq = False, rq_in_nmi = False\<rparr>"

definition a_held :: lock_chk_held where
  "a_held = \<lparr>h_node = Some 0, h_lock = \<lparr>instance_ptr = 0x4000, lk_type = TYPE_MUTEX, lk_flags = LOCK_CHKD_ORDER\<rparr>,
     h_site = a_site, h_mode = MODE_EXCLUSIVE, h_subclass = 0, h_prev_irql = 0, h_trylock = False, h_raw = False\<rparr>"

definition a_map :: lock_chk_map where
  "a_map = \<lparr>map_class = None, instance_class = class_at 0x30, base_node = None\<rparr>"

lemma a_held_ok: "held_ok two_locks [a_held]"
  by (simp add: held_ok_def a_held_def dep_of_def dep_ok_def two_locks_def)

theorem prepare_acq_keeps_deadlock_free_witness:
  "graph_ok two_locks \<and> deadlock_free two_locks \<and> held_ok two_locks [a_held] \<and> ordered a_held \<and>
   (\<exists>res f b g' out m'. lock_chk_graph_prepare_acq False two_locks False True a_map 0 a_request [a_held] =
      Some ((res, f, b, g'), out, m') \<and> deadlock_free g' \<and>
      (res = RESULT_OK \<longrightarrow> (\<exists>i. out = Some i \<and> has_edge g' (lock_x 0) (lock_x i))) \<and>
      (res \<noteq> RESULT_OK \<longrightarrow> same_graph two_locks g'))"
proof -
  have c: "ctx_known False a_request" "rq_mode a_request \<noteq> MODE_IGNORED"
    "rq_op_flags a_request AND LOCK_OP_KIND_MASK = LOCK_OP_KIND_BLOCKING" "ordered a_held" "dep_of a_held = lock_x 0"
    "rq_mode a_request = MODE_EXCLUSIVE"
    by (simp_all add: ctx_known_def a_request_def lock_chk_type_is_spin_def LOCK_OP_KIND_MASK_def LOCK_OP_KIND_BLOCKING_def
        a_held_def LOCK_CHKD_ORDER_def dep_of_def lock_x_def)
  note w = prepare_acq_keeps_deadlock_free [OF two_locks_ok two_locks_free a_held_ok c(1,2), of False True a_map 0]
  show ?thesis using w two_locks_ok two_locks_free a_held_ok c(3-6) unfolding lock_x_def by fastforce
qed

end
