(* ===== verification/LockChk.thy ===== *)
theory LockChk
  imports LockPath
begin

text \<open>
  The lock validator's engine, \<^verbatim>\<open>kernel/sync/lock_chk/engine.c\<close>, with the report claim of
  \<^verbatim>\<open>internal.h\<close>, the decision of \<^verbatim>\<open>report.c\<close> to crash or to degrade, the shallow spin stack of
  \<^verbatim>\<open>debug.c\<close> and the switches of \<^verbatim>\<open>lock_chk.c\<close>. An operation either returns or stops the machine: by a
  crash that reports a fault, or because an \<open>enforce\<close> of the engine itself fails. Message texts,
  time stamps and the interrupt flag saved by \<open>lock_chk_enter\<close> are left out.
\<close>

section \<open>State\<close>

definition LOCK_CHK_MAX_HELD_LOCKS :: nat where "LOCK_CHK_MAX_HELD_LOCKS = 32"
definition LOCK_CHK_MAX_SPIN_DEPTH :: nat where "LOCK_CHK_MAX_SPIN_DEPTH = 32"
definition LOCK_OP_KIND_TRY :: u8 where "LOCK_OP_KIND_TRY = 16"
definition LOCK_OP_IRQ_NONE :: u8 where "LOCK_OP_IRQ_NONE = 0"
definition LOCK_CHKD_FULL :: u8 where "LOCK_CHKD_FULL = LOCK_CHKD_ORDER OR LOCK_CHKD_THREAD"

datatype lock_chk_engine_state = INACTIVE | ACTIVE | DEGRADED

datatype lock_chk_stop = CRASH lock_chk_fault | ENFORCE

type_synonym 'a chk = "lock_chk_stop + 'a"

definition and_then :: "'a chk \<Rightarrow> ('a \<Rightarrow> 'b chk) \<Rightarrow> 'b chk" where
  "and_then r k = (case r of Inl e \<Rightarrow> Inl e | Inr x \<Rightarrow> k x)"

lemma and_then_simps [simp]: "and_then (Inl e) k = Inl e" "and_then (Inr x) k = k x"
  by (simp_all add: and_then_def)

lemma and_then_Inr: "and_then r k = Inr y \<longleftrightarrow> (\<exists>x. r = Inr x \<and> k x = Inr y)"
  by (auto simp: and_then_def split: sum.splits)

definition enforce :: "bool \<Rightarrow> unit chk" where
  "enforce b = (if b then Inr () else Inl ENFORCE)"

text \<open>The globals, with the recursion counter of the executing CPU.\<close>

record lock_chk_globals =
  gl_graph :: lock_chk_graph
  gl_state :: lock_chk_engine_state
  gl_deep :: lock_chk_engine_state
  gl_debug :: lock_chk_engine_state
  panic_on_exhaustion :: bool
  report_busy :: bool
  recursion_depth :: u8

text \<open>The held array up to \<open>depth\<close> is a list.\<close>

record lock_chk_thread_data =
  held :: "lock_chk_held list"
  thread_checked_depth :: u8
  thread_checked_spin_depth :: u8

record lock_chk_lock =
  l_used :: bool
  l_map :: lock_chk_map
  l_instance :: u64
  l_type :: lock_chk_type
  l_flags :: u8
  l_initialized :: bool

record lock_chk_acq_token =
  t_node :: "nat option"
  t_request :: "lock_chk_acq_req option"
  t_active :: bool

record lock_chk_rel_req =
  r_lock :: lock_chk_id
  r_mode :: lock_chk_mode

record lock_chk_rel_token =
  rt_instance :: u64
  rt_index :: u8
  rt_active :: bool

definition no_acq_token :: lock_chk_acq_token where
  "no_acq_token = \<lparr>t_node = None, t_request = None, t_active = False\<rparr>"

definition no_rel_token :: lock_chk_rel_token where
  "no_rel_token = \<lparr>rt_instance = 0, rt_index = 0, rt_active = False\<rparr>"

definition lock_chk_id_of :: "lock_chk_lock \<Rightarrow> lock_chk_id" where
  "lock_chk_id_of lock = \<lparr>instance_ptr = l_instance lock, lk_type = l_type lock, lk_flags = l_flags lock\<rparr>"

text \<open>The interrupt state at the time of the request enters as arguments.\<close>

definition lock_chk_acq_req_make :: "int \<Rightarrow> bool \<Rightarrow> bool \<Rightarrow> bool \<Rightarrow> lock_chk_lock \<Rightarrow> lock_chk_site \<Rightarrow> lock_chk_mode \<Rightarrow>
    nat \<Rightarrow> u8 \<Rightarrow> lock_chk_acq_req" where
  "lock_chk_acq_req_make irql irqs_enabled in_irq in_nmi lock site mode subclass flags =
     \<lparr>rq_lock = lock_chk_id_of lock, rq_site = site, rq_mode = mode, rq_prev_irql = irql, rq_subclass = subclass,
      rq_op_flags = flags, rq_irqs_enabled = irqs_enabled, rq_in_irq = in_irq, rq_in_nmi = in_nmi\<rparr>"

definition lock_chk_rel_req_make :: "lock_chk_lock \<Rightarrow> lock_chk_mode \<Rightarrow> lock_chk_rel_req" where
  "lock_chk_rel_req_make lock mode = \<lparr>r_lock = lock_chk_id_of lock, r_mode = mode\<rparr>"

definition lock_chk_state_active :: "lock_chk_engine_state \<Rightarrow> bool" where
  "lock_chk_state_active s \<longleftrightarrow> s = ACTIVE"

section \<open>Entry, reports and degradation\<close>

definition lock_chk_enter :: "lock_chk_globals \<Rightarrow> lock_chk_globals chk" where
  "lock_chk_enter gl = (if recursion_depth gl \<noteq> 0 then Inl ENFORCE else Inr (gl\<lparr>recursion_depth := 1\<rparr>))"

definition lock_chk_leave :: "lock_chk_globals \<Rightarrow> lock_chk_globals chk" where
  "lock_chk_leave gl = and_then (enforce (recursion_depth gl = 1)) (\<lambda>_. Inr (gl\<lparr>recursion_depth := 0\<rparr>))"

text \<open>A crash does not return; an exhausted pool may be reported and the report buffer released.\<close>

definition lock_chk_report_fail :: "lock_chk_fault \<Rightarrow> lock_chk_globals \<Rightarrow> lock_chk_globals chk" where
  "lock_chk_report_fail fault gl =
     (if f_kind fault = FAIL_CAPACITY \<and> \<not> panic_on_exhaustion gl then Inr (gl\<lparr>report_busy := False\<rparr>)
      else Inl (CRASH fault))"

definition lock_chk_report_claim :: "lock_chk_globals \<Rightarrow> (lock_chk_cycle_hop list \<times> bool \<times> u64) option \<times> lock_chk_globals" where
  "lock_chk_report_claim gl = (if report_busy gl then None else Some ([], False, 0), gl\<lparr>report_busy := True\<rparr>)"

definition lock_chk_fail :: "lock_chk_fault \<Rightarrow> lock_chk_globals \<Rightarrow> lock_chk_globals chk" where
  "lock_chk_fail fault gl =
     (let (report, gl) = lock_chk_report_claim gl in lock_chk_report_fail (fault\<lparr>f_report := report\<rparr>) gl)"

definition lock_chk_fault_from_id :: "lock_chk_failure_kind \<Rightarrow> lock_chk_map \<Rightarrow> lock_chk_mode \<Rightarrow> nat \<Rightarrow> lock_chk_fault" where
  "lock_chk_fault_from_id kind m mode subclass =
     \<lparr>f_kind = kind, f_class = map_class m, f_mode = mode, f_subclass = subclass, f_report = None\<rparr>"

definition lock_chk_fault_from_req :: "lock_chk_failure_kind \<Rightarrow> lock_chk_map \<Rightarrow> lock_chk_acq_req \<Rightarrow> lock_chk_fault" where
  "lock_chk_fault_from_req kind m rq = lock_chk_fault_from_id kind m (rq_mode rq) (rq_subclass rq)"

definition lock_chk_fault_from_rel :: "lock_chk_failure_kind \<Rightarrow> lock_chk_map \<Rightarrow> lock_chk_rel_req \<Rightarrow> lock_chk_fault" where
  "lock_chk_fault_from_rel kind m rq = lock_chk_fault_from_id kind m (r_mode rq) 0"

definition lock_chk_fault_from_lock :: "lock_chk_failure_kind \<Rightarrow> lock_chk_lock \<Rightarrow> lock_chk_mode \<Rightarrow> lock_chk_fault" where
  "lock_chk_fault_from_lock kind lock mode = lock_chk_fault_from_id kind (l_map lock) mode 0"

definition lock_chk_degrade :: "lock_chk_globals \<Rightarrow> lock_chk_globals" where
  "lock_chk_degrade gl = gl\<lparr>gl_deep := DEGRADED\<rparr>"

definition lock_chk_note_capacity_exhausted :: "lock_chk_result \<Rightarrow> lock_chk_globals \<Rightarrow> lock_chk_globals" where
  "lock_chk_note_capacity_exhausted result gl =
     (if (result = RESULT_NODE_CAPACITY \<or> result = RESULT_EDGE_CAPACITY) \<and> \<not> panic_on_exhaustion gl
      then lock_chk_degrade gl else gl)"

definition lock_chk_do_graph_fail :: "lock_chk_result \<Rightarrow> lock_chk_map \<Rightarrow> lock_chk_acq_req \<Rightarrow> lock_chk_globals \<Rightarrow>
    lock_chk_globals chk" where
  "lock_chk_do_graph_fail result m rq gl =
     and_then (enforce (result \<noteq> RESULT_CYCLE \<and> result \<noteq> RESULT_EDGE_CAPACITY)) (\<lambda>_.
       if result = RESULT_BAD_CONTEXT then lock_chk_fail (lock_chk_fault_from_req FAIL_CONTEXT m rq) gl
       else if result = RESULT_NODE_CAPACITY then
         and_then (lock_chk_fail (lock_chk_fault_from_req FAIL_CAPACITY m rq) gl)
           (\<lambda>gl. Inr (lock_chk_note_capacity_exhausted result gl))
       else lock_chk_fail (lock_chk_fault_from_req FAIL_UNINITIALIZED m rq) gl)"

definition lock_chk_do_validation_fail :: "lock_chk_result \<Rightarrow> lock_chk_map \<Rightarrow> lock_chk_acq_req \<Rightarrow> lock_chk_globals \<Rightarrow>
    lock_chk_globals chk" where
  "lock_chk_do_validation_fail result m rq gl =
     (let fail = lock_chk_fault_from_req FAIL_UNINITIALIZED m rq
      in if result = RESULT_BAD_CONTEXT then lock_chk_fail (fail\<lparr>f_kind := FAIL_CONTEXT\<rparr>) gl
         else if result = RESULT_RECURSION then lock_chk_fail (fail\<lparr>f_kind := FAIL_RECURSION\<rparr>) gl
         else if result = RESULT_HELD_CAPACITY then
           and_then (lock_chk_fail (fail\<lparr>f_kind := FAIL_CAPACITY\<rparr>) gl)
             (\<lambda>gl. Inr (if \<not> panic_on_exhaustion gl then lock_chk_degrade gl else gl))
         else lock_chk_fail (fail\<lparr>f_kind := FAIL_UNINITIALIZED\<rparr>) gl)"

section \<open>Held locks\<close>

text \<open>The index of the first held lock that matches.\<close>

fun find_held_from :: "(lock_chk_held \<Rightarrow> bool) \<Rightarrow> lock_chk_held list \<Rightarrow> nat \<Rightarrow> nat option" where
  "find_held_from p [] i = None"
| "find_held_from p (h # hs) i = (if p h then Some i else find_held_from p hs (Suc i))"

definition lock_chk_find_held :: "lock_chk_thread_data \<Rightarrow> u64 \<Rightarrow> lock_chk_type \<Rightarrow> bool \<Rightarrow> lock_chk_mode \<Rightarrow> bool \<Rightarrow> nat option" where
  "lock_chk_find_held td inst type match_type mode match_mode =
     find_held_from (\<lambda>h. instance_ptr (h_lock h) = inst \<and> (match_type \<longrightarrow> lk_type (h_lock h) = type) \<and>
       (match_mode \<longrightarrow> h_mode h = mode)) (held td) 0"

definition lock_op_irq_safe :: "u8 \<Rightarrow> bool" where
  "lock_op_irq_safe flags \<longleftrightarrow> flags AND LOCK_OP_IRQ_MASK = LOCK_OP_IRQ_HIGH"

definition validate_acq :: "bool \<Rightarrow> lock_chk_acq_req \<Rightarrow> lock_chk_thread_data \<Rightarrow> lock_chk_result" where
  "validate_acq in_interrupt rq td =
     (let irq = rq_in_irq rq \<or> in_interrupt
      in if rq_in_nmi rq then RESULT_BAD_CONTEXT
         else if lock_chk_type_is_blocking (lk_type (rq_lock rq)) \<and> (irq \<or> rq_prev_irql rq > IRQL_APC_LEVEL)
         then RESULT_BAD_CONTEXT
         else if \<not> lock_chk_type_is_blocking (lk_type (rq_lock rq)) \<and> \<not> lock_op_irq_safe (rq_op_flags rq) \<and>
            rq_op_flags rq AND LOCK_OP_RAW = 0 \<and> irq
         then RESULT_BAD_CONTEXT
         else if LOCK_CHK_MAX_SUBCLASSES \<le> rq_subclass rq then RESULT_INTERNAL
         else if length (held td) = LOCK_CHK_MAX_HELD_LOCKS then RESULT_HELD_CAPACITY
         else if lock_chk_find_held td (instance_ptr (rq_lock rq)) TYPE_SPIN False MODE_IGNORED False \<noteq> None
         then RESULT_RECURSION
         else RESULT_OK)"

definition lock_chk_deep_activate :: "bool \<Rightarrow> lock_chk_globals \<Rightarrow> lock_chk_globals chk" where
  "lock_chk_deep_activate percpu_ready gl =
     and_then (enforce percpu_ready) (\<lambda>_. Inr (gl\<lparr>gl_graph := lock_chk_graph_init (gl_graph gl), gl_deep := ACTIVE\<rparr>))"

section \<open>Acquiring\<close>

text \<open>
  The graph's answer to a request: the result, its fault, the node, the globals and the lock's
  map. A lock that takes no part in the ordering has no node.
\<close>

definition prepare_order :: "bool \<Rightarrow> lock_chk_globals \<Rightarrow> lock_chk_map \<Rightarrow> lock_chk_acq_req \<Rightarrow> lock_chk_thread_data \<Rightarrow>
    (lock_chk_result \<times> lock_chk_fault option \<times> nat option \<times> lock_chk_globals \<times> lock_chk_map) chk" where
  "prepare_order in_interrupt gl m rq td =
     (if lk_flags (rq_lock rq) AND LOCK_CHKD_ORDER \<noteq> 0 then
        (case lock_chk_graph_prepare_acq in_interrupt (gl_graph gl) (report_busy gl) True m (rq_subclass rq) rq (held td) of
           None \<Rightarrow> Inl ENFORCE
         | Some ((res, f, busy, g), node, m') \<Rightarrow> Inr (res, f, node, gl\<lparr>gl_graph := g, report_busy := busy\<rparr>, m'))
      else Inr (RESULT_OK, None, None, gl, m))"

definition acq_fail :: "lock_chk_result \<Rightarrow> lock_chk_fault option \<Rightarrow> lock_chk_map \<Rightarrow> lock_chk_acq_req \<Rightarrow> lock_chk_globals \<Rightarrow>
    lock_chk_globals chk" where
  "acq_fail res f m rq gl =
     (if res = RESULT_CYCLE \<or> res = RESULT_EDGE_CAPACITY then
        (case f of
           None \<Rightarrow> Inl ENFORCE
         | Some fault \<Rightarrow> and_then (lock_chk_report_fail fault gl) (\<lambda>gl. Inr (lock_chk_note_capacity_exhausted res gl)))
      else lock_chk_do_graph_fail res m rq gl)"

definition lock_chk_before_acq :: "bool \<Rightarrow> lock_chk_globals \<Rightarrow> lock_chk_map \<Rightarrow> lock_chk_acq_req \<Rightarrow> lock_chk_thread_data \<Rightarrow>
    (lock_chk_acq_token \<times> lock_chk_globals \<times> lock_chk_map) chk" where
  "lock_chk_before_acq in_interrupt gl m rq td =
     (if \<not> lock_chk_state_active (gl_deep gl) \<or> lk_flags (rq_lock rq) = LOCK_UNCHKD then Inr (no_acq_token, gl, m)
      else and_then (lock_chk_enter gl) (\<lambda>gl.
        let result = validate_acq in_interrupt rq td
        in if result \<noteq> RESULT_OK then
             and_then (lock_chk_do_validation_fail result m rq gl) (\<lambda>gl.
             and_then (lock_chk_leave gl) (\<lambda>gl. Inr (no_acq_token, gl, m)))
           else
             and_then (prepare_order in_interrupt gl m rq td) (\<lambda>(res, f, node, gl, m).
               if res \<noteq> RESULT_OK then
                 and_then (acq_fail res f m rq gl) (\<lambda>gl.
                 and_then (lock_chk_leave gl) (\<lambda>gl. Inr (no_acq_token, gl, m)))
               else
                 and_then (lock_chk_leave gl) (\<lambda>gl.
                   Inr (\<lparr>t_node = node, t_request = Some rq, t_active = True\<rparr>, gl, m)))))"

definition counts_thread :: "lock_chk_held \<Rightarrow> bool" where
  "counts_thread h \<longleftrightarrow> lk_flags (h_lock h) AND LOCK_CHKD_THREAD \<noteq> 0"

definition counts_spin :: "lock_chk_held \<Rightarrow> bool" where
  "counts_spin h \<longleftrightarrow> counts_thread h \<and> \<not> h_raw h \<and> lock_chk_type_is_spin (lk_type (h_lock h))"

definition held_of :: "nat option \<Rightarrow> lock_chk_acq_req \<Rightarrow> lock_chk_held" where
  "held_of node rq = \<lparr>h_node = node, h_lock = rq_lock rq, h_site = rq_site rq, h_mode = rq_mode rq,
     h_subclass = rq_subclass rq, h_prev_irql = rq_prev_irql rq,
     h_trylock = (rq_op_flags rq AND LOCK_OP_KIND_MASK = LOCK_OP_KIND_TRY), h_raw = (rq_op_flags rq AND LOCK_OP_RAW \<noteq> 0)\<rparr>"

definition push_held :: "lock_chk_held \<Rightarrow> lock_chk_thread_data \<Rightarrow> lock_chk_thread_data" where
  "push_held h td = \<lparr>held = held td @ [h],
     thread_checked_depth = thread_checked_depth td + (if counts_thread h then 1 else 0),
     thread_checked_spin_depth = thread_checked_spin_depth td + (if counts_spin h then 1 else 0)\<rparr>"

definition lock_chk_acqd :: "lock_chk_acq_token \<Rightarrow> lock_chk_globals \<Rightarrow> lock_chk_thread_data \<Rightarrow>
    (lock_chk_acq_token \<times> lock_chk_globals \<times> lock_chk_thread_data) chk" where
  "lock_chk_acqd token gl td =
     (if \<not> t_active token then Inr (token, gl, td)
      else and_then (lock_chk_enter gl) (\<lambda>gl.
        case t_request token of
          None \<Rightarrow> Inl ENFORCE
        | Some rq \<Rightarrow>
            and_then (enforce (length (held td) < LOCK_CHK_MAX_HELD_LOCKS)) (\<lambda>_.
            and_then (lock_chk_leave gl) (\<lambda>gl.
              Inr (token\<lparr>t_active := False\<rparr>, gl, push_held (held_of (t_node token) rq) td)))))"

definition lock_chk_cancel :: "lock_chk_acq_token \<Rightarrow> lock_chk_acq_token" where
  "lock_chk_cancel token = token\<lparr>t_active := False\<rparr>"

section \<open>Releasing\<close>

definition lock_chk_before_rel :: "lock_chk_globals \<Rightarrow> lock_chk_map \<Rightarrow> lock_chk_rel_req \<Rightarrow> lock_chk_thread_data \<Rightarrow>
    (lock_chk_rel_token \<times> lock_chk_globals) chk" where
  "lock_chk_before_rel gl m rq td =
     (if \<not> lock_chk_state_active (gl_deep gl) \<or> lk_flags (r_lock rq) = LOCK_UNCHKD then Inr (no_rel_token, gl)
      else and_then (lock_chk_enter gl) (\<lambda>gl.
        case lock_chk_find_held td (instance_ptr (r_lock rq)) (lk_type (r_lock rq)) True (r_mode rq) True of
          Some i \<Rightarrow>
            and_then (lock_chk_leave gl) (\<lambda>gl.
              Inr (\<lparr>rt_instance = instance_ptr (r_lock rq), rt_index = of_nat i, rt_active = True\<rparr>, gl))
        | None \<Rightarrow>
            and_then (lock_chk_fail (lock_chk_fault_from_rel FAIL_RELEASE m rq) gl) (\<lambda>gl.
            and_then (lock_chk_leave gl) (\<lambda>gl. Inr (no_rel_token, gl)))))"

text \<open>The loop that closes the gap in the held array, one copy at a time.\<close>

definition shift_down :: "nat \<Rightarrow> 'a list \<Rightarrow> 'a list" where
  "shift_down i xs = butlast (foldl (\<lambda>xs k. xs[k := xs ! (k + 1)]) xs [i..<length xs - 1])"

definition drop_held :: "nat \<Rightarrow> lock_chk_held \<Rightarrow> lock_chk_thread_data \<Rightarrow> lock_chk_thread_data chk" where
  "drop_held i h td =
     and_then (enforce (counts_thread h \<longrightarrow> thread_checked_depth td \<noteq> 0)) (\<lambda>_.
     and_then (enforce (counts_spin h \<longrightarrow> thread_checked_spin_depth td \<noteq> 0)) (\<lambda>_.
       Inr \<lparr>held = shift_down i (held td),
            thread_checked_depth = thread_checked_depth td - (if counts_thread h then 1 else 0),
            thread_checked_spin_depth = thread_checked_spin_depth td - (if counts_spin h then 1 else 0)\<rparr>))"

definition lock_chk_reld :: "lock_chk_rel_token \<Rightarrow> lock_chk_globals \<Rightarrow> lock_chk_thread_data \<Rightarrow>
    (lock_chk_rel_token \<times> lock_chk_globals \<times> lock_chk_thread_data) chk" where
  "lock_chk_reld token gl td =
     (if \<not> rt_active token then Inr (token, gl, td)
      else and_then (lock_chk_enter gl) (\<lambda>gl.
        let i = unat (rt_index token)
        in and_then (enforce (i < length (held td))) (\<lambda>_.
           and_then (enforce (instance_ptr (h_lock (held td ! i)) = rt_instance token)) (\<lambda>_.
           and_then (drop_held i (held td ! i) td) (\<lambda>td.
           and_then (lock_chk_leave gl) (\<lambda>gl. Inr (token\<lparr>rt_active := False\<rparr>, gl, td)))))))"

section \<open>Assertions and threads\<close>

text \<open>\<open>cur\<close> is the current thread's data, when there is a current thread.\<close>

definition lock_chk_assert_held_deep :: "lock_chk_globals \<Rightarrow> lock_chk_thread_data option \<Rightarrow> lock_chk_lock \<Rightarrow> lock_chk_mode \<Rightarrow>
    bool \<Rightarrow> (bool \<times> lock_chk_globals) chk" where
  "lock_chk_assert_held_deep gl cur lock mode want_held =
     (if \<not> lock_chk_state_active (gl_deep gl) then Inr (False, gl)
      else and_then (lock_chk_enter gl) (\<lambda>gl.
        case cur of
          None \<Rightarrow> and_then (lock_chk_leave gl) (\<lambda>gl. Inr (False, gl))
        | Some td \<Rightarrow>
            let found = lock_chk_find_held td (l_instance lock) (l_type lock) True mode (mode \<noteq> MODE_IGNORED);
                found_mode = (case found of Some i \<Rightarrow> h_mode (held td ! i) | None \<Rightarrow> mode)
            in and_then (if (found \<noteq> None) \<noteq> want_held
                         then lock_chk_fail (lock_chk_fault_from_lock
                                (if want_held then FAIL_NOT_HELD else FAIL_UNEXPECTED_HELD) lock found_mode) gl
                         else Inr gl) (\<lambda>gl.
               and_then (lock_chk_leave gl) (\<lambda>gl. Inr (True, gl)))))"

definition plain_fault :: "lock_chk_failure_kind \<Rightarrow> lock_chk_fault" where
  "plain_fault kind = \<lparr>f_kind = kind, f_class = None, f_mode = MODE_IGNORED, f_subclass = 0, f_report = None\<rparr>"

definition lock_chk_assert_schedulable :: "lock_chk_globals \<Rightarrow> lock_chk_thread_data option \<Rightarrow> lock_chk_globals chk" where
  "lock_chk_assert_schedulable gl cur =
     (if \<not> lock_chk_state_active (gl_deep gl) then Inr gl
      else and_then (lock_chk_enter gl) (\<lambda>gl.
           and_then (case cur of
                       Some td \<Rightarrow> if thread_checked_spin_depth td \<noteq> 0 then lock_chk_fail (plain_fault FAIL_CONTEXT) gl else Inr gl
                     | None \<Rightarrow> Inr gl) lock_chk_leave))"

definition lock_chk_thread_init :: "lock_chk_thread_data \<Rightarrow> lock_chk_thread_data" where
  "lock_chk_thread_init td = \<lparr>held = [], thread_checked_depth = 0, thread_checked_spin_depth = 0\<rparr>"

definition lock_chk_thread_exit :: "lock_chk_globals \<Rightarrow> lock_chk_thread_data \<Rightarrow> lock_chk_globals chk" where
  "lock_chk_thread_exit gl td =
     (if \<not> lock_chk_state_active (gl_deep gl) then Inr gl
      else and_then (lock_chk_enter gl) (\<lambda>gl.
           and_then (if thread_checked_depth td \<noteq> 0 then lock_chk_fail (plain_fault FAIL_THREAD_EXIT) gl else Inr gl)
             lock_chk_leave))"

section \<open>The spin stack of a CPU\<close>

record lock_debug_spin_entry =
  s_instance :: u64
  s_site :: lock_chk_site
  s_prev_irql :: int
  s_type :: lock_chk_type

text \<open>The stack up to \<open>depth\<close>, the newest entry last. \<open>irqs_on\<close> is the answer of \<open>irqs_enabled()\<close>.\<close>

type_synonym lock_debug_cpu = "lock_debug_spin_entry list"

definition lock_debug_activate :: "bool \<Rightarrow> lock_chk_globals \<Rightarrow> lock_chk_globals chk" where
  "lock_debug_activate percpu_ready gl = and_then (enforce percpu_ready) (\<lambda>_. Inr (gl\<lparr>gl_debug := ACTIVE\<rparr>))"

definition lock_debug_spin_classify :: "lock_chk_globals \<Rightarrow> u8 \<Rightarrow> u8 \<Rightarrow> lock_chk_lock \<Rightarrow> (u8 \<times> lock_chk_globals) chk" where
  "lock_debug_spin_classify gl usage requested lock =
     (if \<not> lock_chk_state_active (gl_debug gl) then Inr (usage, gl)
      else if usage = LOCK_OP_IRQ_NONE then Inr (requested, gl)
      else if usage AND LOCK_OP_IRQ_MASK \<noteq> requested AND LOCK_OP_IRQ_MASK then
        and_then (lock_chk_fail (lock_chk_fault_from_lock FAIL_CONTEXT lock MODE_IGNORED) gl) (\<lambda>gl. Inr (usage, gl))
      else Inr (usage, gl))"

definition lock_debug_spin_push :: "lock_chk_globals \<Rightarrow> bool \<Rightarrow> lock_debug_cpu \<Rightarrow> lock_chk_lock \<Rightarrow> int \<Rightarrow> lock_chk_site \<Rightarrow>
    (bool \<times> lock_chk_globals \<times> lock_debug_cpu) chk" where
  "lock_debug_spin_push gl irqs_on cpu lock prev_irql site =
     (if \<not> lock_chk_state_active (gl_debug gl) then Inr (False, gl, cpu)
      else and_then (enforce (\<not> irqs_on)) (\<lambda>_.
        if length cpu = LOCK_CHK_MAX_SPIN_DEPTH then
          and_then (lock_chk_fail (lock_chk_fault_from_lock FAIL_CAPACITY lock MODE_IGNORED) gl)
            (\<lambda>gl. Inr (False, gl\<lparr>gl_debug := DEGRADED\<rparr>, cpu))
        else Inr (True, gl, cpu @ [\<lparr>s_instance = l_instance lock, s_site = site, s_prev_irql = prev_irql, s_type = l_type lock\<rparr>])))"

definition lock_debug_spin_validate_top :: "lock_chk_globals \<Rightarrow> bool \<Rightarrow> lock_debug_cpu \<Rightarrow> lock_chk_lock \<Rightarrow> int \<Rightarrow>
    lock_chk_globals chk" where
  "lock_debug_spin_validate_top gl irqs_on cpu lock prev_irql =
     (if \<not> lock_chk_state_active (gl_debug gl) then Inr gl
      else and_then (enforce (\<not> irqs_on)) (\<lambda>_.
        if cpu = [] then lock_chk_fail (lock_chk_fault_from_lock FAIL_SPIN_ORDER lock MODE_IGNORED) gl
        else let top = last cpu
             in if s_instance top \<noteq> l_instance lock \<or> s_type top \<noteq> l_type lock \<or> s_prev_irql top \<noteq> prev_irql
                then lock_chk_fail (lock_chk_fault_from_lock FAIL_SPIN_ORDER lock MODE_IGNORED) gl
                else Inr gl))"

definition lock_debug_spin_pop :: "lock_chk_globals \<Rightarrow> bool \<Rightarrow> lock_debug_cpu \<Rightarrow> lock_chk_lock \<Rightarrow> lock_debug_cpu chk" where
  "lock_debug_spin_pop gl irqs_on cpu lock =
     (if \<not> lock_chk_state_active (gl_debug gl) then Inr cpu
      else and_then (enforce (\<not> irqs_on)) (\<lambda>_.
           and_then (enforce (cpu \<noteq> [])) (\<lambda>_.
           and_then (enforce (s_instance (last cpu) = l_instance lock)) (\<lambda>_.
           and_then (enforce (s_type (last cpu) = l_type lock)) (\<lambda>_. Inr (butlast cpu))))))"

section \<open>Switching on\<close>

definition lock_chk_init :: "bool \<Rightarrow> bool \<Rightarrow> bool \<Rightarrow> lock_chk_globals \<Rightarrow> lock_chk_globals chk" where
  "lock_chk_init late deep_ready debug_ready gl =
     and_then (enforce late) (\<lambda>_.
     and_then (lock_chk_deep_activate deep_ready gl) (\<lambda>gl.
     and_then (lock_debug_activate debug_ready gl) (\<lambda>gl. Inr (gl\<lparr>gl_state := ACTIVE\<rparr>))))"

definition lock_chk_tracking_active :: "lock_chk_globals \<Rightarrow> bool" where
  "lock_chk_tracking_active gl = lock_chk_state_active (gl_state gl)"

definition lock_chk_note_use :: "lock_chk_globals \<Rightarrow> lock_chk_lock \<Rightarrow> u8 \<Rightarrow> lock_chk_lock chk" where
  "lock_chk_note_use gl lock flags =
     (if \<not> lock_chk_tracking_active gl then Inr lock
      else let manages_irql = (flags AND LOCK_OP_IRQ_MASK \<noteq> 0); raw = (flags AND LOCK_OP_RAW \<noteq> 0)
      in and_then (enforce (l_initialized lock)) (\<lambda>_.
         and_then (enforce (l_flags lock AND NOT LOCK_CHKD_FULL = 0)) (\<lambda>_.
         and_then (enforce (manages_irql \<and> \<not> raw \<longrightarrow>
             l_flags lock AND LOCK_CHKD_THREAD = 0 \<or> l_flags lock AND LOCK_CHKD_ORDER \<noteq> 0)) (\<lambda>_.
           Inr (lock\<lparr>l_used := True\<rparr>)))))"

end
