(* ===== verification/LockSafe.thy ===== *)
theory LockSafe
  imports LockChk
begin

text \<open>
  The validator over a system of threads: the operations of the engine as steps, in any
  interleaving of the threads, the invariant they keep, and its consequence that threads whose blocking
  acquisitions the validator accepted cannot wait for each other in a circle.

  A lock operation is bracketed by two calls of the engine, and the token between them lives in the frame of the
  function that locks or unlocks. Inside the bracket the thread may run further operations: a mutex takes the lock of
  its turnstile chain while its own acquisition is pending, and interrupt handlers take locks on behalf of
  the thread they interrupt. A thread therefore has a stack of operations under way, innermost first.
\<close>

section \<open>The system\<close>

text \<open>An operation under way: its token, and the locks the thread held when it began.\<close>

datatype op_frame =
    Acquiring (acq_token: lock_chk_acq_token) (held_before: "lock_chk_held list")
  | Releasing (rel_token: lock_chk_rel_token) (held_before: "lock_chk_held list")

record lock_system =
  sys_gl :: lock_chk_globals
  sys_td :: "nat \<Rightarrow> lock_chk_thread_data"
  sys_ops :: "nat \<Rightarrow> op_frame list"

text \<open>What the lock implementations pass: a real mode, and for a spin lock its interrupt level.\<close>

definition request_ok :: "bool \<Rightarrow> lock_chk_acq_req \<Rightarrow> bool" where
  "request_ok irq rq \<longleftrightarrow> rq_mode rq \<noteq> MODE_IGNORED \<and> ctx_known irq rq"

inductive sys_step :: "lock_system \<Rightarrow> lock_system \<Rightarrow> bool" where
  before_acq: "\<lbrakk>request_ok irq rq; lock_chk_before_acq irq (sys_gl s) m rq (sys_td s t) = Inr (tok, gl, m')\<rbrakk> \<Longrightarrow>
    sys_step s (s\<lparr>sys_gl := gl, sys_ops := (sys_ops s)(t := Acquiring tok (held (sys_td s t)) # sys_ops s t)\<rparr>)"
| acqd: "\<lbrakk>sys_ops s t = Acquiring tok hs # fs; lock_chk_acqd tok (sys_gl s) (sys_td s t) = Inr (tok', gl, td)\<rbrakk> \<Longrightarrow>
    sys_step s (s\<lparr>sys_gl := gl, sys_ops := (sys_ops s)(t := fs), sys_td := (sys_td s)(t := td)\<rparr>)"
| cancel: "sys_ops s t = Acquiring tok hs # fs \<Longrightarrow> sys_step s (s\<lparr>sys_ops := (sys_ops s)(t := fs)\<rparr>)"
| before_rel: "lock_chk_before_rel (sys_gl s) m rq (sys_td s t) = Inr (tok, gl) \<Longrightarrow>
    sys_step s (s\<lparr>sys_gl := gl, sys_ops := (sys_ops s)(t := Releasing tok (held (sys_td s t)) # sys_ops s t)\<rparr>)"
| reld: "\<lbrakk>sys_ops s t = Releasing tok hs # fs; lock_chk_reld tok (sys_gl s) (sys_td s t) = Inr (tok', gl, td)\<rbrakk> \<Longrightarrow>
    sys_step s (s\<lparr>sys_gl := gl, sys_ops := (sys_ops s)(t := fs), sys_td := (sys_td s)(t := td)\<rparr>)"
| thread_init: "sys_ops s t = [] \<Longrightarrow> sys_step s (s\<lparr>sys_td := (sys_td s)(t := lock_chk_thread_init (sys_td s t))\<rparr>)"
| thread_exit: "lock_chk_thread_exit (sys_gl s) (sys_td s t) = Inr gl \<Longrightarrow> sys_step s (s\<lparr>sys_gl := gl\<rparr>)"

inductive_cases sys_stepE: "sys_step s s'"

text \<open>The state after \<open>lock_chk_init\<close>: no locks held, no operation under way.\<close>

definition sys_start :: "lock_system \<Rightarrow> bool" where
  "sys_start s \<longleftrightarrow>
     (\<exists>gl. lock_chk_init True True True gl = Inr (sys_gl s) \<and> recursion_depth gl = 0 \<and>
        arrays_ok (gl_graph gl) \<and> length (class_hash (gl_graph gl)) = LOCK_CHK_HASH_BUCKETS) \<and>
     (\<forall>t. sys_td s t = \<lparr>held = [], thread_checked_depth = 0, thread_checked_spin_depth = 0\<rparr> \<and> sys_ops s t = [])"

definition sys_reachable :: "lock_system \<Rightarrow> bool" where
  "sys_reachable s \<longleftrightarrow> (\<exists>s0. sys_start s0 \<and> sys_step\<^sup>*\<^sup>* s0 s)"

section \<open>The invariant\<close>

definition td_ok :: "lock_chk_graph \<Rightarrow> lock_chk_thread_data \<Rightarrow> bool" where
  "td_ok g td \<longleftrightarrow> held_ok g (held td) \<and> length (held td) \<le> LOCK_CHK_MAX_HELD_LOCKS \<and>
     unat (thread_checked_depth td) = length (filter counts_thread (held td)) \<and>
     unat (thread_checked_spin_depth td) = length (filter counts_spin (held td))"

abbreviation ordered_rq :: "lock_chk_acq_req \<Rightarrow> bool" where
  "ordered_rq rq \<equiv> lk_flags (rq_lock rq) AND LOCK_CHKD_ORDER \<noteq> 0"

abbreviation blocking_rq :: "lock_chk_acq_req \<Rightarrow> bool" where
  "blocking_rq rq \<equiv> rq_op_flags rq AND LOCK_OP_KIND_MASK = LOCK_OP_KIND_BLOCKING"

definition all_before :: "lock_chk_graph \<Rightarrow> lock_chk_held list \<Rightarrow> lock_chk_dep \<Rightarrow> bool" where
  "all_before g hs to \<longleftrightarrow> (\<forall>h \<in> set hs. ordered h \<longrightarrow> has_edge g (dep_of h) to)"

definition acq_ok :: "lock_chk_graph \<Rightarrow> lock_chk_held list \<Rightarrow> lock_chk_acq_token \<Rightarrow> bool" where
  "acq_ok g hs tok \<longleftrightarrow> (t_active tok \<longrightarrow> (\<exists>rq. t_request tok = Some rq \<and> rq_mode rq \<noteq> MODE_IGNORED \<and>
     length hs < LOCK_CHK_MAX_HELD_LOCKS \<and>
     (ordered_rq rq \<longrightarrow> (\<exists>i < length (nodes g). t_node tok = Some i \<and>
        (blocking_rq rq \<longrightarrow> all_before g hs \<lparr>d_node = i, d_mode = rq_mode rq\<rparr>)))))"

definition rel_ok :: "lock_chk_held list \<Rightarrow> lock_chk_rel_token \<Rightarrow> bool" where
  "rel_ok hs tok \<longleftrightarrow> (rt_active tok \<longrightarrow> unat (rt_index tok) < length hs \<and>
     instance_ptr (h_lock (hs ! unat (rt_index tok))) = rt_instance tok)"

fun frame_ok :: "lock_chk_graph \<Rightarrow> op_frame \<Rightarrow> bool" where
  "frame_ok g (Acquiring tok hs) = acq_ok g hs tok"
| "frame_ok g (Releasing tok hs) = rel_ok hs tok"

definition gl_ok :: "lock_chk_globals \<Rightarrow> bool" where
  "gl_ok gl \<longleftrightarrow> graph_ok (gl_graph gl) \<and> deadlock_free (gl_graph gl) \<and> recursion_depth gl = 0"

definition sys_ok :: "lock_system \<Rightarrow> bool" where
  "sys_ok s \<longleftrightarrow> gl_ok (sys_gl s) \<and> (\<forall>t. td_ok (gl_graph (sys_gl s)) (sys_td s t) \<and>
     (\<forall>f \<in> set (sys_ops s t). frame_ok (gl_graph (sys_gl s)) f))"

text \<open>The graph only grows.\<close>

definition graph_le :: "lock_chk_graph \<Rightarrow> lock_chk_graph \<Rightarrow> bool" where
  "graph_le g g' \<longleftrightarrow> labels_grow g g' \<and> set (edges g) \<subseteq> set (edges g')"

lemma graph_le_refl [simp]: "graph_le g g"
  by (simp add: graph_le_def labels_grow_def labels_def)

lemma graph_le_keeps:
  assumes "graph_le g g'"
  shows "td_ok g td \<Longrightarrow> td_ok g' td" "acq_ok g hs tok \<Longrightarrow> acq_ok g' hs tok" "frame_ok g f \<Longrightarrow> frame_ok g' f"
proof -
  have n: "length (nodes g) \<le> length (nodes g')" and e: "set (edges g) \<subseteq> set (edges g')"
    using assms by (auto simp: graph_le_def labels_grow_def)
  show "td_ok g td \<Longrightarrow> td_ok g' td" using n by (fastforce simp: td_ok_def held_ok_def dep_ok_def)
  show a: "acq_ok g hs tok \<Longrightarrow> acq_ok g' hs tok" for hs tok
    using n e unfolding acq_ok_def all_before_def has_edge_def by (meson order_less_le_trans subsetD)
  show "frame_ok g f \<Longrightarrow> frame_ok g' f" using a by (cases f) auto
qed

section \<open>Every operation keeps the invariant and passes its own checks\<close>

text \<open>An operation either crashes with a report or returns a value of the given kind.\<close>

definition returns :: "('a \<Rightarrow> bool) \<Rightarrow> 'a chk \<Rightarrow> bool" where
  "returns P r \<longleftrightarrow> (case r of Inl e \<Rightarrow> e \<noteq> ENFORCE | Inr x \<Rightarrow> P x)"

lemma returns_simps [simp]: "returns P (Inr x) = P x" "returns P (Inl e) = (e \<noteq> ENFORCE)"
  by (simp_all add: returns_def)

lemma returns_then: "returns P r \<Longrightarrow> (\<And>x. P x \<Longrightarrow> returns Q (k x)) \<Longrightarrow> returns Q (and_then r k)"
  by (cases r) simp_all

lemma returns_mono: "returns P r \<Longrightarrow> (\<And>x. P x \<Longrightarrow> Q x) \<Longrightarrow> returns Q r"
  by (auto simp: returns_def split: sum.splits)

lemma returns_enforce [simp]: "returns P (and_then (enforce b) k) \<longleftrightarrow> b \<and> returns P (k ())"
  by (simp add: enforce_def)

definition in_engine :: "lock_chk_graph \<Rightarrow> lock_chk_globals \<Rightarrow> bool" where
  "in_engine g gl \<longleftrightarrow> gl_graph gl = g \<and> recursion_depth gl = 1"

lemma enter_ok: "recursion_depth gl = 0 \<Longrightarrow> returns (in_engine (gl_graph gl)) (lock_chk_enter gl)"
  by (simp add: lock_chk_enter_def in_engine_def)

lemma leave_ok: "in_engine g gl \<Longrightarrow> returns (\<lambda>gl'. gl_graph gl' = g \<and> recursion_depth gl' = 0) (lock_chk_leave gl)"
  by (simp add: lock_chk_leave_def in_engine_def)

lemma report_fail_ok: "in_engine g gl \<Longrightarrow> returns (in_engine g) (lock_chk_report_fail f gl)"
  by (simp add: lock_chk_report_fail_def in_engine_def)

lemma fail_ok: "in_engine g gl \<Longrightarrow> returns (in_engine g) (lock_chk_fail f gl)"
  unfolding lock_chk_fail_def lock_chk_report_claim_def Let_def prod.case
  by (rule report_fail_ok) (simp add: in_engine_def)

lemma note_capacity_ok: "in_engine g gl \<Longrightarrow> in_engine g (lock_chk_note_capacity_exhausted res gl)"
  by (simp add: lock_chk_note_capacity_exhausted_def lock_chk_degrade_def in_engine_def)

lemma validation_fail_ok: "in_engine g gl \<Longrightarrow> returns (in_engine g) (lock_chk_do_validation_fail res m rq gl)"
  unfolding lock_chk_do_validation_fail_def Let_def
  by (auto intro!: fail_ok returns_then [of "in_engine g"] simp: lock_chk_degrade_def in_engine_def)

lemma graph_fail_ok:
  assumes "in_engine g gl" "res \<noteq> RESULT_CYCLE" "res \<noteq> RESULT_EDGE_CAPACITY"
  shows "returns (in_engine g) (lock_chk_do_graph_fail res m rq gl)"
proof -
  have "returns (in_engine g) (and_then (lock_chk_fail f gl) (\<lambda>gl. Inr (lock_chk_note_capacity_exhausted x gl)))" for f x
    using fail_ok [OF assms(1)] by (rule returns_then) (simp add: note_capacity_ok)
  then show ?thesis using assms fail_ok [OF assms(1)] by (simp add: lock_chk_do_graph_fail_def)
qed

lemma acq_fail_ok:
  assumes "in_engine g gl" "res = RESULT_CYCLE \<or> res = RESULT_EDGE_CAPACITY \<longrightarrow> f \<noteq> None"
  shows "returns (in_engine g) (acq_fail res f m rq gl)"
proof -
  have "returns (in_engine g) (and_then (lock_chk_report_fail x gl) (\<lambda>gl. Inr (lock_chk_note_capacity_exhausted res gl)))" for x
    using report_fail_ok [OF assms(1)] by (rule returns_then) (simp add: note_capacity_ok)
  then show ?thesis using assms graph_fail_ok [OF assms(1)] by (auto simp: acq_fail_def split: option.splits)
qed

lemma find_held_from_some:
  "find_held_from p hs k = Some i \<Longrightarrow> k \<le> i \<and> i - k < length hs \<and> p (hs ! (i - k))"
proof (induction hs arbitrary: k)
  case (Cons h hs)
  show ?case
  proof (cases "p h")
    case False
    then have ih: "Suc k \<le> i \<and> i - Suc k < length hs \<and> p (hs ! (i - Suc k))" using Cons by simp
    then have "i - k = Suc (i - Suc k)" by linarith
    then show ?thesis using ih by simp
  qed (use Cons in auto)
qed simp

lemma validate_ok:
  assumes "validate_acq irq rq td = RESULT_OK" "length (held td) \<le> LOCK_CHK_MAX_HELD_LOCKS"
  shows "length (held td) < LOCK_CHK_MAX_HELD_LOCKS"
proof -
  have "length (held td) \<noteq> LOCK_CHK_MAX_HELD_LOCKS" using assms(1) by (auto simp: validate_acq_def Let_def split: if_splits)
  then show ?thesis using assms(2) by simp
qed

definition prepared :: "lock_chk_graph \<Rightarrow> lock_chk_thread_data \<Rightarrow> lock_chk_acq_req \<Rightarrow>
    lock_chk_result \<times> lock_chk_fault option \<times> nat option \<times> lock_chk_globals \<times> lock_chk_map \<Rightarrow> bool" where
  "prepared g td rq = (\<lambda>(res, f, node, gl, m).
     recursion_depth gl = 1 \<and> graph_ok (gl_graph gl) \<and> deadlock_free (gl_graph gl) \<and> graph_le g (gl_graph gl) \<and>
     (res = RESULT_CYCLE \<or> res = RESULT_EDGE_CAPACITY \<longrightarrow> f \<noteq> None) \<and>
     (res = RESULT_OK \<and> ordered_rq rq \<longrightarrow> (\<exists>i < length (nodes (gl_graph gl)). node = Some i \<and>
        (blocking_rq rq \<longrightarrow> all_before (gl_graph gl) (held td) \<lparr>d_node = i, d_mode = rq_mode rq\<rparr>))))"

lemma prepare_order_ok:
  assumes "in_engine g gl" "graph_ok g" "deadlock_free g" "held_ok g (held td)" "request_ok irq rq"
  shows "returns (prepared g td rq) (prepare_order irq gl m rq td)"
proof (cases "ordered_rq rq")
  case True
  have g: "gl_graph gl = g" "recursion_depth gl = 1" using assms(1) by (simp_all add: in_engine_def)
  have rq: "ctx_known irq rq" "rq_mode rq \<noteq> MODE_IGNORED" using assms(5) by (simp_all add: request_ok_def)
  obtain res f b g' out m' where
    p: "lock_chk_graph_prepare_acq irq g (report_busy gl) True m (rq_subclass rq) rq (held td) = Some ((res, f, b, g'), out, m')"
    and ok: "graph_ok g'" "deadlock_free g'" "labels_grow g g'"
    and cs: "res = RESULT_OK \<and> (\<exists>i. out = Some i \<and> resolved g m (rq_subclass rq) (g', m', i) \<and> set (edges g) \<subseteq> set (edges g') \<and>
       (blocking_rq rq \<longrightarrow> (\<forall>h \<in> set (held td). ordered h \<longrightarrow> has_edge g' (dep_of h) \<lparr>d_node = i, d_mode = rq_mode rq\<rparr>))) \<or>
     res \<noteq> RESULT_OK \<and> out = None \<and> m' = m \<and> same_graph g g' \<and>
       (res = RESULT_CYCLE \<or> res = RESULT_EDGE_CAPACITY \<longrightarrow> (True \<longleftrightarrow> f \<noteq> None)) \<and>
       (res = RESULT_CYCLE \<longrightarrow> (\<exists>h i. waits_for_held g (held td) \<lparr>d_node = i, d_mode = rq_mode rq\<rparr> (rq_site rq) h))"
    using prepare_acq_spec [OF assms(2-4) rq, of "report_busy gl" True m "rq_subclass rq"] by (elim exE conjE)
  have "set (edges g) \<subseteq> set (edges g')" using cs by (auto simp: same_graph_def)
  then have le: "graph_le g g'" using ok(3) by (simp add: graph_le_def)
  have e: "prepare_order irq gl m rq td = Inr (res, f, out, gl\<lparr>gl_graph := g', report_busy := b\<rparr>, m')"
    using True p g by (simp add: prepare_order_def)
  show ?thesis
  proof (cases "res = RESULT_OK")
    case True
    then show ?thesis unfolding e returns_simps prepared_def prod.case
      using cs ok(1,2) le g by (auto simp add: resolved_def all_before_def)
  next
    case False
    then show ?thesis unfolding e returns_simps prepared_def prod.case using cs ok(1,2) le g by simp
  qed
next
  case False
  then show ?thesis using assms by (simp add: prepare_order_def prepared_def in_engine_def)
qed

definition kept :: "lock_chk_graph \<Rightarrow> lock_chk_globals \<Rightarrow> bool" where
  "kept g gl \<longleftrightarrow> gl_ok gl \<and> graph_le g (gl_graph gl)"

lemma before_acq_ok:
  assumes "gl_ok gl" "td_ok (gl_graph gl) td" "request_ok irq rq"
  shows "returns (\<lambda>(tok, gl', m'). kept (gl_graph gl) gl' \<and> acq_ok (gl_graph gl') (held td) tok) (lock_chk_before_acq irq gl m rq td)"
proof (cases "\<not> lock_chk_state_active (gl_deep gl) \<or> lk_flags (rq_lock rq) = LOCK_UNCHKD")
  case True
  then show ?thesis using assms(1) by (auto simp: lock_chk_before_acq_def acq_ok_def no_acq_token_def kept_def)
next
  case False
  let ?g = "gl_graph gl"
  let ?Q = "\<lambda>(tok, gl', m'). kept ?g gl' \<and> acq_ok (gl_graph gl') (held td) tok"
  have ok: "graph_ok ?g" "deadlock_free ?g" "recursion_depth gl = 0" using assms(1) by (auto simp: gl_ok_def)
  have td: "held_ok ?g (held td)" "length (held td) \<le> LOCK_CHK_MAX_HELD_LOCKS" using assms(2) by (auto simp: td_ok_def)
  have out: "returns ?Q (and_then (lock_chk_leave gl') (\<lambda>gl. Inr (no_acq_token, gl, m')))"
    if "in_engine g' gl'" "graph_ok g'" "deadlock_free g'" "graph_le ?g g'" for gl' g' and m' :: lock_chk_map
    using leave_ok [OF that(1)] by (rule returns_then) (use that in \<open>auto simp: kept_def gl_ok_def acq_ok_def no_acq_token_def\<close>)
  have body: "returns ?Q (if validate_acq irq rq td \<noteq> RESULT_OK then
             and_then (lock_chk_do_validation_fail (validate_acq irq rq td) m rq gl1) (\<lambda>gl.
             and_then (lock_chk_leave gl) (\<lambda>gl. Inr (no_acq_token, gl, m)))
           else
             and_then (prepare_order irq gl1 m rq td) (\<lambda>(res, f, node, gl, m).
               if res \<noteq> RESULT_OK then
                 and_then (acq_fail res f m rq gl) (\<lambda>gl.
                 and_then (lock_chk_leave gl) (\<lambda>gl. Inr (no_acq_token, gl, m)))
               else
                 and_then (lock_chk_leave gl) (\<lambda>gl.
                   Inr (\<lparr>t_node = node, t_request = Some rq, t_active = True\<rparr>, gl, m))))"
    if e: "in_engine ?g gl1" for gl1
  proof (cases "validate_acq irq rq td = RESULT_OK")
    case False
    have "returns ?Q (and_then (lock_chk_do_validation_fail (validate_acq irq rq td) m rq gl1) (\<lambda>gl.
             and_then (lock_chk_leave gl) (\<lambda>gl. Inr (no_acq_token, gl, m))))"
      using validation_fail_ok [OF e] by (rule returns_then) (rule out, use ok in auto)
    then show ?thesis using False by simp
  next
    case True
    note v = validate_ok [OF True td(2)]
    have "returns ?Q (if res \<noteq> RESULT_OK then
                 and_then (acq_fail res f m' rq gl2) (\<lambda>gl. and_then (lock_chk_leave gl) (\<lambda>gl. Inr (no_acq_token, gl, m')))
               else and_then (lock_chk_leave gl2) (\<lambda>gl.
                   Inr (\<lparr>t_node = node, t_request = Some rq, t_active = True\<rparr>, gl, m')))"
      if p: "prepared ?g td rq (res, f, node, gl2, m')" for res f node gl2 m'
    proof (cases "res = RESULT_OK")
      case True
      have i: "in_engine (gl_graph gl2) gl2" using p by (simp add: prepared_def in_engine_def)
      have "returns ?Q (and_then (lock_chk_leave gl2) (\<lambda>gl. Inr (\<lparr>t_node = node, t_request = Some rq, t_active = True\<rparr>, gl, m')))"
        using leave_ok [OF i] by (rule returns_then)
          (use p v True assms(3) in \<open>simp add: prepared_def kept_def gl_ok_def acq_ok_def request_ok_def\<close>)
      then show ?thesis using True by simp
    next
      case False
      have i: "in_engine (gl_graph gl2) gl2" "graph_ok (gl_graph gl2)" "deadlock_free (gl_graph gl2)" "graph_le ?g (gl_graph gl2)"
        using p by (simp_all add: prepared_def in_engine_def)
      have f: "res = RESULT_CYCLE \<or> res = RESULT_EDGE_CAPACITY \<longrightarrow> f \<noteq> None" using p by (auto simp: prepared_def)
      have "returns ?Q (and_then (acq_fail res f m' rq gl2) (\<lambda>gl. and_then (lock_chk_leave gl) (\<lambda>gl. Inr (no_acq_token, gl, m'))))"
        using acq_fail_ok [OF i(1) f] by (rule returns_then) (rule out, use i in auto)
      then show ?thesis using False by simp
    qed
    then have "returns ?Q (and_then (prepare_order irq gl1 m rq td) (\<lambda>(res, f, node, gl, m).
               if res \<noteq> RESULT_OK then
                 and_then (acq_fail res f m rq gl) (\<lambda>gl. and_then (lock_chk_leave gl) (\<lambda>gl. Inr (no_acq_token, gl, m)))
               else and_then (lock_chk_leave gl) (\<lambda>gl.
                   Inr (\<lparr>t_node = node, t_request = Some rq, t_active = True\<rparr>, gl, m))))"
      by (intro returns_then [OF prepare_order_ok [OF e ok(1,2) td(1) assms(3)]]) auto
    then show ?thesis using True by simp
  qed
  show ?thesis unfolding lock_chk_before_acq_def Let_def using False returns_then [OF enter_ok [OF ok(3)] body] by simp
qed

lemma in_engine_leave:
  assumes "in_engine (gl_graph gl) gl'" "gl_ok gl"
  shows "returns (\<lambda>gl''. gl_ok gl'' \<and> gl_graph gl'' = gl_graph gl) (lock_chk_leave gl')"
  using leave_ok [OF assms(1)] by (rule returns_mono) (use assms(2) in \<open>simp add: gl_ok_def\<close>)

lemma count_push:
  assumes "unat c = length (filter p hs)" "length hs < LOCK_CHK_MAX_HELD_LOCKS"
  shows "unat (c + (if p h then 1 else 0) :: u8) = length (filter p (hs @ [h]))"
proof -
  have "unat c < 255" using assms length_filter_le [of p hs] unfolding LOCK_CHK_MAX_HELD_LOCKS_def by linarith
  then have "unat (c + 1) = Suc (unat c)" by (simp add: unat_plus_if_size word_size)
  then show ?thesis using assms(1) by simp
qed

lemma push_held_ok:
  assumes "td_ok g td" "length (held td) < LOCK_CHK_MAX_HELD_LOCKS"
    and "ordered h \<Longrightarrow> h_node h \<noteq> None \<and> dep_ok g (dep_of h)"
  shows "td_ok g (push_held h td)"
  using assms count_push [of "thread_checked_depth td" counts_thread "held td" h]
    count_push [of "thread_checked_spin_depth td" counts_spin "held td" h]
  unfolding td_ok_def push_held_def held_ok_def by auto

lemma acqd_ok:
  assumes "gl_ok gl" "td_ok (gl_graph gl) td" "acq_ok (gl_graph gl) hs tok" "t_active tok \<longrightarrow> length (held td) < LOCK_CHK_MAX_HELD_LOCKS"
  shows "returns (\<lambda>(tok', gl', td'). gl_ok gl' \<and> gl_graph gl' = gl_graph gl \<and> td_ok (gl_graph gl) td') (lock_chk_acqd tok gl td)"
proof (cases "t_active tok")
  case True
  let ?g = "gl_graph gl"
  obtain rq where rq: "t_request tok = Some rq" "rq_mode rq \<noteq> MODE_IGNORED" "length (held td) < LOCK_CHK_MAX_HELD_LOCKS"
    "ordered_rq rq \<longrightarrow> (\<exists>i < length (nodes ?g). t_node tok = Some i)"
    using assms(3,4) True by (auto simp: acq_ok_def)
  have "td_ok ?g (push_held (held_of (t_node tok) rq) td)"
    using rq by (intro push_held_ok [OF assms(2)]) (auto simp: held_of_def dep_of_def dep_ok_def)
  then have "returns (\<lambda>(tok', gl', td'). gl_ok gl' \<and> gl_graph gl' = ?g \<and> td_ok ?g td')
      (and_then (lock_chk_leave gl1) (\<lambda>gl. Inr (tok\<lparr>t_active := False\<rparr>, gl, push_held (held_of (t_node tok) rq) td)))"
    if "in_engine ?g gl1" for gl1
    using in_engine_leave [OF that assms(1)] by (intro returns_then) auto
  then show ?thesis using True rq(1,3) assms(1) unfolding lock_chk_acqd_def
    by (auto intro!: returns_then [OF enter_ok] simp: gl_ok_def)
next
  case False
  then show ?thesis using assms by (simp add: lock_chk_acqd_def)
qed

lemma before_rel_ok:
  assumes "gl_ok gl" "td_ok (gl_graph gl) td"
  shows "returns (\<lambda>(tok, gl'). gl_ok gl' \<and> gl_graph gl' = gl_graph gl \<and> rel_ok (held td) tok) (lock_chk_before_rel gl m rq td)"
proof (cases "\<not> lock_chk_state_active (gl_deep gl) \<or> lk_flags (r_lock rq) = LOCK_UNCHKD")
  case True
  then show ?thesis using assms(1) by (auto simp: lock_chk_before_rel_def rel_ok_def no_rel_token_def)
next
  case False
  let ?g = "gl_graph gl" and ?Q = "\<lambda>(tok, gl'). gl_ok gl' \<and> gl_graph gl' = gl_graph gl \<and> rel_ok (held td) tok"
  let ?find = "lock_chk_find_held td (instance_ptr (r_lock rq)) (lk_type (r_lock rq)) True (r_mode rq) True"
  have leave: "returns ?Q (and_then (lock_chk_leave gl1) (\<lambda>gl. Inr (tok, gl)))"
    if "in_engine ?g gl1" "rel_ok (held td) tok" for gl1 tok
    using in_engine_leave [OF that(1) assms(1)] that(2) by (intro returns_then) auto
  have found: "rel_ok (held td) \<lparr>rt_instance = instance_ptr (r_lock rq), rt_index = of_nat i, rt_active = True\<rparr>"
    if "?find = Some i" for i
  proof -
    have "i < length (held td)" "instance_ptr (h_lock (held td ! i)) = instance_ptr (r_lock rq)"
      using find_held_from_some [of _ "held td" 0 i] that by (auto simp: lock_chk_find_held_def)
    moreover have "unat (of_nat i :: u8) = i"
      using calculation(1) assms(2) by (simp add: td_ok_def LOCK_CHK_MAX_HELD_LOCKS_def unat_of_nat)
    ultimately show ?thesis by (simp add: rel_ok_def)
  qed
  have fail: "returns ?Q (and_then (lock_chk_fail f gl1) (\<lambda>gl. and_then (lock_chk_leave gl) (\<lambda>gl. Inr (no_rel_token, gl))))"
    if "in_engine ?g gl1" for gl1 f
    using fail_ok [OF that] by (rule returns_then) (rule leave, auto simp: rel_ok_def no_rel_token_def)
  have z: "recursion_depth gl = 0" using assms(1) by (simp add: gl_ok_def)
  show ?thesis using False leave found fail unfolding lock_chk_before_rel_def
    by (auto intro!: returns_then [OF enter_ok [OF z]] split: option.split)
qed

text \<open>Recording an acquisition fails its check exactly when the table of held locks is full.\<close>

lemma acqd_full:
  assumes "gl_ok gl" "acq_ok (gl_graph gl) hs tok" "t_active tok" "\<not> length (held td) < LOCK_CHK_MAX_HELD_LOCKS"
  shows "lock_chk_acqd tok gl td = Inl ENFORCE"
  using assms by (auto simp: acq_ok_def lock_chk_acqd_def lock_chk_enter_def gl_ok_def enforce_def)

text \<open>Closing the gap removes exactly the released entry.\<close>

lemma shift_fold:
  assumes "i \<le> j" "j < length xs"
  shows "length (foldl (\<lambda>xs k. xs[k := xs ! (k + 1)]) xs [i..<j]) = length xs \<and>
    (\<forall>k < length xs. foldl (\<lambda>xs k. xs[k := xs ! (k + 1)]) xs [i..<j] ! k = (if i \<le> k \<and> k < j then xs ! (k + 1) else xs ! k))"
  using assms
proof (induction j)
  case (Suc j)
  show ?case
  proof (cases "i \<le> j")
    case True
    then show ?thesis using Suc by (auto simp: nth_list_update)
  next
    case False
    then have "i = Suc j" using Suc.prems by simp
    then show ?thesis by auto
  qed
qed simp

lemma shift_down_eq: "i < length xs \<Longrightarrow> shift_down i xs = take i xs @ drop (Suc i) xs"
  using shift_fold [of i "length xs - 1" xs]
  by (intro nth_equalityI) (auto simp: shift_down_def nth_butlast nth_append min_def)

lemma count_drop:
  assumes "unat (c :: u8) = length (filter p hs)" "i < length hs"
  shows "p (hs ! i) \<Longrightarrow> c \<noteq> 0"
    and "unat (c - (if p (hs ! i) then 1 else 0)) = length (filter p (take i hs @ drop (Suc i) hs))"
proof -
  have s: "filter p hs = filter p (take i hs) @ (if p (hs ! i) then [hs ! i] else []) @ filter p (drop (Suc i) hs)"
    using arg_cong [OF id_take_nth_drop [OF assms(2)], of "filter p"] by simp
  show c: "p (hs ! i) \<Longrightarrow> c \<noteq> 0" using s assms(1) by auto
  show "unat (c - (if p (hs ! i) then 1 else 0)) = length (filter p (take i hs @ drop (Suc i) hs))"
    using s assms(1) c by (auto simp: unat_minus_one)
qed

lemma drop_held_ok:
  assumes "td_ok g td" "i < length (held td)"
  shows "returns (td_ok g) (drop_held i (held td ! i) td)"
proof -
  have "set (take i (held td) @ drop (Suc i) (held td)) \<subseteq> set (held td)"
    using set_take_subset set_drop_subset by fastforce
  moreover note count_drop [of "thread_checked_depth td" counts_thread "held td" i]
    count_drop [of "thread_checked_spin_depth td" counts_spin "held td" i]
  ultimately show ?thesis using assms by (auto simp: drop_held_def td_ok_def held_ok_def shift_down_eq)
qed

lemma reld_ok:
  assumes "gl_ok gl" "td_ok (gl_graph gl) td" "rel_ok (held td) tok"
  shows "returns (\<lambda>(tok', gl', td'). gl_ok gl' \<and> gl_graph gl' = gl_graph gl \<and> td_ok (gl_graph gl) td') (lock_chk_reld tok gl td)"
proof (cases "rt_active tok")
  case True
  let ?g = "gl_graph gl" and ?i = "unat (rt_index tok)"
  have i: "?i < length (held td)" "instance_ptr (h_lock (held td ! ?i)) = rt_instance tok"
    using assms(3) True by (auto simp: rel_ok_def)
  have "returns (\<lambda>(tok', gl', td'). gl_ok gl' \<and> gl_graph gl' = ?g \<and> td_ok ?g td')
      (and_then (drop_held ?i (held td ! ?i) td) (\<lambda>td. and_then (lock_chk_leave gl1) (\<lambda>gl. Inr (tok\<lparr>rt_active := False\<rparr>, gl, td))))"
    if "in_engine ?g gl1" for gl1
    using drop_held_ok [OF assms(2) i(1)]
    by (rule returns_then) (rule returns_then [OF in_engine_leave [OF that assms(1)]], use True in auto)
  then show ?thesis using True i assms(1) unfolding lock_chk_reld_def Let_def
    by (auto intro!: returns_then [OF enter_ok] simp: gl_ok_def)
next
  case False
  then show ?thesis using assms by (simp add: lock_chk_reld_def)
qed

text \<open>A release that returns found its entry.\<close>

lemma reld_found:
  assumes "lock_chk_reld tok gl td = Inr r" "gl_ok gl"
  shows "rel_ok (held td) tok"
  using assms by (auto simp: rel_ok_def lock_chk_reld_def lock_chk_enter_def gl_ok_def enforce_def Let_def split: if_splits)

lemma thread_exit_ok:
  assumes "gl_ok gl"
  shows "returns (\<lambda>gl'. gl_ok gl' \<and> gl_graph gl' = gl_graph gl) (lock_chk_thread_exit gl td)"
proof (cases "lock_chk_state_active (gl_deep gl)")
  case True
  have "returns (\<lambda>gl'. gl_ok gl' \<and> gl_graph gl' = gl_graph gl)
      (and_then (if thread_checked_depth td \<noteq> 0 then lock_chk_fail f gl1 else Inr gl1) lock_chk_leave)"
    if "in_engine (gl_graph gl) gl1" for gl1 f
    using that fail_ok [OF that] by (intro returns_then [of "in_engine (gl_graph gl)"] in_engine_leave [OF _ assms]) auto
  then show ?thesis using True assms unfolding lock_chk_thread_exit_def
    by (auto intro!: returns_then [OF enter_ok] simp: gl_ok_def)
next
  case False
  then show ?thesis using assms by (simp add: lock_chk_thread_exit_def)
qed

section \<open>The invariant holds in every reachable state\<close>

lemma graph_init_ok:
  assumes "arrays_ok g" "length (class_hash g) = LOCK_CHK_HASH_BUCKETS"
  shows "graph_ok (lock_chk_graph_init g)" "deadlock_free (lock_chk_graph_init g)"
  using assms by (auto simp: graph_ok_def lock_chk_graph_init_def arrays_ok_def out_ok_def hash_ok_def deadlock_free_def
      follows_def acyclic_def map_replicate_const intro!: nth_equalityI)

lemma start_ok:
  assumes "sys_start s"
  shows "sys_ok s"
proof -
  obtain gl where gl: "lock_chk_init True True True gl = Inr (sys_gl s)" "recursion_depth gl = 0" "arrays_ok (gl_graph gl)"
    "length (class_hash (gl_graph gl)) = LOCK_CHK_HASH_BUCKETS" using assms by (auto simp: sys_start_def)
  then have "sys_gl s = gl\<lparr>gl_graph := lock_chk_graph_init (gl_graph gl), gl_deep := ACTIVE, gl_debug := ACTIVE, gl_state := ACTIVE\<rparr>"
    by (simp add: lock_chk_init_def lock_chk_deep_activate_def lock_debug_activate_def enforce_def)
  then have "gl_ok (sys_gl s)" using graph_init_ok [OF gl(3,4)] gl(2) by (simp add: gl_ok_def)
  then show ?thesis using assms by (simp add: sys_start_def sys_ok_def td_ok_def held_ok_def)
qed

lemma sys_ok_thread:
  assumes "sys_ok s"
  shows "gl_ok (sys_gl s)" "td_ok (gl_graph (sys_gl s)) (sys_td s t)" "f \<in> set (sys_ops s t) \<Longrightarrow> frame_ok (gl_graph (sys_gl s)) f"
  using assms by (auto simp: sys_ok_def)

lemma step_ok:
  assumes "sys_step s s'" "sys_ok s"
  shows "sys_ok s'"
  using assms(1)
proof cases
  case (before_acq irq rq m t tok gl m')
  have k: "kept (gl_graph (sys_gl s)) gl" "acq_ok (gl_graph gl) (held (sys_td s t)) tok"
    using before_acq_ok [OF sys_ok_thread(1,2) [OF assms(2)] before_acq(2), of t m] before_acq(3) by auto
  then show ?thesis using assms(2) graph_le_keeps [of "gl_graph (sys_gl s)" "gl_graph gl"] before_acq(1)
    by (auto simp: sys_ok_def kept_def)
next
  case (acqd t tok hs fs tok' gl td)
  have a: "acq_ok (gl_graph (sys_gl s)) hs tok" using sys_ok_thread(3) [OF assms(2), of _ t] acqd(2) by fastforce
  have "t_active tok \<longrightarrow> length (held (sys_td s t)) < LOCK_CHK_MAX_HELD_LOCKS"
    using acqd_full [OF sys_ok_thread(1) [OF assms(2)] a] acqd(3) by fastforce
  moreover have "\<forall>f \<in> set fs. frame_ok (gl_graph (sys_gl s)) f" using sys_ok_thread(3) [OF assms(2), of _ t] acqd(2) by simp
  ultimately show ?thesis using acqd_ok [OF sys_ok_thread(1,2) [OF assms(2)] a, of t] acqd assms(2) by (auto simp: sys_ok_def)
next
  case (cancel t tok hs fs)
  have "\<forall>f \<in> set fs. frame_ok (gl_graph (sys_gl s)) f" using sys_ok_thread(3) [OF assms(2), of _ t] cancel(2) by simp
  then show ?thesis using cancel assms(2) by (auto simp: sys_ok_def)
next
  case (before_rel m rq t tok gl)
  then show ?thesis using before_rel_ok [OF sys_ok_thread(1,2) [OF assms(2)], of t m rq] assms(2) by (auto simp: sys_ok_def)
next
  case (reld t tok hs fs tok' gl td)
  have "rel_ok (held (sys_td s t)) tok" using reld_found [OF reld(3) sys_ok_thread(1) [OF assms(2)]] .
  moreover have "\<forall>f \<in> set fs. frame_ok (gl_graph (sys_gl s)) f" using sys_ok_thread(3) [OF assms(2), of _ t] reld(2) by simp
  ultimately show ?thesis using reld_ok [OF sys_ok_thread(1,2) [OF assms(2)], of t tok] reld assms(2) by (auto simp: sys_ok_def)
next
  case (thread_init t)
  then show ?thesis using assms(2) by (auto simp: sys_ok_def td_ok_def held_ok_def lock_chk_thread_init_def)
next
  case (thread_exit t gl)
  then show ?thesis using thread_exit_ok [OF sys_ok_thread(1) [OF assms(2)], of "sys_td s t"] assms(2)
    by (auto simp: sys_ok_def)
qed

lemma reachable_ok: "sys_reachable s \<Longrightarrow> sys_ok s"
  unfolding sys_reachable_def
proof (elim exE conjE)
  fix s0 assume s0: "sys_start s0" and "sys_step\<^sup>*\<^sup>* s0 s"
  from this(2) show "sys_ok s" by (induction rule: rtranclp_induct) (use s0 start_ok step_ok in auto)
qed

section \<open>No circular waiting\<close>

text \<open>
  A thread waits at its innermost operation when that is an accepted blocking acquisition of an ordered lock and the thread holds
  no lock beyond those it held when the acquisition was accepted: what it took inside the bracket it has released again,
  as a mutex releases the turnstile chain before it spins or sleeps.
\<close>

fun waits_at :: "lock_chk_held list \<Rightarrow> op_frame list \<Rightarrow> lock_chk_acq_token option" where
  "waits_at hs (Acquiring tok hs0 # fs) =
     (if t_active tok \<and> set hs \<subseteq> set hs0 \<and> (case t_request tok of None \<Rightarrow> False | Some rq \<Rightarrow> ordered_rq rq \<and> blocking_rq rq)
      then Some tok else None)"
| "waits_at hs fs = None"

abbreviation waiting_token :: "lock_system \<Rightarrow> nat \<Rightarrow> lock_chk_acq_token option" where
  "waiting_token s t \<equiv> waits_at (held (sys_td s t)) (sys_ops s t)"

definition wanted_dep :: "lock_chk_acq_token \<Rightarrow> lock_chk_dep" where
  "wanted_dep tok = \<lparr>d_node = the (t_node tok), d_mode = rq_mode (the (t_request tok))\<rparr>"

text \<open>It waits on a thread that holds a lock of the same class and subclass in a conflicting mode.\<close>

definition waits_on :: "lock_system \<Rightarrow> nat \<Rightarrow> nat \<Rightarrow> bool" where
  "waits_on s t u \<longleftrightarrow> (\<exists>tok. waiting_token s t = Some tok \<and> (\<exists>h \<in> set (held (sys_td s u)). ordered h \<and>
     h_node h = t_node tok \<and> lock_chk_modes_conflict (d_mode (wanted_dep tok)) (h_mode h)))"

lemma waiting_frame:
  assumes "sys_ok s" "waiting_token s t = Some tok"
  shows "\<exists>rq i. t_request tok = Some rq \<and> t_node tok = Some i \<and> rq_mode rq \<noteq> MODE_IGNORED \<and>
    all_before (gl_graph (sys_gl s)) (held (sys_td s t)) (wanted_dep tok)"
proof -
  obtain hs0 fs where f: "sys_ops s t = Acquiring tok hs0 # fs" "t_active tok" "set (held (sys_td s t)) \<subseteq> set hs0"
    "case t_request tok of None \<Rightarrow> False | Some rq \<Rightarrow> ordered_rq rq \<and> blocking_rq rq"
    using assms(2) by (cases "(held (sys_td s t), sys_ops s t)" rule: waits_at.cases) (auto split: if_splits)
  have "acq_ok (gl_graph (sys_gl s)) hs0 tok" using sys_ok_thread(3) [OF assms(1), of "Acquiring tok hs0" t] f(1) by simp
  then obtain rq i where r: "t_request tok = Some rq" "t_node tok = Some i" "rq_mode rq \<noteq> MODE_IGNORED"
    "all_before (gl_graph (sys_gl s)) hs0 \<lparr>d_node = i, d_mode = rq_mode rq\<rparr>"
    using f(2,4) by (auto simp: acq_ok_def split: option.splits)
  then have "all_before (gl_graph (sys_gl s)) (held (sys_td s t)) (wanted_dep tok)"
    using f(3) by (auto simp: all_before_def wanted_dep_def)
  then show ?thesis using r by blast
qed

lemma acyclic_by_edges:
  assumes "acyclic F" "\<And>t u v. (t, u) \<in> W \<Longrightarrow> (u, v) \<in> W \<Longrightarrow> v \<in> Domain W \<Longrightarrow> (f (t, u), f (u, v)) \<in> F"
  shows "acyclic W"
  unfolding acyclic_def
proof (intro allI notI)
  fix a assume "(a, a) \<in> W\<^sup>+"
  then obtain b where b: "(a, b) \<in> W" "(b, a) \<in> W\<^sup>*" by (meson tranclD)
  have bd: "b \<in> Domain W" using b by (metis Domain.DomainI converse_rtranclE)
  have "(f (a, b), f (c, d)) \<in> F\<^sup>+" if "(b, c) \<in> W\<^sup>*" "(c, d) \<in> W" "d \<in> Domain W" for c d
    using that
  proof (induction arbitrary: d rule: rtrancl_induct)
    case base
    then show ?case using assms(2) b(1) by blast
  next
    case (step c c')
    then have "(f (a, b), f (c, c')) \<in> F\<^sup>+" "(f (c, c'), f (c', d)) \<in> F" using assms(2) by blast+
    then show ?case by (rule trancl_into_trancl)
  qed
  then have "(f (a, b), f (a, b)) \<in> F\<^sup>+" using b bd by blast
  then show False using assms(1) by (simp add: acyclic_def)
qed

text \<open>The dependency recorded for a thread that waits and holds what another waits for.\<close>

abbreviation wants :: "lock_system \<Rightarrow> nat \<Rightarrow> lock_chk_dep" where
  "wants s t \<equiv> wanted_dep (the (waiting_token s t))"

definition wait_edge :: "lock_system \<Rightarrow> nat \<Rightarrow> nat \<Rightarrow> lock_chk_edge \<Rightarrow> bool" where
  "wait_edge s t u e \<longleftrightarrow> e \<in> set (edges (gl_graph (sys_gl s))) \<and> target_state e = dep_state (wants s u) \<and>
     e_from e = d_node (wants s t) \<and> lock_chk_modes_conflict (d_mode (wants s t)) (e_from_mode e)"

lemma wait_edge_exists:
  assumes "sys_ok s" "waits_on s t u" "waiting_token s u = Some tok"
  shows "\<exists>e. wait_edge s t u e"
proof -
  let ?g = "gl_graph (sys_gl s)"
  have before: "all_before ?g (held (sys_td s u)) (wants s u)" using waiting_frame [OF assms(1,3)] assms(3) by auto
  obtain tok' h where h: "waiting_token s t = Some tok'" "h \<in> set (held (sys_td s u))" "ordered h" "h_node h = t_node tok'"
    "lock_chk_modes_conflict (d_mode (wanted_dep tok')) (h_mode h)" using assms(2) by (auto simp: waits_on_def)
  obtain site where e: "dep_edge (dep_of h) (wants s u) site \<in> set (edges ?g)"
    using before h(2,3) by (auto simp: all_before_def has_edge_def)
  have "wait_edge s t u (dep_edge (dep_of h) (wants s u) site)"
    using e h by (simp add: wait_edge_def) (simp add: dep_edge_def dep_of_def wanted_dep_def)
  then show ?thesis by blast
qed

lemma wait_edges_follow:
  assumes "sys_ok s" "wait_edge s t u e" "wait_edge s u v f" "waiting_token s u = Some tok"
  shows "(e, f) \<in> follows (set (edges (gl_graph (sys_gl s))))"
proof -
  have "d_mode (wants s u) \<noteq> MODE_IGNORED" using waiting_frame [OF assms(1,4)] assms(4) by (auto simp: wanted_dep_def)
  then have "leads (dep_state (wants s u)) f" using assms(3) by (simp add: wait_edge_def leads_def dep_state_def)
  then show ?thesis using assms(2,3) by (simp add: follows_def wait_edge_def)
qed

text \<open>
  C1. Threads cannot deadlock on locks the validator orders. Consider any state the system reaches, with the operations of any
  number of threads interleaved in any way and nested in each thread to any depth. No circle of threads exists in which
  each one waits at its innermost acquisition, accepted by the validator, for a lock of a class that the next one holds in a
  conflicting mode, and holds only locks that it held when that acquisition was accepted.
\<close>

theorem no_circular_wait:
  assumes "sys_reachable s"
  shows "acyclic {(t, u). waits_on s t u}"
proof -
  let ?W = "{(t, u). waits_on s t u}" and ?E = "set (edges (gl_graph (sys_gl s)))"
  have ok: "sys_ok s" using reachable_ok [OF assms] .
  have acq: "\<exists>tok. waiting_token s u = Some tok" if "u \<in> Domain ?W" for u using that by (auto simp: waits_on_def)
  let ?f = "\<lambda>(t, u). SOME e. wait_edge s t u e"
  have f: "wait_edge s t u (?f (t, u))" if "(t, u) \<in> ?W" "u \<in> Domain ?W" for t u
    using wait_edge_exists [OF ok, of t u] acq [OF that(2)] that(1) by (auto intro: someI_ex)
  have "(?f (t, u), ?f (u, v)) \<in> follows ?E" if "(t, u) \<in> ?W" "(u, v) \<in> ?W" "v \<in> Domain ?W" for t u v
    using wait_edges_follow [OF ok f f] acq that by blast
  moreover have "acyclic (follows ?E)" using ok by (simp add: sys_ok_def gl_ok_def deadlock_free_def)
  ultimately show ?thesis by (rule acyclic_by_edges [rotated])
qed

text \<open>
  C6. The engine does not trip over itself, however the operations of the threads are interleaved and nested: in every reachable
  state, beginning an acquisition or a release and ending a thread return or crash with a report of a fault of the caller, and
  none of the engine's own checks fails. Recording the innermost acquisition fails its check exactly when the table of held
  locks is full, which cannot be when the thread holds no more locks than when the acquisition was accepted. Recording the
  innermost release passes all its checks when the locks held at its beginning are still the first in the table.
\<close>

theorem engine_checks_hold:
  assumes "sys_reachable s" "request_ok irq rq"
  shows "lock_chk_before_acq irq (sys_gl s) m rq (sys_td s t) \<noteq> Inl ENFORCE \<and>
    lock_chk_before_rel (sys_gl s) m' rrq (sys_td s t) \<noteq> Inl ENFORCE \<and>
    lock_chk_thread_exit (sys_gl s) (sys_td s t) \<noteq> Inl ENFORCE \<and>
    (\<forall>tok hs fs. sys_ops s t = Acquiring tok hs # fs \<longrightarrow>
       (lock_chk_acqd tok (sys_gl s) (sys_td s t) = Inl ENFORCE \<longleftrightarrow> t_active tok \<and> length (held (sys_td s t)) = LOCK_CHK_MAX_HELD_LOCKS) \<and>
       (length (held (sys_td s t)) \<le> length hs \<longrightarrow> lock_chk_acqd tok (sys_gl s) (sys_td s t) \<noteq> Inl ENFORCE)) \<and>
    (\<forall>tok hs fs. sys_ops s t = Releasing tok hs # fs \<longrightarrow> take (length hs) (held (sys_td s t)) = hs \<longrightarrow>
       lock_chk_reld tok (sys_gl s) (sys_td s t) \<noteq> Inl ENFORCE)"
proof (intro conjI allI impI)
  note sok = reachable_ok [OF assms(1)]
  note ok = sys_ok_thread(1) [OF sok] sys_ok_thread(2) [OF sok, of t]
  show "lock_chk_before_acq irq (sys_gl s) m rq (sys_td s t) \<noteq> Inl ENFORCE" using before_acq_ok [OF ok assms(2), of m] by (auto simp: returns_def)
  show "lock_chk_before_rel (sys_gl s) m' rrq (sys_td s t) \<noteq> Inl ENFORCE" using before_rel_ok [OF ok, of m' rrq] by (auto simp: returns_def)
  show "lock_chk_thread_exit (sys_gl s) (sys_td s t) \<noteq> Inl ENFORCE" using thread_exit_ok [OF ok(1), of "sys_td s t"] by (auto simp: returns_def)
  fix tok hs fs assume f: "sys_ops s t = Acquiring tok hs # fs"
  have a: "acq_ok (gl_graph (sys_gl s)) hs tok" using sys_ok_thread(3) [OF sok, of "Acquiring tok hs" t] f by simp
  have le: "length (held (sys_td s t)) \<le> LOCK_CHK_MAX_HELD_LOCKS" using ok(2) by (simp add: td_ok_def)
  show iff: "lock_chk_acqd tok (sys_gl s) (sys_td s t) = Inl ENFORCE \<longleftrightarrow> t_active tok \<and> length (held (sys_td s t)) = LOCK_CHK_MAX_HELD_LOCKS"
  proof (cases "t_active tok \<longrightarrow> length (held (sys_td s t)) < LOCK_CHK_MAX_HELD_LOCKS")
    case True
    show ?thesis using acqd_ok [OF ok a True] True by (auto simp: returns_def)
  next
    case False
    then show ?thesis using acqd_full [OF ok(1) a, of "sys_td s t"] le by simp
  qed
  show "lock_chk_acqd tok (sys_gl s) (sys_td s t) \<noteq> Inl ENFORCE" if "length (held (sys_td s t)) \<le> length hs"
    using iff that a by (auto simp: acq_ok_def)
next
  note sok = reachable_ok [OF assms(1)]
  fix tok hs fs assume f: "sys_ops s t = Releasing tok hs # fs" and p: "take (length hs) (held (sys_td s t)) = hs"
  have "rel_ok hs tok" using sys_ok_thread(3) [OF sok, of "Releasing tok hs" t] f by simp
  moreover have "length hs \<le> length (held (sys_td s t))" using p by (metis length_take min.cobounded1)
  moreover have "i < length hs \<Longrightarrow> held (sys_td s t) ! i = hs ! i" for i using p by (metis nth_take)
  ultimately have "rel_ok (held (sys_td s t)) tok" by (auto simp: rel_ok_def)
  then show "lock_chk_reld tok (sys_gl s) (sys_td s t) \<noteq> Inl ENFORCE"
    using reld_ok [OF sys_ok_thread(1) [OF sok] sys_ok_thread(2) [OF sok, of t], of tok] unfolding returns_def by (cases "lock_chk_reld tok (sys_gl s) (sys_td s t)") auto
qed

section \<open>A concrete run\<close>

definition blank_globals :: lock_chk_globals where
  "blank_globals = \<lparr>gl_graph = \<lparr>class_hash = replicate 1024 [], nodes = [], edges = [],
       visit_generation = replicate 2048 0, parent_state = replicate 2048 0, parent_edge = replicate 2048 0,
       last_cycle_end_state = - 1, generation = 0\<rparr>,
     gl_state = INACTIVE, gl_deep = INACTIVE, gl_debug = INACTIVE, panic_on_exhaustion = True, report_busy = False,
     recursion_depth = 0\<rparr>"

definition empty_td :: lock_chk_thread_data where
  "empty_td = \<lparr>held = [], thread_checked_depth = 0, thread_checked_spin_depth = 0\<rparr>"

definition booted :: lock_system where
  "booted = \<lparr>sys_gl = blank_globals\<lparr>gl_state := ACTIVE, gl_deep := ACTIVE, gl_debug := ACTIVE\<rparr>,
     sys_td = (\<lambda>_. empty_td), sys_ops = (\<lambda>_. [])\<rparr>"

lemma booted_start: "sys_start booted"
  unfolding sys_start_def
proof (intro conjI exI [of _ blank_globals] allI)
  show "lock_chk_init True True True blank_globals = Inr (sys_gl booted)"
    by (simp add: lock_chk_init_def lock_chk_deep_activate_def lock_debug_activate_def enforce_def booted_def blank_globals_def
        lock_chk_graph_init_def map_replicate_const)
qed (simp_all add: booted_def blank_globals_def empty_td_def arrays_ok_def
    LOCK_CHK_MODE_STATE_COUNT_def LOCK_CHK_MAX_NODES_def LOCK_CHK_HASH_BUCKETS_def)

lemma a_request_ok: "request_ok False a_request"
  by (simp add: request_ok_def ctx_known_def a_request_def lock_chk_type_is_spin_def)

text \<open>
  The first thread asks for a mutex and takes it; the second one asks for it and has to wait.
\<close>

definition one_class :: lock_chk_globals where
  "one_class = (sys_gl booted)\<lparr>gl_graph := (gl_graph blank_globals)\<lparr>class_hash := (replicate 1024 [])[3 := [0]],
     nodes := [\<lparr>n_id = 0, n_class = class_at 0x30, n_subclass = 0, context_bits = 0, out_edges = [], in_edges = []\<rparr>]\<rparr>\<rparr>"

definition a_token :: lock_chk_acq_token where
  "a_token = \<lparr>t_node = Some 0, t_request = Some a_request, t_active = True\<rparr>"

definition waiting :: lock_system where
  "waiting = booted\<lparr>sys_gl := one_class, sys_td := (sys_td booted)(0 := push_held (held_of (Some 0) a_request) empty_td),
     sys_ops := (sys_ops booted)(1 := [Acquiring a_token []])\<rparr>"

lemmas engine_eval = lock_chk_before_acq_def booted_def blank_globals_def lock_chk_state_active_def a_request_def a_map_def
  LOCK_CHKD_ORDER_def LOCK_UNCHKD_def lock_chk_enter_def validate_acq_def lock_chk_type_is_blocking_def
  IRQL_APC_LEVEL_def empty_td_def LOCK_CHK_MAX_SUBCLASSES_def LOCK_CHK_MAX_HELD_LOCKS_def lock_chk_find_held_def
  prepare_order_def lock_chk_graph_prepare_acq_def find_node_def rd_def lock_chk_map_class_def class_at_def
  lock_chk_class_hash_def LOCK_CHK_HASH_BUCKETS_def resolve_node_def get_node_def LOCK_CHK_MAX_NODES_def add_node_def
  record_base_def record_ctx_def lock_chk_type_is_spin_def LOCK_OP_KIND_MASK_def LOCK_OP_KIND_BLOCKING_def add_held_deps_def
  LOCK_CHK_MAX_EDGES_def lock_chk_leave_def enforce_def Let_def one_class_def a_token_def

lemma first_acquire: "\<exists>m. lock_chk_before_acq False (sys_gl booted) a_map a_request empty_td = Inr (a_token, one_class, m)"
  by (simp add: engine_eval)

lemma first_held:
  "lock_chk_acqd a_token one_class empty_td =
     Inr (a_token\<lparr>t_active := False\<rparr>, one_class, push_held (held_of (Some 0) a_request) empty_td)"
  by (simp add: lock_chk_acqd_def engine_eval)

lemma second_acquire: "\<exists>m. lock_chk_before_acq False one_class a_map a_request empty_td = Inr (a_token, one_class, m)"
  by (simp add: engine_eval)

text \<open>Runs are built one step at a time.\<close>

lemma reachable_step: "sys_reachable s \<Longrightarrow> sys_step s s' \<Longrightarrow> sys_reachable s'"
  unfolding sys_reachable_def by (meson rtranclp.rtrancl_into_rtrancl)

lemma start_reachable: "sys_start s \<Longrightarrow> sys_reachable s"
  unfolding sys_reachable_def by blast

lemma waiting_reachable: "sys_reachable waiting"
proof -
  let ?s1 = "booted\<lparr>sys_gl := one_class, sys_ops := (sys_ops booted)(0 := [Acquiring a_token []])\<rparr>"
  let ?s2 = "booted\<lparr>sys_gl := one_class, sys_td := (sys_td booted)(0 := push_held (held_of (Some 0) a_request) empty_td)\<rparr>"
  have td: "sys_td booted t = empty_td" "sys_ops booted t = []" for t by (simp_all add: booted_def)
  have e: "held empty_td = []" by (simp add: empty_td_def)
  obtain m where m: "lock_chk_before_acq False (sys_gl booted) a_map a_request (sys_td booted 0) = Inr (a_token, one_class, m)"
    using first_acquire td by auto
  have 1: "sys_step booted ?s1" using sys_step.before_acq [OF a_request_ok m] by (simp add: td e)
  have a: "lock_chk_acqd a_token (sys_gl ?s1) (sys_td ?s1 0) =
     Inr (a_token\<lparr>t_active := False\<rparr>, one_class, push_held (held_of (Some 0) a_request) empty_td)"
    using first_held td by simp
  have "sys_step ?s1 (?s1\<lparr>sys_gl := one_class, sys_ops := (sys_ops ?s1)(0 := []), sys_td := (sys_td ?s1)(0 := push_held (held_of (Some 0) a_request) empty_td)\<rparr>)"
    by (rule sys_step.acqd [OF _ a]) simp
  moreover have "(sys_ops booted)(0 := []) = sys_ops booted" by (simp add: booted_def fun_eq_iff)
  ultimately have 2: "sys_step ?s1 ?s2" by simp
  obtain m' where m': "lock_chk_before_acq False (sys_gl ?s2) a_map a_request (sys_td ?s2 1) = Inr (a_token, one_class, m')"
    using second_acquire td by auto
  have 3: "sys_step ?s2 waiting" using sys_step.before_acq [OF a_request_ok m'] by (simp add: td e waiting_def booted_def)
  show ?thesis using reachable_step [OF reachable_step [OF reachable_step [OF start_reachable [OF booted_start] 1] 2] 3] .
qed

theorem no_circular_wait_witness:
  "sys_reachable waiting \<and> waits_on waiting 1 0 \<and> acyclic {(t, u). waits_on waiting t u}"
proof -
  have "waits_on waiting 1 0"
    by (simp add: waits_on_def waiting_def booted_def wanted_dep_def a_token_def a_request_def LOCK_CHKD_ORDER_def LOCK_OP_KIND_MASK_def
        LOCK_OP_KIND_BLOCKING_def push_held_def held_of_def lock_chk_modes_conflict_def empty_td_def)
  then show ?thesis using no_circular_wait [OF waiting_reachable] waiting_reachable by simp
qed

theorem engine_checks_hold_witness:
  "sys_reachable waiting \<and> request_ok False a_request \<and> sys_ops waiting 1 = [Acquiring a_token []] \<and>
   lock_chk_acqd a_token (sys_gl waiting) (sys_td waiting 1) \<noteq> Inl ENFORCE"
proof -
  have f: "sys_ops waiting 1 = [Acquiring a_token []]" "length (held (sys_td waiting 1)) \<le> length ([] :: lock_chk_held list)"
    by (simp_all add: waiting_def booted_def empty_td_def)
  show ?thesis using engine_checks_hold [OF waiting_reachable a_request_ok, of _ 1] waiting_reachable a_request_ok f by blast
qed

end
