(* ===== verification/Minheap.thy ===== *)
theory Minheap
  imports BitVec "HOL-Library.Monad_Syntax"
begin

text \<open>
  The binary heap of \<^verbatim>\<open>kernel/structures/minheap.c\<close>. Nodes are addresses; their key and index fields are
  the two maps of the state. The 32-bit index arithmetic is written out modulo \<open>2 ^ 32\<close>. A result \<open>None\<close>
  means an access outside the node array, or a loop that does not end; the theorems show that neither
  happens. The spin lock around the operations is left out.
\<close>

section \<open>The heap\<close>

definition MINHEAP_INIT_CAP :: nat where "MINHEAP_INIT_CAP = 32"
definition MINHEAP_INDEX_INVALID :: nat where "MINHEAP_INDEX_INVALID = 2 ^ 32 - 1"

abbreviation u32_wrap :: "nat \<Rightarrow> nat" where
  "u32_wrap n \<equiv> n mod 2 ^ 32"

record minheap =
  mh_nodes :: "nat list"
  mh_capacity :: nat
  mh_size :: nat
  mh_key :: "nat \<Rightarrow> u64"
  mh_index :: "nat \<Rightarrow> nat"

definition minheap_swap :: "minheap \<Rightarrow> nat \<Rightarrow> nat \<Rightarrow> minheap option" where
  "minheap_swap h a b =
     do {
       tmp \<leftarrow> rd (mh_nodes h) a;
       y \<leftarrow> rd (mh_nodes h) b;
       ns \<leftarrow> wr (mh_nodes h) a y;
       ns \<leftarrow> wr ns b tmp;
       x \<leftarrow> rd ns a;
       z \<leftarrow> rd ns b;
       Some (h\<lparr>mh_nodes := ns, mh_index := (mh_index h)(x := a, z := b)\<rparr>)
     }"

function minheap_sift_up :: "minheap \<Rightarrow> nat \<Rightarrow> minheap option" where
  "minheap_sift_up h idx =
     (if idx = 0 then Some h
      else let parent = (idx - 1) div 2
      in do {
        n \<leftarrow> rd (mh_nodes h) idx;
        p \<leftarrow> rd (mh_nodes h) parent;
        if mh_key h p \<le> mh_key h n then Some h
        else do { h \<leftarrow> minheap_swap h idx parent; minheap_sift_up h parent }
      })"
  by pat_completeness auto
termination by (relation "measure snd") auto

declare minheap_sift_up.simps [simp del]

text \<open>The child with the smaller key takes the place of \<open>smallest\<close> when it is below the size.\<close>

definition smaller_of :: "minheap \<Rightarrow> nat \<Rightarrow> nat \<Rightarrow> nat option" where
  "smaller_of h child smallest =
     (if child < mh_size h
      then do {
        c \<leftarrow> rd (mh_nodes h) child;
        s \<leftarrow> rd (mh_nodes h) smallest;
        Some (if mh_key h c < mh_key h s then child else smallest)
      }
      else Some smallest)"

partial_function (option) minheap_sift_down :: "minheap \<Rightarrow> nat \<Rightarrow> minheap option" where
  "minheap_sift_down h idx =
     do {
       s \<leftarrow> smaller_of h (u32_wrap (2 * idx + 1)) idx;
       s \<leftarrow> smaller_of h (u32_wrap (2 * idx + 2)) s;
       if s = idx then Some h
       else do { h \<leftarrow> minheap_swap h idx s; minheap_sift_down h s }
     }"

text \<open>The two allocations of a new heap may fail; the node fields are those of the memory.\<close>

definition minheap_create :: "bool \<Rightarrow> bool \<Rightarrow> (nat \<Rightarrow> u64) \<Rightarrow> (nat \<Rightarrow> nat) \<Rightarrow> minheap option" where
  "minheap_create got_heap got_nodes key index =
     (if \<not> got_heap \<or> \<not> got_nodes then None
      else Some \<lparr>mh_nodes = replicate MINHEAP_INIT_CAP 0, mh_capacity = MINHEAP_INIT_CAP, mh_size = 0,
                 mh_key = key, mh_index = index\<rparr>)"

text \<open>The old entries copied over a new block.\<close>

definition copy_nodes :: "nat list \<Rightarrow> nat list \<Rightarrow> nat \<Rightarrow> nat list option" where
  "copy_nodes block ns n = (if n \<le> length block \<and> n \<le> length ns then Some (take n ns @ drop n block) else None)"

text \<open>\<open>alloc n\<close> is a block of \<open>n\<close> entries with arbitrary contents, or a failure.\<close>

definition minheap_expand :: "(nat \<Rightarrow> nat list option) \<Rightarrow> minheap \<Rightarrow> nat \<Rightarrow> minheap option" where
  "minheap_expand alloc h new_size =
     (if new_size \<le> mh_capacity h then Some h
      else case alloc new_size of
        None \<Rightarrow> Some h
      | Some block \<Rightarrow>
          do { ns \<leftarrow> copy_nodes block (mh_nodes h) (mh_capacity h);
               Some (h\<lparr>mh_nodes := ns, mh_capacity := new_size\<rparr>) })"

definition minheap_grow :: "(nat \<Rightarrow> nat list option) \<Rightarrow> minheap \<Rightarrow> (bool \<times> minheap) option" where
  "minheap_grow alloc h =
     (if mh_capacity h \<le> mh_size h then
        let new_cap = u32_wrap (mh_capacity h * 2)
        in case alloc new_cap of
             None \<Rightarrow> Some (False, h)
           | Some block \<Rightarrow>
               do { ns \<leftarrow> copy_nodes block (mh_nodes h) (mh_capacity h);
                    Some (True, h\<lparr>mh_nodes := ns, mh_capacity := new_cap\<rparr>) }
      else Some (True, h))"

definition minheap_insert :: "(nat \<Rightarrow> nat list option) \<Rightarrow> minheap \<Rightarrow> nat \<Rightarrow> u64 \<Rightarrow> minheap option" where
  "minheap_insert alloc h node key =
     do {
       (grown, h) \<leftarrow> minheap_grow alloc h;
       if \<not> grown then Some h
       else do {
         let size = mh_size h;
         ns \<leftarrow> wr (mh_nodes h) size node;
         let h = h\<lparr>mh_index := (mh_index h)(node := size), mh_key := (mh_key h)(node := key),
                   mh_nodes := ns, mh_size := u32_wrap (size + 1)\<rparr>;
         minheap_sift_up h (mh_index h node)
       }
     }"

definition mark_invalid :: "nat \<Rightarrow> minheap \<Rightarrow> minheap" where
  "mark_invalid node h = h\<lparr>mh_index := (mh_index h)(node := MINHEAP_INDEX_INVALID)\<rparr>"

text \<open>The last entry moves to the place of a removed one.\<close>

definition move_last :: "minheap \<Rightarrow> nat \<Rightarrow> minheap option" where
  "move_last h idx =
     do {
       l \<leftarrow> rd (mh_nodes h) (mh_size h);
       ns \<leftarrow> wr (mh_nodes h) idx l;
       Some (h\<lparr>mh_nodes := ns, mh_index := (mh_index h)(l := idx)\<rparr>)
     }"

definition minheap_remove :: "minheap \<Rightarrow> nat \<Rightarrow> minheap option" where
  "minheap_remove h node =
     (let idx = mh_index h node
      in if mh_size h \<le> idx then Some h
         else let h = h\<lparr>mh_size := mh_size h - 1\<rparr>
         in do {
           h \<leftarrow> (if idx \<noteq> mh_size h
                 then do { h \<leftarrow> move_last h idx; h \<leftarrow> minheap_sift_down h idx; minheap_sift_up h idx }
                 else Some h);
           Some (mark_invalid node h)
         })"

definition minheap_peek :: "minheap \<Rightarrow> nat option option" where
  "minheap_peek h = (if mh_size h = 0 then Some None else map_option Some (rd (mh_nodes h) 0))"

definition minheap_pop :: "minheap \<Rightarrow> (nat option \<times> minheap) option" where
  "minheap_pop h =
     (if mh_size h = 0 then Some (None, h)
      else do {
        top \<leftarrow> rd (mh_nodes h) 0;
        let h = h\<lparr>mh_size := mh_size h - 1\<rparr>;
        h \<leftarrow> (if mh_size h > 0 then do { h \<leftarrow> move_last h 0; minheap_sift_down h 0 } else Some h);
        Some (Some top, mark_invalid top h)
      })"

definition minheap_node_valid :: "minheap \<Rightarrow> nat \<Rightarrow> bool" where
  "minheap_node_valid h node \<longleftrightarrow> mh_index h node \<noteq> MINHEAP_INDEX_INVALID"

section \<open>Heap order on an array of keys\<close>

definition par :: "nat \<Rightarrow> nat" where
  "par i = (i - 1) div 2"

lemma par_less: "0 < i \<Longrightarrow> par i < i"
  by (simp add: par_def)

lemma par_child: "0 < j \<Longrightarrow> par j = i \<longleftrightarrow> j = 2 * i + 1 \<or> j = 2 * i + 2"
  unfolding par_def by linarith

definition heap_order :: "(nat \<Rightarrow> 'a::linorder) \<Rightarrow> nat \<Rightarrow> bool" where
  "heap_order K n \<longleftrightarrow> (\<forall>j < n. 0 < j \<longrightarrow> K (par j) \<le> K j)"

definition above_children :: "(nat \<Rightarrow> 'a::linorder) \<Rightarrow> nat \<Rightarrow> nat \<Rightarrow> bool" where
  "above_children K n i \<longleftrightarrow> (0 < i \<longrightarrow> (\<forall>j < n. 0 < j \<longrightarrow> par j = i \<longrightarrow> K (par i) \<le> K j))"

text \<open>Order everywhere except above \<open>i\<close>, below \<open>i\<close>, or both.\<close>

definition order_but_up :: "(nat \<Rightarrow> 'a::linorder) \<Rightarrow> nat \<Rightarrow> nat \<Rightarrow> bool" where
  "order_but_up K n i \<longleftrightarrow> (\<forall>j < n. 0 < j \<longrightarrow> j \<noteq> i \<longrightarrow> K (par j) \<le> K j) \<and> above_children K n i"

definition order_but_down :: "(nat \<Rightarrow> 'a::linorder) \<Rightarrow> nat \<Rightarrow> nat \<Rightarrow> bool" where
  "order_but_down K n i \<longleftrightarrow> (\<forall>j < n. 0 < j \<longrightarrow> par j \<noteq> i \<longrightarrow> K (par j) \<le> K j) \<and> above_children K n i"

definition order_but_both :: "(nat \<Rightarrow> 'a::linorder) \<Rightarrow> nat \<Rightarrow> nat \<Rightarrow> bool" where
  "order_but_both K n i \<longleftrightarrow> (\<forall>j < n. 0 < j \<longrightarrow> j \<noteq> i \<longrightarrow> par j \<noteq> i \<longrightarrow> K (par j) \<le> K j) \<and> above_children K n i"

abbreviation swapped :: "(nat \<Rightarrow> 'a) \<Rightarrow> nat \<Rightarrow> nat \<Rightarrow> nat \<Rightarrow> 'a" where
  "swapped K a b \<equiv> K(a := K b, b := K a)"

lemma up_done: "order_but_up K n i \<Longrightarrow> i = 0 \<or> K (par i) \<le> K i \<Longrightarrow> heap_order K n"
  by (auto simp: order_but_up_def heap_order_def)

lemma up_step:
  assumes "order_but_up K n i" "0 < i" "i < n" "K i < K (par i)"
  shows "order_but_up (swapped K i (par i)) n (par i)"
proof -
  let ?p = "par i" and ?K = "swapped K i (par i)"
  have p: "?p < i" using assms(2) by (rule par_less)
  have o: "K (par j) \<le> K j" if "j < n" "0 < j" "j \<noteq> i" for j using assms(1) that by (simp add: order_but_up_def)
  have c: "K ?p \<le> K j" if "j < n" "0 < j" "par j = i" for j
    using assms(1,2) that by (simp add: order_but_up_def above_children_def)
  have "?K (par j) \<le> ?K j" if j: "j < n" "0 < j" "j \<noteq> ?p" for j
  proof (cases "j = i")
    case True
    then show ?thesis using assms(4) p by simp
  next
    case False
    have pj: "par j < j" using j(2) by (rule par_less)
    show ?thesis
      using False j o [OF j(1,2) False] c [OF j(1,2)] assms(4) by (cases "par j = i"; cases "par j = ?p") auto
  qed
  moreover have "above_children ?K n ?p"
    unfolding above_children_def
  proof (intro impI allI)
    fix j assume pp: "0 < ?p" and j: "j < n" "0 < j" "par j = ?p"
    have g: "par ?p < ?p" using pp by (rule par_less)
    have "K (par ?p) \<le> K ?p" using o [of ?p] pp p assms(3) by simp
    moreover have "K ?p \<le> K j" if "j \<noteq> i" using o [OF j(1,2) that] j(3) by simp
    moreover have "j \<noteq> ?p" using par_less [OF j(2)] j(3) by simp
    ultimately show "?K (par ?p) \<le> ?K j" using g p by (cases "j = i") auto
  qed
  ultimately show ?thesis by (simp add: order_but_up_def)
qed

lemma down_done:
  assumes "order_but_down K n i" "\<forall>j < n. 0 < j \<longrightarrow> par j = i \<longrightarrow> K i \<le> K j"
  shows "heap_order K n"
  using assms by (auto simp: order_but_down_def heap_order_def)

lemma both_done:
  assumes "order_but_both K n i" "\<forall>j < n. 0 < j \<longrightarrow> par j = i \<longrightarrow> K i \<le> K j"
  shows "order_but_up K n i"
  using assms by (auto simp: order_but_both_def order_but_up_def)

lemma heap_up: "heap_order K n \<Longrightarrow> i < n \<Longrightarrow> order_but_up K n i"
  unfolding order_but_up_def heap_order_def above_children_def by (metis order_trans)

text \<open>Moving the smallest child up moves the gap down.\<close>

lemma down_step:
  assumes "order_but_both K n i" "par c = i" "0 < c" "c < n" "K c < K i"
    and "\<forall>j < n. 0 < j \<longrightarrow> par j = i \<longrightarrow> K c \<le> K j"
  shows "order_but_down (swapped K i c) n c"
proof -
  let ?K = "swapped K i c"
  have ic: "i < c" using par_less [OF assms(3)] assms(2) by simp
  have o: "K (par j) \<le> K j" if "j < n" "0 < j" "j \<noteq> i" "par j \<noteq> i" for j
    using assms(1) that by (simp add: order_but_both_def)
  have a: "K (par i) \<le> K c" if "0 < i"
    using assms(1-4) that by (simp add: order_but_both_def above_children_def)
  have "?K (par j) \<le> ?K j" if j: "j < n" "0 < j" "par j \<noteq> c" for j
  proof (cases "par j = i")
    case True
    then show ?thesis using assms(5,6) j ic par_less [OF j(2)] by (cases "j = c") auto
  next
    case False
    then show ?thesis using o [OF j(1,2) _ False] a j ic par_less [OF j(2)] assms(2) by (cases "j = i"; cases "j = c") auto
  qed
  moreover have "above_children ?K n c"
    unfolding above_children_def
  proof (intro impI allI)
    fix j assume j: "j < n" "0 < j" "par j = c"
    have "c < j" using par_less [OF j(2)] j(3) by simp
    then show "?K (par c) \<le> ?K j" using o [OF j(1,2)] j(3) ic assms(2) by simp
  qed
  ultimately show ?thesis by (simp add: order_but_down_def)
qed

lemma down_both: "order_but_down K n i \<Longrightarrow> order_but_both K n i"
  by (simp add: order_but_down_def order_but_both_def)

section \<open>The shape of a heap\<close>

definition elems :: "minheap \<Rightarrow> nat set" where
  "elems h = set (take (mh_size h) (mh_nodes h))"

definition keyat :: "minheap \<Rightarrow> nat \<Rightarrow> u64" where
  "keyat h i = mh_key h (mh_nodes h ! i)"

definition shape :: "minheap \<Rightarrow> bool" where
  "shape h \<longleftrightarrow> mh_size h \<le> mh_capacity h \<and> mh_capacity h = length (mh_nodes h) \<and> 0 < mh_capacity h \<and> mh_capacity h < 2 ^ 32 \<and>
     mh_size h < 2 ^ 31 \<and> (\<forall>i < mh_size h. mh_index h (mh_nodes h ! i) = i)"

text \<open>Operations that only move nodes around.\<close>

definition moved :: "minheap \<Rightarrow> minheap \<Rightarrow> bool" where
  "moved h h' \<longleftrightarrow> shape h' \<and> elems h' = elems h \<and> mh_key h' = mh_key h \<and> mh_size h' = mh_size h \<and>
     mh_capacity h' = mh_capacity h \<and> (\<forall>n. n \<notin> elems h \<longrightarrow> mh_index h' n = mh_index h n)"

lemma moved_refl [simp]: "moved h h \<longleftrightarrow> shape h"
  by (simp add: moved_def)

lemma moved_trans: "moved h h' \<Longrightarrow> moved h' h'' \<Longrightarrow> moved h h''"
  by (simp add: moved_def)

lemma elems_nth: "shape h \<Longrightarrow> elems h = (\<lambda>i. mh_nodes h ! i) ` {..<mh_size h}"
  using nth_image [of "mh_size h" "mh_nodes h"] by (simp add: elems_def shape_def lessThan_atLeast0)

lemma swap_spec:
  assumes "shape h" "a < mh_size h" "b < mh_size h" "a \<noteq> b"
  shows "\<exists>h'. minheap_swap h a b = Some h' \<and> moved h h' \<and> keyat h' = swapped (keyat h) a b"
proof -
  let ?ns = "(mh_nodes h)[a := mh_nodes h ! b, b := mh_nodes h ! a]"
  let ?x = "mh_nodes h ! b" and ?z = "mh_nodes h ! a"
  let ?h = "h\<lparr>mh_nodes := ?ns, mh_index := (mh_index h)(?x := a, ?z := b)\<rparr>"
  have len: "a < length (mh_nodes h)" "b < length (mh_nodes h)" using assms by (auto simp: shape_def)
  have s: "minheap_swap h a b = Some ?h" using len assms(4) by (simp add: minheap_swap_def rd_def wr_def)
  have inj: "mh_nodes h ! i = mh_nodes h ! j \<longleftrightarrow> i = j" if "i < mh_size h" "j < mh_size h" for i j
    using assms(1) that unfolding shape_def by metis
  have nth: "?ns ! i = (if i = b then ?z else if i = a then ?x else mh_nodes h ! i)" for i
    using len by (auto simp: nth_list_update)
  have "(\<lambda>i. ?ns ! i) ` {..<mh_size h} = (\<lambda>i. mh_nodes h ! i) ` {..<mh_size h}"
    using assms(2-4) by (auto simp: nth image_iff)
  moreover have sh: "shape ?h"
    using assms inj by (auto simp: shape_def nth)
  ultimately have e: "elems ?h = elems h" using elems_nth [OF sh] elems_nth [OF assms(1)] by simp
  have "?x \<in> elems h" "?z \<in> elems h" using assms(1-3) by (auto simp: elems_nth)
  then have "moved h ?h" using sh e by (auto simp: moved_def)
  moreover have "keyat ?h = swapped (keyat h) a b" using assms(4) by (auto simp: keyat_def nth fun_eq_iff)
  ultimately show ?thesis using s by blast
qed

lemma rd_node: "shape h \<Longrightarrow> i < mh_size h \<Longrightarrow> rd (mh_nodes h) i = Some (mh_nodes h ! i)"
  by (simp add: shape_def rd_def)

lemma sift_up_spec:
  assumes "shape h" "idx < mh_size h" "order_but_up (keyat h) (mh_size h) idx"
  shows "\<exists>h'. minheap_sift_up h idx = Some h' \<and> moved h h' \<and> heap_order (keyat h') (mh_size h)"
  using assms
proof (induction idx arbitrary: h rule: less_induct)
  case (less idx)
  let ?p = "par idx"
  consider (root) "idx = 0" | (ok) "0 < idx" "keyat h ?p \<le> keyat h idx" | (move) "0 < idx" "keyat h idx < keyat h ?p" by fastforce
  then show ?case
  proof cases
    case root
    then show ?thesis using less.prems up_done [OF less.prems(3)] by (simp add: minheap_sift_up.simps)
  next
    case ok
    then have "minheap_sift_up h idx = Some h" using less.prems par_less [OF ok(1)]
      by (subst minheap_sift_up.simps) (simp add: rd_node keyat_def par_def)
    then show ?thesis using ok less.prems(1) up_done [OF less.prems(3)] by simp
  next
    case move
    have p: "?p < idx" "?p < mh_size h" "idx \<noteq> ?p" using par_less [OF move(1)] less.prems(2) by auto
    obtain h1 where h1: "minheap_swap h idx ?p = Some h1" "moved h h1" "keyat h1 = swapped (keyat h) idx ?p"
      using swap_spec [OF less.prems(1,2) p(2,3)] by blast
    have "order_but_up (keyat h1) (mh_size h1) ?p" "shape h1" "?p < mh_size h1" "mh_size h1 = mh_size h"
      using up_step [OF less.prems(3) move(1) less.prems(2) move(2)] h1(2,3) p(2) by (auto simp: moved_def)
    then obtain h' where "minheap_sift_up h1 ?p = Some h'" "moved h1 h'" "heap_order (keyat h') (mh_size h)"
      using less.IH [OF p(1), of h1] by auto
    moreover have "\<not> mh_key h (mh_nodes h ! ?p) \<le> mh_key h (mh_nodes h ! idx)" using move(2) by (simp add: keyat_def not_le)
    then have "minheap_sift_up h idx = minheap_sift_up h1 ?p" using move(1) less.prems(1,2) p h1(1)
      by (subst minheap_sift_up.simps) (simp add: rd_node par_def Let_def)
    ultimately show ?thesis using moved_trans [OF h1(2)] by auto
  qed
qed

lemma smaller_of_spec:
  assumes "shape h" "s < mh_size h"
  shows "\<exists>r. smaller_of h c s = Some r \<and> r < mh_size h \<and> (r = s \<or> r = c) \<and> keyat h r \<le> keyat h s \<and>
    (c < mh_size h \<longrightarrow> keyat h r \<le> keyat h c) \<and> (r \<noteq> s \<longrightarrow> keyat h r < keyat h s)"
  using assms by (auto simp: smaller_of_def rd_node keyat_def)

text \<open>The choice of one round: the position itself, or the child with the least key.\<close>

lemma sift_choice:
  assumes "shape h" "idx < mh_size h"
  shows "\<exists>s. minheap_sift_down h idx = (if s = idx then Some h else do { h \<leftarrow> minheap_swap h idx s; minheap_sift_down h s }) \<and>
    s < mh_size h \<and> (\<forall>j < mh_size h. 0 < j \<longrightarrow> par j = idx \<longrightarrow> keyat h s \<le> keyat h j) \<and>
    (s \<noteq> idx \<longrightarrow> par s = idx \<and> 0 < s \<and> keyat h s < keyat h idx)"
proof -
  have "idx < 2 ^ 31 - 1 \<or> idx = 2 ^ 31 - 1" "mh_size h < 2 ^ 31" using assms by (auto simp: shape_def)
  then have "idx < 2 ^ 31 - 1" using assms(2) by linarith
  then have w: "u32_wrap (2 * idx + 1) = 2 * idx + 1" "u32_wrap (2 * idx + 2) = 2 * idx + 2" by simp_all
  obtain s1 where s1: "smaller_of h (2 * idx + 1) idx = Some s1" "s1 < mh_size h" "s1 = idx \<or> s1 = 2 * idx + 1"
    "keyat h s1 \<le> keyat h idx" "2 * idx + 1 < mh_size h \<longrightarrow> keyat h s1 \<le> keyat h (2 * idx + 1)"
    "s1 \<noteq> idx \<longrightarrow> keyat h s1 < keyat h idx"
    using smaller_of_spec [OF assms, of "2 * idx + 1"] by blast
  obtain s2 where s2: "smaller_of h (2 * idx + 2) s1 = Some s2" "s2 < mh_size h" "s2 = s1 \<or> s2 = 2 * idx + 2"
    "keyat h s2 \<le> keyat h s1" "2 * idx + 2 < mh_size h \<longrightarrow> keyat h s2 \<le> keyat h (2 * idx + 2)"
    "s2 \<noteq> s1 \<longrightarrow> keyat h s2 < keyat h s1"
    using smaller_of_spec [OF assms(1) s1(2), of "2 * idx + 2"] by blast
  have e: "minheap_sift_down h idx = (if s2 = idx then Some h else do { h \<leftarrow> minheap_swap h idx s2; minheap_sift_down h s2 })"
    by (subst minheap_sift_down.simps) (simp only: w s1(1) s2(1) Option.bind.simps)
  have c: "\<forall>j < mh_size h. 0 < j \<longrightarrow> par j = idx \<longrightarrow> keyat h s2 \<le> keyat h j"
  proof (intro allI impI)
    fix j assume j: "j < mh_size h" "0 < j" "par j = idx"
    then have "j = 2 * idx + 1 \<or> j = 2 * idx + 2" using par_child by blast
    then show "keyat h s2 \<le> keyat h j" using s1(5) s2(4,5) j(1) by (elim disjE) auto
  qed
  have "par s2 = idx \<and> 0 < s2 \<and> keyat h s2 < keyat h idx" if n: "s2 \<noteq> idx"
  proof -
    have "s2 = 2 * idx + 1 \<or> s2 = 2 * idx + 2" using n s1(3) s2(3) by auto
    then show ?thesis using n s1(4,6) s2(6) par_child [of s2 idx] by auto
  qed
  then show ?thesis using e c s2(2) by blast
qed

lemma sift_down_heap:
  assumes "shape h" "idx < mh_size h" "order_but_down (keyat h) (mh_size h) idx"
  shows "\<exists>h'. minheap_sift_down h idx = Some h' \<and> moved h h' \<and> heap_order (keyat h') (mh_size h)"
  using assms
proof (induction "mh_size h - idx" arbitrary: h idx rule: less_induct)
  case less
  obtain s where s: "minheap_sift_down h idx = (if s = idx then Some h else do { h \<leftarrow> minheap_swap h idx s; minheap_sift_down h s })"
    "s < mh_size h" "\<forall>j < mh_size h. 0 < j \<longrightarrow> par j = idx \<longrightarrow> keyat h s \<le> keyat h j"
    "s \<noteq> idx \<longrightarrow> par s = idx \<and> 0 < s \<and> keyat h s < keyat h idx"
    using sift_choice [OF less.prems(1,2)] by blast
  show ?case
  proof (cases "s = idx")
    case True
    then show ?thesis using s less.prems down_done [OF less.prems(3)] by simp
  next
    case False
    have p: "par s = idx" "0 < s" "keyat h s < keyat h idx" using s(4) False by auto
    have lt: "idx < s" using par_less [OF p(2)] p(1) by simp
    obtain h1 where h1: "minheap_swap h idx s = Some h1" "moved h h1" "keyat h1 = swapped (keyat h) idx s"
      using swap_spec [OF less.prems(1,2) s(2)] False by blast
    have "order_but_down (keyat h1) (mh_size h1) s" "shape h1" "s < mh_size h1" "mh_size h1 = mh_size h"
      using down_step [OF down_both [OF less.prems(3)] p(1,2) s(2) p(3) s(3)] h1(2,3) s(2) by (auto simp: moved_def)
    then obtain h' where "minheap_sift_down h1 s = Some h'" "moved h1 h'" "heap_order (keyat h') (mh_size h)"
      using less.hyps [of h1 s] diff_less_mono2 [OF lt less.prems(2)] by auto
    then show ?thesis using s(1) False h1 moved_trans by auto
  qed
qed

lemma sift_down_up:
  assumes "shape h" "idx < mh_size h" "order_but_both (keyat h) (mh_size h) idx"
  shows "\<exists>h'. minheap_sift_down h idx = Some h' \<and> moved h h' \<and> order_but_up (keyat h') (mh_size h) idx"
proof -
  obtain s where s: "minheap_sift_down h idx = (if s = idx then Some h else do { h \<leftarrow> minheap_swap h idx s; minheap_sift_down h s })"
    "s < mh_size h" "\<forall>j < mh_size h. 0 < j \<longrightarrow> par j = idx \<longrightarrow> keyat h s \<le> keyat h j"
    "s \<noteq> idx \<longrightarrow> par s = idx \<and> 0 < s \<and> keyat h s < keyat h idx"
    using sift_choice [OF assms(1,2)] by blast
  show ?thesis
  proof (cases "s = idx")
    case True
    then show ?thesis using s assms both_done [OF assms(3)] by simp
  next
    case False
    have p: "par s = idx" "0 < s" "keyat h s < keyat h idx" using s(4) False by auto
    obtain h1 where h1: "minheap_swap h idx s = Some h1" "moved h h1" "keyat h1 = swapped (keyat h) idx s"
      using swap_spec [OF assms(1,2) s(2)] False by blast
    have "order_but_down (keyat h1) (mh_size h1) s" "shape h1" "s < mh_size h1" "mh_size h1 = mh_size h"
      using down_step [OF assms(3) p(1,2) s(2) p(3) s(3)] h1(2,3) s(2) by (auto simp: moved_def)
    then obtain h' where "minheap_sift_down h1 s = Some h'" "moved h1 h'" "heap_order (keyat h') (mh_size h)"
      using sift_down_heap [of h1 s] by auto
    then show ?thesis using s(1) False h1 moved_trans heap_up assms(2) by auto
  qed
qed

section \<open>The operations\<close>

definition mh_ok :: "minheap \<Rightarrow> bool" where
  "mh_ok h \<longleftrightarrow> shape h \<and> heap_order (keyat h) (mh_size h)"

lemma node_inj:
  assumes "shape h" "i < mh_size h" "j < mh_size h"
  shows "mh_nodes h ! i = mh_nodes h ! j \<longleftrightarrow> i = j"
  using assms unfolding shape_def by metis

lemma elem_index: "shape h \<Longrightarrow> n \<in> elems h \<Longrightarrow> mh_index h n < mh_size h \<and> mh_nodes h ! mh_index h n = n"
  by (auto simp: elems_nth) (auto simp: shape_def)

lemma root_least:
  assumes "heap_order K n" "i < n"
  shows "K 0 \<le> K i"
  using assms(2)
proof (induction i rule: less_induct)
  case (less i)
  show ?case
  proof (cases "i = 0")
    case False
    then have "K 0 \<le> K (par i)" using less par_less [of i] by auto
    also have "K (par i) \<le> K i" using assms(1) False less.prems by (simp add: heap_order_def)
    finally show ?thesis .
  qed simp
qed

lemma move_last_spec:
  assumes "mh_ok h" "mh_size h = Suc n" "idx < n"
  shows "\<exists>h'. move_last (h\<lparr>mh_size := n\<rparr>) idx = Some h' \<and> shape h' \<and> mh_size h' = n \<and>
    elems h' = elems h - {mh_nodes h ! idx} \<and> mh_key h' = mh_key h \<and> mh_capacity h' = mh_capacity h \<and>
    order_but_both (keyat h') n idx \<and> (\<forall>m. m \<notin> elems h' \<longrightarrow> mh_index h' m = mh_index h m)"
proof -
  let ?l = "mh_nodes h ! n"
  let ?h = "h\<lparr>mh_size := n, mh_nodes := (mh_nodes h)[idx := ?l], mh_index := (mh_index h)(?l := idx)\<rparr>"
  have sh: "shape h" using assms(1) by (simp add: mh_ok_def)
  have len: "n < length (mh_nodes h)" "idx < length (mh_nodes h)" using sh assms(2,3) by (auto simp: shape_def)
  have m: "move_last (h\<lparr>mh_size := n\<rparr>) idx = Some ?h" using len by (simp add: move_last_def rd_def wr_def)
  have nth: "(mh_nodes h)[idx := ?l] ! i = (if i = idx then ?l else mh_nodes h ! i)" for i using len by (auto simp: nth_list_update)
  have inj: "i < Suc n \<Longrightarrow> j < Suc n \<Longrightarrow> mh_nodes h ! i = mh_nodes h ! j \<longleftrightarrow> i = j" for i j
    using node_inj [OF sh] assms(2) by simp
  have s': "shape ?h" using sh assms(2,3) inj by (auto simp: shape_def nth)
  have "(\<lambda>i. (mh_nodes h)[idx := ?l] ! i) ` {..<n} = (\<lambda>i. mh_nodes h ! i) ` {..<Suc n} - {mh_nodes h ! idx}"
    using inj assms(3) by (auto simp: nth image_iff less_Suc_eq)
  then have e: "elems ?h = elems h - {mh_nodes h ! idx}" using elems_nth [OF s'] elems_nth [OF sh] assms(2) by simp
  have k: "keyat ?h = (keyat h)(idx := keyat h n)" by (auto simp: keyat_def nth fun_eq_iff)
  have o: "keyat h (par j) \<le> keyat h j" if "j < n" "0 < j" for j
    using assms(1,2) that by (simp add: mh_ok_def heap_order_def)
  have "order_but_both (keyat ?h) n idx"
    unfolding order_but_both_def above_children_def k
  proof (intro conjI allI impI)
    fix j assume i: "0 < idx" and j: "j < n" "0 < j" "par j = idx"
    have "keyat h (par idx) \<le> keyat h idx" "keyat h idx \<le> keyat h j" using o i assms(3) j by auto
    then show "((keyat h)(idx := keyat h n)) (par idx) \<le> ((keyat h)(idx := keyat h n)) j"
      using par_less [OF i] par_less [OF j(2)] j(3) by auto
  qed (use o in auto)
  moreover have "?l \<in> elems ?h" using assms(3) nth elems_nth [OF s'] by (auto simp: image_iff intro!: bexI [of _ idx])
  ultimately show ?thesis using m s' e by auto
qed

lemma both_root: "order_but_both K n 0 \<Longrightarrow> order_but_down K n 0"
  by (auto simp: order_but_both_def order_but_down_def)

lemma mark_invalid_simps [simp]:
  "mh_size (mark_invalid n h) = mh_size h" "mh_key (mark_invalid n h) = mh_key h" "elems (mark_invalid n h) = elems h"
  "keyat (mark_invalid n h) = keyat h" "mh_capacity (mark_invalid n h) = mh_capacity h"
  "mh_index (mark_invalid n h) m = (if m = n then MINHEAP_INDEX_INVALID else mh_index h m)"
  by (simp_all add: mark_invalid_def elems_def keyat_def fun_eq_iff)

lemma mark_invalid_shape: "shape h \<Longrightarrow> n \<notin> elems h \<Longrightarrow> shape (mark_invalid n h)"
  by (auto simp: elems_nth) (auto simp: shape_def mark_invalid_def)

text \<open>What taking one node out does to the rest.\<close>

definition taken_out :: "minheap \<Rightarrow> nat \<Rightarrow> minheap \<Rightarrow> bool" where
  "taken_out h n h' \<longleftrightarrow> mh_ok h' \<and> elems h' = elems h - {n} \<and> mh_key h' = mh_key h \<and> Suc (mh_size h') = mh_size h \<and>
     mh_index h' n = MINHEAP_INDEX_INVALID \<and> (\<forall>m. m \<notin> elems h \<longrightarrow> mh_index h' m = mh_index h m)"

lemma taken_out_last:
  assumes "mh_ok h" "mh_size h = Suc n" "node = mh_nodes h ! n"
  shows "taken_out h node (mark_invalid node (h\<lparr>mh_size := n\<rparr>))"
proof -
  have sh: "shape h" "heap_order (keyat h) (Suc n)" using assms(1,2) by (auto simp: mh_ok_def)
  have s': "shape (h\<lparr>mh_size := n\<rparr>)" using sh(1) assms(2) by (auto simp: shape_def)
  have e: "elems (h\<lparr>mh_size := n\<rparr>) = elems h - {node}"
    using node_inj [OF sh(1)] assms(2,3) elems_nth [OF s'] elems_nth [OF sh(1)] by (auto simp: less_Suc_eq)
  have "keyat (h\<lparr>mh_size := n\<rparr>) = keyat h" by (simp add: keyat_def fun_eq_iff)
  then show ?thesis using sh e assms mark_invalid_shape [OF s', of node]
    by (auto simp: taken_out_def mh_ok_def heap_order_def elems_nth)
qed

lemma taken_out_moved:
  assumes "shape h1" "mh_size h = Suc (mh_size h1)" "elems h1 = elems h - {node}" "mh_key h1 = mh_key h" "node \<in> elems h"
    and "\<forall>m. m \<notin> elems h1 \<longrightarrow> mh_index h1 m = mh_index h m" "moved h1 h2" "heap_order (keyat h2) (mh_size h1)"
  shows "taken_out h node (mark_invalid node h2)"
  using assms mark_invalid_shape [of h2 node] by (auto simp: taken_out_def mh_ok_def moved_def)

lemma remove_spec:
  assumes "mh_ok h" "node \<in> elems h"
  shows "\<exists>h'. minheap_remove h node = Some h' \<and> taken_out h node h'"
proof -
  have sh: "shape h" using assms(1) by (simp add: mh_ok_def)
  let ?i = "mh_index h node"
  have i: "?i < mh_size h" "mh_nodes h ! ?i = node" using elem_index [OF sh assms(2)] by auto
  obtain n where n: "mh_size h = Suc n" using i(1) by (cases "mh_size h") auto
  show ?thesis
  proof (cases "?i = n")
    case True
    then show ?thesis using taken_out_last [OF assms(1) n] i n by (simp add: minheap_remove_def Let_def)
  next
    case False
    then have lt: "?i < n" using i(1) n by simp
    obtain h1 where h1: "move_last (h\<lparr>mh_size := n\<rparr>) ?i = Some h1" "shape h1" "mh_size h1 = n" "elems h1 = elems h - {node}"
      "mh_key h1 = mh_key h" "order_but_both (keyat h1) n ?i" "\<forall>m. m \<notin> elems h1 \<longrightarrow> mh_index h1 m = mh_index h m"
      using move_last_spec [OF assms(1) n lt] i(2) by auto
    obtain h2 where h2: "minheap_sift_down h1 ?i = Some h2" "moved h1 h2" "order_but_up (keyat h2) n ?i"
      using sift_down_up [OF h1(2)] h1(3,6) lt by auto
    obtain h3 where h3: "minheap_sift_up h2 ?i = Some h3" "moved h2 h3" "heap_order (keyat h3) n"
      using sift_up_spec [of h2 ?i] h2(2,3) h1(3) lt by (auto simp: moved_def)
    have "taken_out h node (mark_invalid node h3)"
      using taken_out_moved [OF h1(2) _ h1(4,5) assms(2) h1(7) moved_trans [OF h2(2) h3(2)]] n h1(3) h3(3) by simp
    then show ?thesis using i n lt h1(1) h2(1) h3(1) False by (simp add: minheap_remove_def Let_def)
  qed
qed

lemma pop_spec:
  assumes "mh_ok h" "elems h \<noteq> {}"
  shows "\<exists>node h'. minheap_pop h = Some (Some node, h') \<and> node \<in> elems h \<and> (\<forall>m \<in> elems h. mh_key h node \<le> mh_key h m) \<and>
    taken_out h node h'"
proof -
  have sh: "shape h" and o: "heap_order (keyat h) (mh_size h)" using assms(1) by (auto simp: mh_ok_def)
  obtain n where n: "mh_size h = Suc n" using assms(2) elems_nth [OF sh] by (cases "mh_size h") auto
  let ?t = "mh_nodes h ! 0"
  have t: "?t \<in> elems h" "\<forall>m \<in> elems h. mh_key h ?t \<le> mh_key h m"
    using root_least [OF o] n by (auto simp: elems_nth [OF sh] keyat_def)
  have rd: "rd (mh_nodes h) 0 = Some ?t" using rd_node [OF sh, of 0] n by simp
  have "\<exists>h'. minheap_pop h = Some (Some ?t, h') \<and> taken_out h ?t h'"
  proof (cases n)
    case 0
    then show ?thesis using taken_out_last [OF assms(1) n, of ?t] n by (simp add: minheap_pop_def rd)
  next
    case (Suc k)
    then obtain h1 where h1: "move_last (h\<lparr>mh_size := n\<rparr>) 0 = Some h1" "shape h1" "mh_size h1 = n" "elems h1 = elems h - {?t}"
      "mh_key h1 = mh_key h" "order_but_both (keyat h1) n 0" "\<forall>m. m \<notin> elems h1 \<longrightarrow> mh_index h1 m = mh_index h m"
      using move_last_spec [OF assms(1) n, of 0] by auto
    obtain h2 where h2: "minheap_sift_down h1 0 = Some h2" "moved h1 h2" "heap_order (keyat h2) n"
      using sift_down_heap [OF h1(2), of 0] both_root [OF h1(6)] h1(3) Suc by auto
    have "taken_out h ?t (mark_invalid ?t h2)" using taken_out_moved [OF h1(2) _ h1(4,5) t(1) h1(7) h2(2)] n h1(3) h2(3) by simp
    then show ?thesis using n Suc h1(1) h2(1) by (simp add: minheap_pop_def rd)
  qed
  then show ?thesis using t by blast
qed

lemma pop_empty: "mh_ok h \<Longrightarrow> elems h = {} \<Longrightarrow> minheap_pop h = Some (None, h)"
  by (auto simp: minheap_pop_def mh_ok_def elems_nth)

lemma peek_spec:
  assumes "mh_ok h"
  shows "minheap_peek h = Some (if elems h = {} then None else Some (mh_nodes h ! 0))"
  using assms by (auto simp: minheap_peek_def mh_ok_def elems_nth rd_node)

definition blocks_ok :: "(nat \<Rightarrow> nat list option) \<Rightarrow> bool" where
  "blocks_ok alloc \<longleftrightarrow> (\<forall>n b. alloc n = Some b \<longrightarrow> length b = n)"

lemma copied_ok:
  assumes "mh_ok h" "length b = c" "mh_capacity h \<le> c" "c < 2 ^ 32"
  shows "\<exists>ns. copy_nodes b (mh_nodes h) (mh_capacity h) = Some ns \<and>
    (let h' = h\<lparr>mh_nodes := ns, mh_capacity := c\<rparr> in mh_ok h' \<and> elems h' = elems h)"
proof -
  let ?ns = "take (mh_capacity h) (mh_nodes h) @ drop (mh_capacity h) b"
  let ?h = "h\<lparr>mh_nodes := ?ns, mh_capacity := c\<rparr>"
  have sh: "shape h" "heap_order (keyat h) (mh_size h)" using assms(1) by (auto simp: mh_ok_def)
  have nth: "?ns ! i = mh_nodes h ! i" if "i < mh_size h" for i using that sh(1) by (auto simp: shape_def nth_append)
  have s': "shape ?h" using sh(1) nth assms(2-4) by (auto simp: shape_def)
  have "elems ?h = elems h" using elems_nth [OF s'] elems_nth [OF sh(1)] nth by auto
  moreover have "heap_order (keyat ?h) (mh_size ?h)"
    unfolding heap_order_def
  proof (intro allI impI)
    fix j assume j: "j < mh_size ?h" "0 < j"
    then have "par j < mh_size h" "j < mh_size h" using par_less [OF j(2)] by auto
    then show "keyat ?h (par j) \<le> keyat ?h j" using nth sh(2) j(2) by (simp add: keyat_def heap_order_def)
  qed
  ultimately show ?thesis using s' assms(2,3) sh(1) by (simp add: copy_nodes_def mh_ok_def shape_def Let_def)
qed

lemma grow_spec:
  assumes "mh_ok h" "blocks_ok alloc" "mh_size h + 1 < 2 ^ 31"
  shows "\<exists>ok h'. minheap_grow alloc h = Some (ok, h') \<and> mh_ok h' \<and> elems h' = elems h \<and> mh_key h' = mh_key h \<and>
    mh_size h' = mh_size h \<and> mh_index h' = mh_index h \<and> (ok \<longrightarrow> mh_size h < mh_capacity h') \<and>
    (\<not> ok \<longrightarrow> h' = h \<and> alloc (2 * mh_capacity h) = None)"
proof (cases "mh_capacity h \<le> mh_size h")
  case True
  let ?c = "mh_capacity h * 2"
  have c: "?c < 2 ^ 32" "0 < mh_capacity h" "mh_capacity h = mh_size h"
    using True assms(1,3) by (auto simp: mh_ok_def shape_def)
  show ?thesis
  proof (cases "alloc ?c")
    case None
    then show ?thesis using True c assms(1) by (auto simp: minheap_grow_def Let_def mult.commute)
  next
    case (Some b)
    then have "length b = ?c" using assms(2) by (simp add: blocks_ok_def)
    then obtain ns where "copy_nodes b (mh_nodes h) (mh_capacity h) = Some ns"
      "mh_ok (h\<lparr>mh_nodes := ns, mh_capacity := ?c\<rparr>)" "elems (h\<lparr>mh_nodes := ns, mh_capacity := ?c\<rparr>) = elems h"
      using copied_ok [OF assms(1), of b ?c] c by (auto simp: Let_def)
    then show ?thesis using True Some c by (intro exI [of _ True]) (simp add: minheap_grow_def Let_def)
  qed
next
  case False
  then show ?thesis using assms(1) by (intro exI [of _ True]) (simp add: minheap_grow_def)
qed

lemma insert_spec:
  assumes "mh_ok h" "blocks_ok alloc" "mh_size h + 1 < 2 ^ 31" "node \<notin> elems h"
  shows "\<exists>h'. minheap_insert alloc h node key = Some h' \<and> mh_ok h' \<and>
    (h' = h \<and> alloc (2 * mh_capacity h) = None \<or>
     elems h' = insert node (elems h) \<and> mh_key h' = (mh_key h)(node := key) \<and> mh_size h' = mh_size h + 1 \<and>
     (\<forall>m. m \<notin> elems h' \<longrightarrow> mh_index h' m = mh_index h m))"
proof -
  obtain ok h1 where g: "minheap_grow alloc h = Some (ok, h1)" "mh_ok h1" "elems h1 = elems h" "mh_key h1 = mh_key h"
    "mh_size h1 = mh_size h" "mh_index h1 = mh_index h" "ok \<longrightarrow> mh_size h < mh_capacity h1"
    "\<not> ok \<longrightarrow> h1 = h \<and> alloc (2 * mh_capacity h) = None"
    using grow_spec [OF assms(1-3)] by blast
  show ?thesis
  proof (cases ok)
    case False
    then show ?thesis using g by (simp add: minheap_insert_def)
  next
    case True
    let ?n = "mh_size h"
    let ?ns = "(mh_nodes h1)[?n := node]"
    let ?h = "h1\<lparr>mh_index := (mh_index h1)(node := ?n), mh_key := (mh_key h1)(node := key), mh_nodes := ?ns, mh_size := ?n + 1\<rparr>"
    have sh: "shape h1" and o: "heap_order (keyat h1) ?n" using g(2,5) by (auto simp: mh_ok_def)
    have len: "?n < length (mh_nodes h1)" using g(7) True sh by (simp add: shape_def)
    have nth: "?ns ! i = (if i = ?n then node else mh_nodes h1 ! i)" for i using len by (auto simp: nth_list_update)
    have out: "mh_nodes h1 ! i \<noteq> node" if "i < ?n" for i using that assms(4) g(3,5) elems_nth [OF sh] by auto
    have s': "shape ?h" using sh assms(3) g(5) len out by (auto simp: shape_def nth less_Suc_eq)
    have "elems ?h = insert node (elems h1)"
      using elems_nth [OF s'] elems_nth [OF sh] g(5) by (auto simp: nth less_Suc_eq)
    then have e: "elems ?h = insert node (elems h)" using g(3) by simp
    have k: "keyat ?h i = keyat h1 i" if "i < ?n" for i using that out by (simp add: keyat_def nth)
    have "order_but_up (keyat ?h) (mh_size ?h) ?n"
      unfolding order_but_up_def above_children_def
    proof (intro conjI allI impI)
      fix j assume "j < mh_size ?h" "0 < j" "j \<noteq> ?n"
      then have "j < ?n" "par j < ?n" "0 < j" using par_less [of j] by auto
      then show "keyat ?h (par j) \<le> keyat ?h j" using o k by (simp add: heap_order_def)
    next
      fix j assume "j < mh_size ?h" "0 < j" "par j = ?n"
      then show "keyat ?h (par ?n) \<le> keyat ?h j" using par_less [of j] by auto
    qed
    then obtain h' where h': "minheap_sift_up ?h ?n = Some h'" "moved ?h h'" "heap_order (keyat h') (mh_size ?h)"
      using sift_up_spec [OF s', of ?n] by auto
    have "minheap_insert alloc h node key = Some h'"
      using g(1,5) True len h'(1) assms(3) by (simp add: minheap_insert_def wr_def)
    moreover have "mh_ok h'" "elems h' = insert node (elems h)" "mh_key h' = (mh_key h)(node := key)" "mh_size h' = ?n + 1"
      "\<forall>m. m \<notin> elems h' \<longrightarrow> mh_index h' m = mh_index h m"
      using h'(2,3) e g(4,6) by (auto simp: moved_def mh_ok_def)
    ultimately show ?thesis by blast
  qed
qed

section \<open>The contract of a queue ordered by keys\<close>

fun drain :: "('h \<Rightarrow> ('n option \<times> 'h) option) \<Rightarrow> nat \<Rightarrow> 'h \<Rightarrow> 'n list option" where
  "drain pop 0 h = Some []"
| "drain pop (Suc k) h =
     (case pop h of
        None \<Rightarrow> None
      | Some (None, h') \<Rightarrow> Some []
      | Some (Some n, h') \<Rightarrow> map_option (Cons n) (drain pop k h'))"

locale key_queue =
  fixes inv :: "'h \<Rightarrow> bool" and members :: "'h \<Rightarrow> 'n set" and key :: "'h \<Rightarrow> 'n \<Rightarrow> 'k::linorder"
    and pop :: "'h \<Rightarrow> ('n option \<times> 'h) option" and del :: "'h \<Rightarrow> 'n \<Rightarrow> 'h option"
  assumes finite_members: "inv h \<Longrightarrow> finite (members h)"
    and pop_none: "inv h \<Longrightarrow> members h = {} \<Longrightarrow> pop h = Some (None, h)"
    and pop_some: "inv h \<Longrightarrow> members h \<noteq> {} \<Longrightarrow> \<exists>n h'. pop h = Some (Some n, h') \<and> n \<in> members h \<and>
        (\<forall>m \<in> members h. key h n \<le> key h m) \<and> inv h' \<and> members h' = members h - {n} \<and> key h' = key h"
    and del_some: "inv h \<Longrightarrow> n \<in> members h \<Longrightarrow> \<exists>h'. del h n = Some h' \<and> inv h' \<and> members h' = members h - {n} \<and> key h' = key h"
begin

lemma drain_sorted:
  assumes "inv h"
  shows "\<exists>ns. drain pop (Suc (card (members h))) h = Some ns \<and> set ns = members h \<and> distinct ns \<and> sorted (map (key h) ns)"
  using assms
proof (induction "card (members h)" arbitrary: h)
  case 0
  then have "members h = {}" using finite_members by simp
  then show ?case using pop_none [OF 0(2)] by simp
next
  case (Suc k)
  then have "members h \<noteq> {}" by auto
  then obtain n h' where p: "pop h = Some (Some n, h')" "n \<in> members h" "\<forall>m \<in> members h. key h n \<le> key h m" "inv h'"
    "members h' = members h - {n}" "key h' = key h" using pop_some [OF Suc.prems] by blast
  have "k = card (members h')" using Suc.hyps(2) p(2,5) finite_members [OF Suc.prems] by simp
  then obtain ns where ns: "drain pop (Suc k) h' = Some ns" "set ns = members h'" "distinct ns" "sorted (map (key h') ns)"
    using Suc.hyps(1) [OF _ p(4)] by blast
  have "drain pop (Suc (card (members h))) h = Some (n # ns)"
    using ns(1) p(1) unfolding Suc.hyps(2) [symmetric] by (simp only: drain.simps option.case prod.case option.map)
  then show ?case using ns p by (intro exI [of _ "n # ns"]) auto
qed

lemma del_drain_sorted:
  assumes "inv h" "n \<in> members h"
  shows "\<exists>h' ns. del h n = Some h' \<and> drain pop (card (members h)) h' = Some ns \<and> set ns = members h - {n} \<and>
    distinct ns \<and> sorted (map (key h) ns)"
proof -
  obtain h' where h': "del h n = Some h'" "inv h'" "members h' = members h - {n}" "key h' = key h"
    using del_some [OF assms] by blast
  have "Suc (card (members h')) = card (members h)"
    using h'(3) assms(2) finite_members [OF assms(1)] by (metis card_Suc_Diff1)
  then show ?thesis using drain_sorted [OF h'(2)] h' by auto
qed

end

interpretation mh: key_queue mh_ok elems mh_key minheap_pop minheap_remove
proof unfold_locales
  fix h assume ok: "mh_ok h"
  show "finite (elems h)" by (simp add: elems_def)
  show "elems h = {} \<Longrightarrow> minheap_pop h = Some (None, h)" by (rule pop_empty [OF ok])
  show "\<exists>n h'. minheap_pop h = Some (Some n, h') \<and> n \<in> elems h \<and> (\<forall>m \<in> elems h. mh_key h n \<le> mh_key h m) \<and>
      mh_ok h' \<and> elems h' = elems h - {n} \<and> mh_key h' = mh_key h" if "elems h \<noteq> {}"
    using pop_spec [OF ok that] by (auto simp: taken_out_def)
  show "\<exists>h'. minheap_remove h n = Some h' \<and> mh_ok h' \<and> elems h' = elems h - {n} \<and> mh_key h' = mh_key h" if "n \<in> elems h" for n
    using remove_spec [OF ok that] by (auto simp: taken_out_def)
qed

text \<open>
  C13. The heap is a priority queue: taking nodes out until it is empty gives every node in the
  heap exactly once, in the order of their keys.
\<close>

theorem minheap_drain_sorted:
  assumes "mh_ok h"
  shows "\<exists>ns. drain minheap_pop (Suc (card (elems h))) h = Some ns \<and> set ns = elems h \<and> distinct ns \<and> sorted (map (mh_key h) ns)"
  using assms by (rule mh.drain_sorted)

section \<open>The heap implements a map from nodes to keys\<close>

definition key_map :: "minheap \<Rightarrow> nat \<rightharpoonup> u64" where
  "key_map h n = (if n \<in> elems h then Some (mh_key h n) else None)"

text \<open>
  C9. The heap implements a map from its nodes to their keys. On a well-formed heap with room for one
  more index, no operation leaves the node array and every loop ends. Inserting a node adds it with its key,
  unless the array is full and cannot be doubled, in which case nothing changes; removing a node deletes
  it and marks it, and a node that is not in the heap is left alone; taking out the first
  node deletes one of least key. The heap stays well-formed.
\<close>

theorem minheap_implements_map:
  assumes "mh_ok h" "blocks_ok alloc" "mh_size h + 1 < 2 ^ 31"
  shows "(n \<notin> elems h \<longrightarrow> (\<exists>h'. minheap_insert alloc h n k = Some h' \<and> mh_ok h' \<and>
      (key_map h' = (key_map h)(n \<mapsto> k) \<or> h' = h \<and> alloc (2 * mh_capacity h) = None))) \<and>
    (n \<in> elems h \<or> mh_index h n = MINHEAP_INDEX_INVALID \<longrightarrow>
      (\<exists>h'. minheap_remove h n = Some h' \<and> mh_ok h' \<and> key_map h' = (key_map h)(n := None) \<and> \<not> minheap_node_valid h' n)) \<and>
    (key_map h \<noteq> Map.empty \<longrightarrow> (\<exists>t h'. minheap_pop h = Some (Some t, h') \<and> mh_ok h' \<and> key_map h' = (key_map h)(t := None) \<and>
      (\<exists>k. key_map h t = Some k \<and> (\<forall>k' \<in> ran (key_map h). k \<le> k'))))"
proof (intro conjI impI)
  assume "n \<notin> elems h"
  then show "\<exists>h'. minheap_insert alloc h n k = Some h' \<and> mh_ok h' \<and>
      (key_map h' = (key_map h)(n \<mapsto> k) \<or> h' = h \<and> alloc (2 * mh_capacity h) = None)"
    using insert_spec [OF assms(1-3), of n k] by (fastforce simp: key_map_def fun_eq_iff)
next
  assume n: "n \<in> elems h \<or> mh_index h n = MINHEAP_INDEX_INVALID"
  have lt: "mh_size h < MINHEAP_INDEX_INVALID" using assms(3) by (simp add: MINHEAP_INDEX_INVALID_def)
  show "\<exists>h'. minheap_remove h n = Some h' \<and> mh_ok h' \<and> key_map h' = (key_map h)(n := None) \<and> \<not> minheap_node_valid h' n"
  proof (cases "n \<in> elems h")
    case True
    then show ?thesis using remove_spec [OF assms(1)] by (fastforce simp: key_map_def taken_out_def minheap_node_valid_def fun_eq_iff)
  next
    case False
    then show ?thesis using n lt assms(1) by (auto simp: minheap_remove_def key_map_def minheap_node_valid_def fun_eq_iff)
  qed
next
  assume "key_map h \<noteq> Map.empty"
  then have ne: "elems h \<noteq> {}" by (auto simp: key_map_def fun_eq_iff)
  obtain t h' where t: "minheap_pop h = Some (Some t, h')" "t \<in> elems h" "\<forall>m \<in> elems h. mh_key h t \<le> mh_key h m" "taken_out h t h'"
    using pop_spec [OF assms(1) ne] by blast
  have "key_map h' = (key_map h)(t := None)" using t(4) by (auto simp: key_map_def taken_out_def fun_eq_iff)
  moreover have "key_map h t = Some (mh_key h t)" "\<forall>k' \<in> ran (key_map h). mh_key h t \<le> k'"
    using t(2,3) by (auto simp: key_map_def ran_def split: if_splits)
  ultimately show "\<exists>t h'. minheap_pop h = Some (Some t, h') \<and> mh_ok h' \<and> key_map h' = (key_map h)(t := None) \<and>
      (\<exists>k. key_map h t = Some k \<and> (\<forall>k' \<in> ran (key_map h). k \<le> k'))"
    using t(1,4) by (auto simp: taken_out_def)
qed

section \<open>A concrete heap\<close>

definition three :: minheap where
  "three = \<lparr>mh_nodes = [7, 9, 8] @ replicate 29 0, mh_capacity = 32, mh_size = 3,
     mh_key = (\<lambda>n. if n = 7 then 1 else if n = 9 then 5 else 2),
     mh_index = (\<lambda>n. if n = 7 then 0 else if n = 9 then 1 else if n = 8 then 2 else MINHEAP_INDEX_INVALID)\<rparr>"

lemma three_elems: "elems three = {7, 8, 9}"
  by (auto simp: elems_def three_def)

lemma three_ok: "mh_ok three"
proof -
  have "shape three" by (auto simp: shape_def three_def less_Suc_eq numeral_3_eq_3)
  moreover have "heap_order (keyat three) (mh_size three)"
    by (auto simp: heap_order_def keyat_def par_def three_def less_Suc_eq numeral_3_eq_3)
  ultimately show ?thesis by (simp add: mh_ok_def)
qed

theorem minheap_drain_sorted_witness:
  "mh_ok three \<and> (\<exists>ns. drain minheap_pop 4 three = Some ns \<and> set ns = {7, 8, 9} \<and> sorted (map (mh_key three) ns))"
proof -
  have "Suc (card (elems three)) = 4" by (simp add: three_elems)
  then show ?thesis using minheap_drain_sorted [OF three_ok] three_ok unfolding three_elems by metis
qed

theorem minheap_implements_map_witness:
  "mh_ok three \<and> 9 \<in> elems three \<and>
   (\<exists>h'. minheap_insert (\<lambda>n. Some (replicate n 0)) three 5 3 = Some h' \<and> mh_ok h' \<and> key_map h' 5 = Some 3) \<and>
   (\<exists>h'. minheap_remove three 9 = Some h' \<and> key_map h' = (key_map three)(9 := None))"
proof -
  have b: "blocks_ok (\<lambda>n. Some (replicate n 0))" "mh_size three + 1 < 2 ^ 31" by (simp_all add: blocks_ok_def three_def)
  have "5 \<notin> elems three" "9 \<in> elems three" by (simp_all add: three_elems)
  then show ?thesis
    using minheap_implements_map [OF three_ok b, of 5 3] minheap_implements_map [OF three_ok b, of 9 3] three_ok by auto
qed

end
