(* ===== verification/Buddy.thy ===== *)
theory Buddy
  imports BitVec "HOL-Library.Monad_Syntax"
begin

text \<open>
  The buddy allocator of physical pages, \<^verbatim>\<open>kernel/mem/buddy/core.c\<close> and its \<^verbatim>\<open>internal.h\<close>. A page is its frame
  number; a null pointer is \<open>None\<close>. The page array holds the 64-bit descriptors, whose fields are read and written with
  the masks of the source; the back link of a free block lives in the free memory itself. A result \<open>None\<close> means a
  null dereference, a failed assertion, or a loop that does not end. \<open>Inl\<close> is a panic of the allocator.
\<close>

section \<open>Page descriptors\<close>

definition BIT :: "nat \<Rightarrow> u64" where "BIT n = push_bit n 1"

definition PAGE_TAG_MASK :: u64 where "PAGE_TAG_MASK = 7"
definition PAGE_TAG_NONE :: u64 where "PAGE_TAG_NONE = 0"
definition PAGE_TAG_BUDDY :: u64 where "PAGE_TAG_BUDDY = 1"
definition BUDDY_IS_FREE_MASK :: u64 where "BUDDY_IS_FREE_MASK = BIT 3"
definition BUDDY_IS_ZEROED_MASK :: u64 where "BUDDY_IS_ZEROED_MASK = BIT 4"
definition BUDDY_ORDER_MASK :: u64 where "BUDDY_ORDER_MASK = push_bit 5 (BIT 7 - 1)"
definition BUDDY_NEXT_PFN_MASK :: u64 where "BUDDY_NEXT_PFN_MASK = push_bit 12 (BIT 52 - 1)"
definition BUDDY_MAX_ORDER :: nat where "BUDDY_MAX_ORDER = 18"
definition PAGE_BYTES :: nat where "PAGE_BYTES = 4096"

definition page_get_tag :: "u64 \<Rightarrow> u64" where
  "page_get_tag meta = meta AND PAGE_TAG_MASK"

definition page_set_tag :: "u64 \<Rightarrow> u64 \<Rightarrow> u64" where
  "page_set_tag tag meta = (meta AND NOT PAGE_TAG_MASK) OR (tag AND PAGE_TAG_MASK)"

definition buddy_page_get_order :: "u64 \<Rightarrow> u64" where
  "buddy_page_get_order meta = drop_bit 5 (meta AND BUDDY_ORDER_MASK)"

definition buddy_page_set_order :: "u64 \<Rightarrow> u64 \<Rightarrow> u64" where
  "buddy_page_set_order order meta = (meta AND NOT BUDDY_ORDER_MASK) OR (push_bit 5 order AND BUDDY_ORDER_MASK)"

definition buddy_page_get_next_pfn :: "u64 \<Rightarrow> u64" where
  "buddy_page_get_next_pfn meta = drop_bit 12 (meta AND BUDDY_NEXT_PFN_MASK)"

definition buddy_page_set_next_pfn :: "u64 \<Rightarrow> u64 \<Rightarrow> u64" where
  "buddy_page_set_next_pfn pfn meta = (meta AND NOT BUDDY_NEXT_PFN_MASK) OR (push_bit 12 pfn AND BUDDY_NEXT_PFN_MASK)"

definition buddy_page_is_free :: "u64 \<Rightarrow> bool" where
  "buddy_page_is_free meta \<longleftrightarrow> page_get_tag meta = PAGE_TAG_BUDDY \<and> meta AND BUDDY_IS_FREE_MASK \<noteq> 0"

definition buddy_page_set_free :: "bool \<Rightarrow> u64 \<Rightarrow> u64" where
  "buddy_page_set_free is_free meta = (meta AND NOT BUDDY_IS_FREE_MASK) OR (if is_free then BUDDY_IS_FREE_MASK else 0)"

definition buddy_page_is_zeroed :: "u64 \<Rightarrow> bool" where
  "buddy_page_is_zeroed meta \<longleftrightarrow> meta AND BUDDY_IS_ZEROED_MASK \<noteq> 0"

definition buddy_page_set_zeroed :: "bool \<Rightarrow> u64 \<Rightarrow> u64" where
  "buddy_page_set_zeroed is_zeroed meta = (meta AND NOT BUDDY_IS_ZEROED_MASK) OR (if is_zeroed then BUDDY_IS_ZEROED_MASK else 0)"

section \<open>The allocator's state\<close>

record buddy_free_area =
  fa_head :: "nat option"
  fa_tail :: "nat option"
  nr_free :: u64

record buddy =
  page_array :: "u64 list"
  free_link :: "nat \<Rightarrow> nat option"
  free_area :: "buddy_free_area list"

definition page_for_pfn :: "buddy \<Rightarrow> nat \<Rightarrow> nat option" where
  "page_for_pfn b pfn = (if pfn < length (page_array b) then Some pfn else None)"

text \<open>Read and write one descriptor; a page outside the array is a null pointer.\<close>

definition meta_of :: "buddy \<Rightarrow> nat \<Rightarrow> u64 option" where
  "meta_of b p = rd (page_array b) p"

definition upd_meta :: "nat \<Rightarrow> (u64 \<Rightarrow> u64) \<Rightarrow> buddy \<Rightarrow> buddy option" where
  "upd_meta p f b = do { m \<leftarrow> meta_of b p; ps \<leftarrow> wr (page_array b) p (f m); Some (b\<lparr>page_array := ps\<rparr>) }"

definition buddy_page_set_next :: "nat \<Rightarrow> nat option \<Rightarrow> buddy \<Rightarrow> buddy option" where
  "buddy_page_set_next p n b = upd_meta p (buddy_page_set_next_pfn (case n of None \<Rightarrow> 0 | Some q \<Rightarrow> of_nat q)) b"

definition buddy_page_get_next :: "nat \<Rightarrow> buddy \<Rightarrow> nat option option" where
  "buddy_page_get_next p b =
     do { m \<leftarrow> meta_of b p;
          let pfn = buddy_page_get_next_pfn m;
          Some (if pfn = 0 then None else page_for_pfn b (unat pfn)) }"

definition buddy_page_get_prev :: "nat \<Rightarrow> buddy \<Rightarrow> nat option" where
  "buddy_page_get_prev p b = free_link b p"

definition buddy_page_set_prev :: "nat \<Rightarrow> nat option \<Rightarrow> buddy \<Rightarrow> buddy" where
  "buddy_page_set_prev p q b = b\<lparr>free_link := (free_link b)(p := q)\<rparr>"

definition buddy_page_assert_tag :: "nat \<Rightarrow> u64 \<Rightarrow> buddy \<Rightarrow> unit option" where
  "buddy_page_assert_tag p tag b = do { m \<leftarrow> meta_of b p; if page_get_tag m = tag then Some () else None }"

definition upd_area :: "nat \<Rightarrow> (buddy_free_area \<Rightarrow> buddy_free_area) \<Rightarrow> buddy \<Rightarrow> buddy option" where
  "upd_area i f b = do { a \<leftarrow> rd (free_area b) i; as \<leftarrow> wr (free_area b) i (f a); Some (b\<lparr>free_area := as\<rparr>) }"

section \<open>Free lists\<close>

text \<open>The operations take the index of the area in the array of areas.\<close>

definition buddy_fa_empty :: "buddy_free_area \<Rightarrow> bool" where
  "buddy_fa_empty a \<longleftrightarrow> fa_head a = None"

definition buddy_fa_push_head :: "nat \<Rightarrow> nat \<Rightarrow> buddy \<Rightarrow> buddy option" where
  "buddy_fa_push_head i page b =
     do {
       a \<leftarrow> rd (free_area b) i;
       let old_head = fa_head a;
       let b = buddy_page_set_prev page None b;
       b \<leftarrow> buddy_page_set_next page old_head b;
       b \<leftarrow> (case old_head of
               Some h \<Rightarrow> Some (buddy_page_set_prev h (Some page) b)
             | None \<Rightarrow> upd_area i (\<lambda>a. a\<lparr>fa_tail := Some page\<rparr>) b);
       upd_area i (\<lambda>a. a\<lparr>fa_head := Some page, nr_free := nr_free a + 1\<rparr>) b
     }"

definition buddy_fa_push_tail :: "nat \<Rightarrow> nat \<Rightarrow> buddy \<Rightarrow> buddy option" where
  "buddy_fa_push_tail i page b =
     do {
       a \<leftarrow> rd (free_area b) i;
       let old_tail = fa_tail a;
       b \<leftarrow> buddy_page_set_next page None b;
       let b = buddy_page_set_prev page old_tail b;
       b \<leftarrow> (case old_tail of
               Some t \<Rightarrow> buddy_page_set_next t (Some page) b
             | None \<Rightarrow> upd_area i (\<lambda>a. a\<lparr>fa_head := Some page\<rparr>) b);
       upd_area i (\<lambda>a. a\<lparr>fa_tail := Some page, nr_free := nr_free a + 1\<rparr>) b
     }"

definition buddy_fa_pop_head :: "nat \<Rightarrow> buddy \<Rightarrow> (nat option \<times> buddy) option" where
  "buddy_fa_pop_head i b =
     do {
       a \<leftarrow> rd (free_area b) i;
       case fa_head a of
         None \<Rightarrow> Some (None, b)
       | Some page \<Rightarrow>
           do {
             next \<leftarrow> buddy_page_get_next page b;
             b \<leftarrow> upd_area i (\<lambda>a. a\<lparr>fa_head := next\<rparr>) b;
             b \<leftarrow> (case next of
                     Some n \<Rightarrow> Some (buddy_page_set_prev n None b)
                   | None \<Rightarrow> upd_area i (\<lambda>a. a\<lparr>fa_tail := None\<rparr>) b);
             b \<leftarrow> buddy_page_set_next page None b;
             b \<leftarrow> upd_area i (\<lambda>a. a\<lparr>nr_free := nr_free a - 1\<rparr>) b;
             Some (Some page, b)
           }
     }"

definition buddy_fa_pop_tail :: "nat \<Rightarrow> buddy \<Rightarrow> (nat option \<times> buddy) option" where
  "buddy_fa_pop_tail i b =
     do {
       a \<leftarrow> rd (free_area b) i;
       case fa_tail a of
         None \<Rightarrow> Some (None, b)
       | Some page \<Rightarrow>
           do {
             let prev = buddy_page_get_prev page b;
             b \<leftarrow> upd_area i (\<lambda>a. a\<lparr>fa_tail := prev\<rparr>) b;
             b \<leftarrow> (case prev of
                     Some q \<Rightarrow> buddy_page_set_next q None b
                   | None \<Rightarrow> upd_area i (\<lambda>a. a\<lparr>fa_head := None\<rparr>) b);
             let b = buddy_page_set_prev page None b;
             b \<leftarrow> upd_area i (\<lambda>a. a\<lparr>nr_free := nr_free a - 1\<rparr>) b;
             Some (Some page, b)
           }
     }"

definition buddy_fa_remove :: "nat \<Rightarrow> nat \<Rightarrow> buddy \<Rightarrow> buddy option" where
  "buddy_fa_remove i page b =
     do {
       let prev = buddy_page_get_prev page b;
       next \<leftarrow> buddy_page_get_next page b;
       b \<leftarrow> (case prev of
               Some q \<Rightarrow> buddy_page_set_next q next b
             | None \<Rightarrow> upd_area i (\<lambda>a. a\<lparr>fa_head := next\<rparr>) b);
       b \<leftarrow> (case next of
               Some n \<Rightarrow> Some (buddy_page_set_prev n prev b)
             | None \<Rightarrow> upd_area i (\<lambda>a. a\<lparr>fa_tail := prev\<rparr>) b);
       b \<leftarrow> buddy_page_set_next page None b;
       let b = buddy_page_set_prev page None b;
       upd_area i (\<lambda>a. a\<lparr>nr_free := nr_free a - 1\<rparr>) b
     }"

definition buddy_add_to_free_area :: "nat \<Rightarrow> nat \<Rightarrow> buddy \<Rightarrow> buddy option" where
  "buddy_add_to_free_area page i b =
     do {
       buddy_page_assert_tag page PAGE_TAG_BUDDY b;
       b \<leftarrow> buddy_fa_push_tail i page b;
       upd_meta page (buddy_page_set_free True) b
     }"

definition buddy_remove_from_free_area :: "nat \<Rightarrow> buddy \<Rightarrow> (nat option \<times> buddy) option" where
  "buddy_remove_from_free_area i b =
     do {
       (page, b) \<leftarrow> buddy_fa_pop_head i b;
       case page of
         None \<Rightarrow> Some (None, b)
       | Some p \<Rightarrow> do { b \<leftarrow> upd_meta p (buddy_page_set_free False) b; Some (Some p, b) }
     }"

section \<open>Allocating\<close>

text \<open>The order of a count: the loop does not end for counts above \<open>2 ^ 63\<close>.\<close>

partial_function (option) order_from :: "u64 \<Rightarrow> nat \<Rightarrow> u64 \<Rightarrow> nat option" where
  "order_from count order sz = (if sz < count then order_from count (order + 1) (push_bit 1 sz) else Some order)"

datatype buddy_panic = ZERO_PAGES | TOO_MANY_PAGES

function find_area :: "buddy \<Rightarrow> nat \<Rightarrow> nat option" where
  "find_area b cur =
     (if cur < BUDDY_MAX_ORDER
      then do { a \<leftarrow> rd (free_area b) cur; if nr_free a = 0 then find_area b (cur + 1) else Some cur }
      else Some cur)"
  by pat_completeness auto
termination by (relation "measure (\<lambda>(b, cur). BUDDY_MAX_ORDER - cur)") auto

declare find_area.simps [simp del]

text \<open>One split: the upper half becomes a block of its own; \<open>None\<close> inside is the null page.\<close>

definition split_block :: "nat \<Rightarrow> buddy \<Rightarrow> (bool \<times> buddy) option" where
  "split_block cur b =
     do {
       (page, b) \<leftarrow> buddy_remove_from_free_area cur b;
       case page of
         None \<Rightarrow> Some (False, b)
       | Some page \<Rightarrow>
           do {
             buddy_page_assert_tag page PAGE_TAG_BUDDY b;
             let new_order = cur - 1;
             let buddy_pfn = page + 2 ^ new_order;
             bud \<leftarrow> page_for_pfn b buddy_pfn;
             b \<leftarrow> upd_meta bud (page_set_tag PAGE_TAG_BUDDY) b;
             b \<leftarrow> upd_meta bud (buddy_page_set_next_pfn 0) b;
             b \<leftarrow> upd_meta page (buddy_page_set_order (of_nat new_order)) b;
             b \<leftarrow> upd_meta bud (buddy_page_set_order (of_nat new_order)) b;
             b \<leftarrow> buddy_add_to_free_area page new_order b;
             b \<leftarrow> buddy_add_to_free_area bud new_order b;
             Some (True, b)
           }
     }"

fun split_to :: "nat \<Rightarrow> nat \<Rightarrow> buddy \<Rightarrow> (bool \<times> buddy) option" where
  "split_to order 0 b = Some (True, b)"
| "split_to order (Suc cur) b =
     (if order < Suc cur
      then do { (ok, b) \<leftarrow> split_block (Suc cur) b; if ok then split_to order cur b else Some (False, b) }
      else Some (True, b))"

text \<open>The physical address, 0 for none.\<close>

definition buddy_alloc_pages :: "buddy \<Rightarrow> u64 \<Rightarrow> (buddy_panic + nat \<times> buddy) option" where
  "buddy_alloc_pages b count =
     (if count = 0 then Some (Inl ZERO_PAGES)
      else do {
        order \<leftarrow> order_from count 0 1;
        if BUDDY_MAX_ORDER \<le> order then Some (Inl TOO_MANY_PAGES)
        else do {
          cur \<leftarrow> find_area b order;
          if BUDDY_MAX_ORDER \<le> cur then Some (Inl TOO_MANY_PAGES)
          else do {
            (ok, b) \<leftarrow> split_to order cur b;
            if \<not> ok then Some (Inr (0, b))
            else do {
              (page, b) \<leftarrow> buddy_remove_from_free_area order b;
              case page of
                None \<Rightarrow> Some (Inr (0, b))
              | Some page \<Rightarrow>
                  do {
                    buddy_page_assert_tag page PAGE_TAG_BUDDY b;
                    b \<leftarrow> upd_meta page (page_set_tag PAGE_TAG_NONE) b;
                    Some (Inr (page * PAGE_BYTES, b))
                  }
            }
          }
        }
      })"

section \<open>Freeing\<close>

function merge_up :: "nat \<Rightarrow> nat \<Rightarrow> nat \<Rightarrow> buddy \<Rightarrow> (nat \<times> nat \<times> buddy) option" where
  "merge_up tot pfn order b =
     (if order < BUDDY_MAX_ORDER - 1 then
        let buddy_pfn = pfn XOR 2 ^ order
        in if tot \<le> buddy_pfn then Some (pfn, order, b)
           else do {
             bud \<leftarrow> page_for_pfn b buddy_pfn;
             m \<leftarrow> meta_of b bud;
             if \<not> buddy_page_is_free m \<or> buddy_page_get_order m \<noteq> of_nat order then Some (pfn, order, b)
             else do {
               b \<leftarrow> upd_meta bud (page_set_tag PAGE_TAG_BUDDY) b;
               b \<leftarrow> buddy_fa_remove order bud b;
               let pfn = min pfn buddy_pfn;
               page \<leftarrow> page_for_pfn b pfn;
               b \<leftarrow> upd_meta page (buddy_page_set_next_pfn 0) b;
               b \<leftarrow> upd_meta page (buddy_page_set_order (of_nat (order + 1))) b;
               b \<leftarrow> upd_meta page (page_set_tag PAGE_TAG_BUDDY) b;
               merge_up tot pfn (order + 1) b
             }
           }
      else Some (pfn, order, b))"
  by pat_completeness auto
termination by (relation "measure (\<lambda>(tot, pfn, order, b). BUDDY_MAX_ORDER - order)") auto

declare merge_up.simps [simp del]

definition buddy_free_pages :: "nat \<Rightarrow> u64 \<Rightarrow> buddy \<Rightarrow> nat \<Rightarrow> buddy option" where
  "buddy_free_pages addr count b total_pages =
     (if addr = 0 \<or> count = 0 then Some b
      else let pfn = addr div PAGE_BYTES
      in if total_pages \<le> pfn then None
         else do {
           order \<leftarrow> order_from count 0 1;
           page \<leftarrow> page_for_pfn b pfn;
           buddy_page_assert_tag page PAGE_TAG_NONE b;
           b \<leftarrow> upd_meta page (buddy_page_set_next_pfn 0) b;
           b \<leftarrow> upd_meta page (buddy_page_set_order (of_nat order)) b;
           b \<leftarrow> upd_meta page (page_set_tag PAGE_TAG_BUDDY) b;
           (pfn, order, b) \<leftarrow> merge_up total_pages pfn order b;
           page \<leftarrow> page_for_pfn b pfn;
           buddy_add_to_free_area page order b
         })"

text \<open>The global allocator works on the whole page array.\<close>

definition buddy_alloc_pages_global :: "buddy \<Rightarrow> u64 \<Rightarrow> (buddy_panic + nat \<times> buddy) option" where
  "buddy_alloc_pages_global b count = buddy_alloc_pages b count"

definition buddy_free_pages_global :: "nat \<Rightarrow> u64 \<Rightarrow> buddy \<Rightarrow> buddy option" where
  "buddy_free_pages_global addr count b = buddy_free_pages addr count b (length (page_array b))"

section \<open>The fields of a descriptor are independent\<close>

lemma field_masks:
  "PAGE_TAG_MASK = mask 3" "BUDDY_IS_FREE_MASK = push_bit 3 1" "BUDDY_IS_ZEROED_MASK = push_bit 4 1"
  "BUDDY_ORDER_MASK = push_bit 5 (mask 7)" "BUDDY_NEXT_PFN_MASK = push_bit 12 (mask 52)"
  by (simp_all add: PAGE_TAG_MASK_def BUDDY_IS_FREE_MASK_def BUDDY_IS_ZEROED_MASK_def BUDDY_ORDER_MASK_def BUDDY_NEXT_PFN_MASK_def
      BIT_def mask_eq_exp_minus_1)

lemma bit_masks:
  "bit PAGE_TAG_MASK n \<longleftrightarrow> n < 3" "bit BUDDY_IS_FREE_MASK n \<longleftrightarrow> n = 3" "bit BUDDY_IS_ZEROED_MASK n \<longleftrightarrow> n = 4"
  "bit BUDDY_ORDER_MASK n \<longleftrightarrow> 5 \<le> n \<and> n < 12" "bit BUDDY_NEXT_PFN_MASK n \<longleftrightarrow> 12 \<le> n \<and> n < 64"
  unfolding field_masks bit_push_bit_iff bit_mask_iff bit_1_iff by auto

lemma small_bit:
  assumes "x < (2 ^ k :: u64)" "k < 64" "bit x n"
  shows "n < k"
proof (rule ccontr)
  assume "\<not> n < k"
  then have "(2::nat) ^ k \<le> 2 ^ n" by simp
  moreover have "(2::nat) ^ k < 2 ^ 64" using assms(2) by (intro power_strict_increasing) auto
  then have "unat (2 ^ k :: u64) = 2 ^ k" using unat_of_nat_small [of "2 ^ k", where 'a = 64] by simp
  then have "unat x < 2 ^ k" using assms(1) by (simp add: word_less_nat_alt)
  ultimately have "unat x < 2 ^ n" by linarith
  then have "unat x div 2 ^ n = 0" by simp
  moreover have "odd (unat x div 2 ^ n)" using assms(3) by (simp add: bit_unsigned_iff flip: bit_iff_odd)
  ultimately show False by simp
qed

definition free_bit :: "u64 \<Rightarrow> bool" where
  "free_bit meta \<longleftrightarrow> bit meta 3"

lemma is_free_bit: "buddy_page_is_free meta \<longleftrightarrow> page_get_tag meta = PAGE_TAG_BUDDY \<and> free_bit meta"
proof -
  have "meta AND BUDDY_IS_FREE_MASK \<noteq> 0 \<longleftrightarrow> (\<exists>n. bit (meta AND BUDDY_IS_FREE_MASK) n)"
    by (metis bit_0_eq bot_apply bot_bool_def bit_word_eqI)
  then show ?thesis by (auto simp: buddy_page_is_free_def free_bit_def bit_and_iff bit_masks)
qed

lemmas field_defs = page_get_tag_def page_set_tag_def buddy_page_get_order_def buddy_page_set_order_def buddy_page_get_next_pfn_def
  buddy_page_set_next_pfn_def buddy_page_set_free_def free_bit_def

lemmas field_bits = bit_and_iff bit_or_iff bit_not_iff bit_masks bit_push_bit_iff bit_drop_bit_eq

lemma tag_fields [simp]:
  "t < 2 ^ 3 \<Longrightarrow> page_get_tag (page_set_tag t m) = t"
  "page_get_tag (buddy_page_set_order ord m) = page_get_tag m"
  "page_get_tag (buddy_page_set_next_pfn p m) = page_get_tag m"
  "page_get_tag (buddy_page_set_free f m) = page_get_tag m"
  by (rule bit_word_eqI; auto simp: field_defs field_bits dest: small_bit [of t 3, rotated 2])+

lemma order_fields [simp]:
  "ord < 2 ^ 7 \<Longrightarrow> buddy_page_get_order (buddy_page_set_order ord m) = ord"
  "buddy_page_get_order (page_set_tag t m) = buddy_page_get_order m"
  "buddy_page_get_order (buddy_page_set_next_pfn p m) = buddy_page_get_order m"
  "buddy_page_get_order (buddy_page_set_free f m) = buddy_page_get_order m"
  by (rule bit_word_eqI; auto simp: field_defs field_bits dest: small_bit [of ord 7, rotated 2])+

lemma next_fields [simp]:
  "p < 2 ^ 52 \<Longrightarrow> buddy_page_get_next_pfn (buddy_page_set_next_pfn p m) = p"
  "buddy_page_get_next_pfn (page_set_tag t m) = buddy_page_get_next_pfn m"
  "buddy_page_get_next_pfn (buddy_page_set_order ord m) = buddy_page_get_next_pfn m"
  "buddy_page_get_next_pfn (buddy_page_set_free f m) = buddy_page_get_next_pfn m"
  by (rule bit_word_eqI; auto simp: field_defs field_bits dest: small_bit [of p 52, rotated 2])+

lemma free_fields [simp]:
  "free_bit (buddy_page_set_free f m) = f"
  "free_bit (page_set_tag t m) = free_bit m"
  "free_bit (buddy_page_set_order ord m) = free_bit m"
  "free_bit (buddy_page_set_next_pfn p m) = free_bit m"
  by (auto simp: field_defs field_bits)

end
