(* ===== verification/BuddyLists.thy ===== *)
theory BuddyLists
  imports Buddy
begin

text \<open>
  The free lists of the buddy allocator: the doubly linked lists threaded through the page
  descriptors and the free memory implement lists of frame numbers.
\<close>

section \<open>A view of the page descriptors\<close>

text \<open>The fields of all descriptors as functions.\<close>

record bview =
  v_next :: "nat \<Rightarrow> nat option"
  v_prev :: "nat \<Rightarrow> nat option"
  v_tag :: "nat \<Rightarrow> u64"
  v_ord :: "nat \<Rightarrow> u64"
  v_free :: "nat \<Rightarrow> bool"
  v_area :: "buddy_free_area list"
  v_len :: nat

definition next_in :: "u64 \<Rightarrow> nat option" where
  "next_in m = (let q = buddy_page_get_next_pfn m in if q = 0 then None else Some (unat q))"

definition view :: "buddy \<Rightarrow> bview" where
  "view b = \<lparr>v_next = (\<lambda>x. next_in (page_array b ! x)), v_prev = free_link b,
     v_tag = (\<lambda>x. page_get_tag (page_array b ! x)), v_ord = (\<lambda>x. buddy_page_get_order (page_array b ! x)),
     v_free = (\<lambda>x. free_bit (page_array b ! x)), v_area = free_area b, v_len = length (page_array b)\<rparr>"

lemma nth_update: "i < length xs \<Longrightarrow> xs[i := v] ! x = (if x = i then v else xs ! x)"
  by auto

lemma upd_meta_view:
  assumes "p < v_len (view b)"
  shows "\<exists>b'. upd_meta p f b = Some b' \<and> view b' = (view b)
    \<lparr>v_next := (v_next (view b))(p := next_in (f (page_array b ! p))),
     v_tag := (v_tag (view b))(p := page_get_tag (f (page_array b ! p))),
     v_ord := (v_ord (view b))(p := buddy_page_get_order (f (page_array b ! p))),
     v_free := (v_free (view b))(p := free_bit (f (page_array b ! p)))\<rparr>"
  using assms by (auto simp: upd_meta_def meta_of_def rd_def wr_def view_def nth_update fun_eq_iff)

lemma next_in_simps [simp]:
  "next_in (page_set_tag t m) = next_in m" "next_in (buddy_page_set_order ord m) = next_in m"
  "next_in (buddy_page_set_free f m) = next_in m" "next_in (buddy_page_set_next_pfn 0 m) = None"
  by (simp_all add: next_in_def)

lemma fun_upd_same: "v = f p \<Longrightarrow> f(p := v) = f"
  by simp

lemma view_same:
  "(v_tag (view b))(p := page_get_tag (page_array b ! p)) = v_tag (view b)"
  "(v_ord (view b))(p := buddy_page_get_order (page_array b ! p)) = v_ord (view b)"
  "(v_free (view b))(p := free_bit (page_array b ! p)) = v_free (view b)"
  "(v_next (view b))(p := next_in (page_array b ! p)) = v_next (view b)"
  by (auto simp: view_def)

lemma set_tag_view:
  assumes "p < v_len (view b)" "t < 2 ^ 3"
  shows "\<exists>b'. upd_meta p (page_set_tag t) b = Some b' \<and> view b' = (view b)\<lparr>v_tag := (v_tag (view b))(p := t)\<rparr>"
  using upd_meta_view [OF assms(1), of "page_set_tag t"] assms(2) by (simp add: view_same)

lemma set_order_view:
  assumes "p < v_len (view b)" "ord < 2 ^ 7"
  shows "\<exists>b'. upd_meta p (buddy_page_set_order ord) b = Some b' \<and> view b' = (view b)\<lparr>v_ord := (v_ord (view b))(p := ord)\<rparr>"
  using upd_meta_view [OF assms(1), of "buddy_page_set_order ord"] assms(2) by (simp add: view_same)

lemma set_free_view:
  assumes "p < v_len (view b)"
  shows "\<exists>b'. upd_meta p (buddy_page_set_free f) b = Some b' \<and> view b' = (view b)\<lparr>v_free := (v_free (view b))(p := f)\<rparr>"
  using upd_meta_view [OF assms, of "buddy_page_set_free f"] by (simp add: view_same)

lemma clear_next_view:
  assumes "p < v_len (view b)"
  shows "\<exists>b'. upd_meta p (buddy_page_set_next_pfn 0) b = Some b' \<and> view b' = (view b)\<lparr>v_next := (v_next (view b))(p := None)\<rparr>"
  using upd_meta_view [OF assms, of "buddy_page_set_next_pfn 0"] by (simp add: view_same)

definition page_ok :: "bview \<Rightarrow> nat \<Rightarrow> bool" where
  "page_ok v x \<longleftrightarrow> 0 < x \<and> x < v_len v \<and> v_len v \<le> 2 ^ 52"

lemma next_in_set:
  assumes "0 < q" "q < 2 ^ 52"
  shows "next_in (buddy_page_set_next_pfn (of_nat q) m) = Some q"
proof -
  have u: "unat (of_nat q :: u64) = q" using assms(2) by (simp add: unat_of_nat)
  then have "(of_nat q :: u64) < 2 ^ 52" "(of_nat q :: u64) \<noteq> 0" using assms by (auto simp: word_less_nat_alt)
  then show ?thesis using u by (simp add: next_in_def Let_def)
qed

lemma set_next_view:
  assumes "p < v_len (view b)" "\<forall>q. n = Some q \<longrightarrow> page_ok (view b) q"
  shows "\<exists>b'. buddy_page_set_next p n b = Some b' \<and> view b' = (view b)\<lparr>v_next := (v_next (view b))(p := n)\<rparr>"
proof (cases n)
  case None
  then show ?thesis using clear_next_view [OF assms(1)] by (simp add: buddy_page_set_next_def)
next
  case (Some q)
  then have "0 < q" "q < 2 ^ 52" using assms(2) by (auto simp: page_ok_def)
  then show ?thesis using upd_meta_view [OF assms(1), of "buddy_page_set_next_pfn (of_nat q)"] Some
    by (simp add: buddy_page_set_next_def view_same next_in_set)
qed

lemma set_prev_view [simp]: "view (buddy_page_set_prev p q b) = (view b)\<lparr>v_prev := (v_prev (view b))(p := q)\<rparr>"
  by (simp add: buddy_page_set_prev_def view_def)

lemma get_prev_view [simp]: "buddy_page_get_prev p b = v_prev (view b) p"
  by (simp add: buddy_page_get_prev_def view_def)

lemma get_next_view:
  assumes "p < v_len (view b)" "\<forall>q. v_next (view b) p = Some q \<longrightarrow> q < v_len (view b)"
  shows "buddy_page_get_next p b = Some (v_next (view b) p)"
  using assms by (auto simp: buddy_page_get_next_def meta_of_def rd_def view_def next_in_def page_for_pfn_def Let_def)

lemma upd_area_view:
  assumes "i < length (v_area (view b))"
  shows "\<exists>b'. upd_area i f b = Some b' \<and> view b' = (view b)\<lparr>v_area := (v_area (view b))[i := f (v_area (view b) ! i)]\<rparr>"
  using assms by (simp add: upd_area_def rd_def wr_def view_def)

lemma area_view: "i < length (v_area (view b)) \<Longrightarrow> rd (free_area b) i = Some (v_area (view b) ! i)"
  by (simp add: rd_def view_def)

lemma page_for_view [simp]: "page_for_pfn b x = (if x < v_len (view b) then Some x else None)"
  by (simp add: page_for_pfn_def view_def)

lemma assert_tag_view: "p < v_len (view b) \<Longrightarrow> buddy_page_assert_tag p t b = (if v_tag (view b) p = t then Some () else None)"
  by (simp add: buddy_page_assert_tag_def meta_of_def rd_def view_def)

section \<open>Linked lists\<close>

definition hd_or :: "'a list \<Rightarrow> 'a option \<Rightarrow> 'a option" where
  "hd_or xs n = (case xs of [] \<Rightarrow> n | y # _ \<Rightarrow> Some y)"

definition last_or :: "'a option \<Rightarrow> 'a list \<Rightarrow> 'a option" where
  "last_or p xs = (if xs = [] then p else Some (last xs))"

lemma hd_or_simps [simp]: "hd_or [] n = n" "hd_or (x # xs) n = Some x" "hd_or (xs @ ys) n = hd_or xs (hd_or ys n)"
  by (cases xs; simp add: hd_or_def)+

lemma last_or_simps [simp]: "last_or p [] = p" "last_or p (x # xs) = last_or (Some x) xs" "last_or p (xs @ ys) = last_or (last_or p xs) ys"
  by (auto simp: last_or_def)

fun chain :: "('a \<Rightarrow> 'a option) \<Rightarrow> ('a \<Rightarrow> 'a option) \<Rightarrow> 'a option \<Rightarrow> 'a list \<Rightarrow> 'a option \<Rightarrow> bool" where
  "chain pv nx p [] n = True"
| "chain pv nx p (x # xs) n = (pv x = p \<and> nx x = hd_or xs n \<and> chain pv nx (Some x) xs n)"

lemma chain_append [simp]: "chain pv nx p (ys @ zs) n \<longleftrightarrow> chain pv nx p ys (hd_or zs n) \<and> chain pv nx (last_or p ys) zs n"
  by (induction ys arbitrary: p) auto

lemma chain_cong: "\<forall>x \<in> set xs. pv x = pv' x \<and> nx x = nx' x \<Longrightarrow> chain pv nx p xs n = chain pv' nx' p xs n"
  by (induction xs arbitrary: p) auto

lemma chain_frame [simp]:
  "x \<notin> set xs \<Longrightarrow> chain (pv(x := v)) nx p xs n = chain pv nx p xs n"
  "x \<notin> set xs \<Longrightarrow> chain pv (nx(x := v)) p xs n = chain pv nx p xs n"
  by (rule chain_cong; auto)+

lemma chain_set_last: "distinct (ys @ [x]) \<Longrightarrow> chain pv nx p (ys @ [x]) n \<Longrightarrow> chain pv (nx(x := n')) p (ys @ [x]) n'"
  by (simp add: hd_or_def split: list.splits)

lemma chain_set_hd: "distinct (x # ys) \<Longrightarrow> chain pv nx p (x # ys) n \<Longrightarrow> chain (pv(x := p')) nx p' (x # ys) n"
  by simp

text \<open>Area \<open>i\<close> holds the list \<open>xs\<close>.\<close>

definition area_list :: "bview \<Rightarrow> nat \<Rightarrow> nat list \<Rightarrow> bool" where
  "area_list v i xs \<longleftrightarrow> i < length (v_area v)
     \<and> v_area v ! i = \<lparr>fa_head = hd_or xs None, fa_tail = last_or None xs, nr_free = of_nat (length xs)\<rparr>
     \<and> chain (v_prev v) (v_next v) None xs None \<and> distinct xs \<and> (\<forall>x \<in> set xs. page_ok v x)"

text \<open>Only the links of the pages in \<open>S\<close> and area \<open>i\<close> may differ.\<close>

definition links_only :: "nat set \<Rightarrow> nat \<Rightarrow> bview \<Rightarrow> bview \<Rightarrow> bool" where
  "links_only S i v v' \<longleftrightarrow> v_tag v' = v_tag v \<and> v_ord v' = v_ord v \<and> v_free v' = v_free v \<and> v_len v' = v_len v
     \<and> length (v_area v') = length (v_area v) \<and> (\<forall>j. j \<noteq> i \<longrightarrow> v_area v' ! j = v_area v ! j)
     \<and> (\<forall>x. x \<notin> S \<longrightarrow> v_next v' x = v_next v x \<and> v_prev v' x = v_prev v x)"

lemma area_list_frame:
  assumes "links_only S i v v'" "j \<noteq> i" "set ys \<inter> S = {}"
  shows "area_list v' j ys \<longleftrightarrow> area_list v j ys"
proof -
  have "chain (v_prev v') (v_next v') None ys None = chain (v_prev v) (v_next v) None ys None"
    using assms by (intro chain_cong) (auto simp: links_only_def)
  then show ?thesis using assms by (simp add: area_list_def links_only_def page_ok_def)
qed

lemma upd_area_ok [simp]: "i < length (v_area (view b)) \<Longrightarrow> upd_area i f b = Some (b\<lparr>free_area := (free_area b)[i := f (free_area b ! i)]\<rparr>)"
  by (simp add: upd_area_def rd_def wr_def view_def)

lemma view_areas [simp]: "view (b\<lparr>free_area := as\<rparr>) = (view b)\<lparr>v_area := as\<rparr>"
  by (simp add: view_def)

lemma area_of_view: "free_area b = v_area (view b)"
  by (simp add: view_def)

text \<open>Appending a page.\<close>

lemma fa_push_tail_spec:
  assumes "area_list (view b) i xs" "page_ok (view b) p" "p \<notin> set xs"
  shows "\<exists>b'. buddy_fa_push_tail i p b = Some b' \<and> area_list (view b') i (xs @ [p]) \<and> links_only (insert p (set xs)) i (view b) (view b')"
proof -
  have i: "i < length (v_area (view b))" and p: "p < v_len (view b)" using assms by (auto simp: area_list_def page_ok_def)
  have a: "v_area (view b) ! i = \<lparr>fa_head = hd_or xs None, fa_tail = last_or None xs, nr_free = of_nat (length xs)\<rparr>"
    using assms(1) by (simp add: area_list_def)
  obtain b1 where b1: "buddy_page_set_next p None b = Some b1" "view b1 = (view b)\<lparr>v_next := (v_next (view b))(p := None)\<rparr>"
    using set_next_view [OF p, of None] by auto
  define b2 where "b2 = buddy_page_set_prev p (last_or None xs) b1"
  have b2: "view b2 = (view b)\<lparr>v_next := (v_next (view b))(p := None), v_prev := (v_prev (view b))(p := last_or None xs)\<rparr>"
    by (simp add: b2_def b1)
  show ?thesis
  proof (cases xs rule: rev_cases)
    case Nil
    then show ?thesis using assms i a b1
      by (auto simp: buddy_fa_push_tail_def rd_def Let_def area_of_view area_list_def links_only_def page_ok_def)
  next
    case (snoc ys t)
    have "t < v_len (view b2)" "\<forall>q. Some p = Some q \<longrightarrow> page_ok (view b2) q"
      using assms snoc by (auto simp: b2 area_list_def page_ok_def)
    from set_next_view [OF this] obtain b3 where b3: "buddy_page_set_next t (Some p) b2 = Some b3"
      "view b3 = (view b2)\<lparr>v_next := (v_next (view b2))(t := Some p)\<rparr>" by auto
    have c: "chain (v_prev (view b)) ((v_next (view b))(t := Some p)) None xs (Some p)"
      using chain_set_last [of ys t "v_prev (view b)" "v_next (view b)" None None "Some p"] assms(1) snoc by (simp add: area_list_def)
    show ?thesis using assms i a b1(1) b2 b3 c snoc
      by (auto simp: buddy_fa_push_tail_def rd_def Let_def b2_def area_of_view area_list_def links_only_def page_ok_def)
  qed
qed

lemmas fa_simps = rd_def Let_def area_of_view area_list_def links_only_def page_ok_def

text \<open>Prepending a page.\<close>

lemma fa_push_head_spec:
  assumes "area_list (view b) i xs" "page_ok (view b) p" "p \<notin> set xs"
  shows "\<exists>b'. buddy_fa_push_head i p b = Some b' \<and> area_list (view b') i (p # xs) \<and> links_only (insert p (set xs)) i (view b) (view b')"
proof -
  have i: "i < length (v_area (view b))" and p: "p < v_len (view b)" using assms by (auto simp: area_list_def page_ok_def)
  have a: "v_area (view b) ! i = \<lparr>fa_head = hd_or xs None, fa_tail = last_or None xs, nr_free = of_nat (length xs)\<rparr>"
    using assms(1) by (simp add: area_list_def)
  define b1 where "b1 = buddy_page_set_prev p None b"
  have "p < v_len (view b1)" "\<forall>q. hd_or xs None = Some q \<longrightarrow> page_ok (view b1) q"
    using assms p by (auto simp: b1_def area_list_def page_ok_def hd_or_def split: list.splits)
  from set_next_view [OF this] obtain b2 where b2: "buddy_page_set_next p (hd_or xs None) b1 = Some b2"
    "view b2 = (view b1)\<lparr>v_next := (v_next (view b1))(p := hd_or xs None)\<rparr>" by auto
  show ?thesis
  proof (cases xs)
    case Nil
    then show ?thesis using assms i a b2 by (auto simp: buddy_fa_push_head_def b1_def fa_simps)
  next
    case (Cons h ys)
    then show ?thesis using assms i a b2 by (auto simp: buddy_fa_push_head_def b1_def fa_simps)
  qed
qed

text \<open>Taking the first page.\<close>

lemma pop_head_empty: "area_list (view b) i [] \<Longrightarrow> buddy_fa_pop_head i b = Some (None, b)"
  by (simp add: buddy_fa_pop_head_def fa_simps)

lemma fa_pop_head_spec:
  assumes "area_list (view b) i (p # xs)"
  shows "\<exists>b'. buddy_fa_pop_head i b = Some (Some p, b') \<and> area_list (view b') i xs \<and> links_only (insert p (set xs)) i (view b) (view b')"
proof -
  have i: "i < length (v_area (view b))" and p: "p < v_len (view b)" using assms by (auto simp: area_list_def page_ok_def)
  have a: "v_area (view b) ! i = \<lparr>fa_head = Some p, fa_tail = last_or None (p # xs), nr_free = of_nat (length (p # xs))\<rparr>"
    using assms(1) by (simp add: area_list_def)
  have n: "v_next (view b) p = hd_or xs None" using assms by (simp add: area_list_def)
  have g: "buddy_page_get_next p b = Some (hd_or xs None)"
    using assms n p by (subst get_next_view) (auto simp: area_list_def page_ok_def hd_or_def split: list.splits)
  define b1 where "b1 = (case hd_or xs None of
       Some q \<Rightarrow> buddy_page_set_prev q None (b\<lparr>free_area := (free_area b)[i := (free_area b ! i)\<lparr>fa_head := hd_or xs None\<rparr>]\<rparr>)
     | None \<Rightarrow> b\<lparr>free_area := (free_area b)[i := (free_area b ! i)\<lparr>fa_head := hd_or xs None, fa_tail := None\<rparr>]\<rparr>)"
  have "p < v_len (view b1)" using p by (simp add: b1_def split: option.splits)
  from set_next_view [OF this, of None] obtain b2 where b2: "buddy_page_set_next p None b1 = Some b2"
    "view b2 = (view b1)\<lparr>v_next := (v_next (view b1))(p := None)\<rparr>" by auto
  show ?thesis
  proof (cases xs)
    case Nil
    then show ?thesis using assms i a b2 g by (auto simp: buddy_fa_pop_head_def b1_def fa_simps)
  next
    case (Cons h ys)
    then show ?thesis using assms i a b2 g by (auto simp: buddy_fa_pop_head_def b1_def fa_simps)
  qed
qed

text \<open>Taking the last page.\<close>

lemma pop_tail_empty: "area_list (view b) i [] \<Longrightarrow> buddy_fa_pop_tail i b = Some (None, b)"
  by (simp add: buddy_fa_pop_tail_def fa_simps)

lemma fa_pop_tail_spec:
  assumes "area_list (view b) i (xs @ [p])"
  shows "\<exists>b'. buddy_fa_pop_tail i b = Some (Some p, b') \<and> area_list (view b') i xs \<and> links_only (insert p (set xs)) i (view b) (view b')"
proof -
  have i: "i < length (v_area (view b))" and p: "p < v_len (view b)" using assms by (auto simp: area_list_def page_ok_def)
  have a: "v_area (view b) ! i = \<lparr>fa_head = hd_or (xs @ [p]) None, fa_tail = Some p, nr_free = of_nat (length (xs @ [p]))\<rparr>"
    using assms(1) by (simp add: area_list_def)
  have n: "v_prev (view b) p = last_or None xs" using assms by (simp add: area_list_def)
  show ?thesis
  proof (cases xs rule: rev_cases)
    case Nil
    then show ?thesis using assms i a n by (auto simp: buddy_fa_pop_tail_def fa_simps)
  next
    case (snoc ys t)
    define b1 where "b1 = b\<lparr>free_area := (free_area b)[i := (free_area b ! i)\<lparr>fa_tail := Some t\<rparr>]\<rparr>"
    have "t < v_len (view b1)" using assms snoc by (simp add: b1_def fa_simps)
    from set_next_view [OF this, of None] obtain b2 where b2: "buddy_page_set_next t None b1 = Some b2"
      "view b2 = (view b1)\<lparr>v_next := (v_next (view b1))(t := None)\<rparr>" by auto
    have c: "chain (v_prev (view b)) ((v_next (view b))(t := None)) None xs None"
      using chain_set_last [of ys t "v_prev (view b)" "v_next (view b)" None "Some p" None] assms(1) snoc by (simp add: area_list_def)
    show ?thesis using assms i a n b2 c snoc
      by (auto simp: buddy_fa_pop_tail_def b1_def fa_simps)
  qed
qed

text \<open>Taking any page.\<close>

lemma fa_remove_spec:
  assumes "area_list (view b) i (ys @ p # zs)"
  shows "\<exists>b'. buddy_fa_remove i p b = Some b' \<and> area_list (view b') i (ys @ zs)
    \<and> links_only (insert p (set (ys @ zs))) i (view b) (view b')"
proof -
  have i: "i < length (v_area (view b))" and p: "p < v_len (view b)" using assms by (auto simp: area_list_def page_ok_def)
  have a: "v_area (view b) ! i = \<lparr>fa_head = hd_or (ys @ p # zs) None, fa_tail = last_or None (ys @ p # zs), nr_free = of_nat (length (ys @ p # zs))\<rparr>"
    using assms(1) by (simp add: area_list_def)
  have n: "v_prev (view b) p = last_or None ys" "v_next (view b) p = hd_or zs None" using assms by (auto simp: area_list_def)
  have g: "buddy_page_get_next p b = Some (hd_or zs None)"
    using assms n p by (subst get_next_view) (auto simp: area_list_def page_ok_def hd_or_def split: list.splits)
  define nx where "nx = (case last_or None ys of Some t \<Rightarrow> (v_next (view b))(t := hd_or zs None) | None \<Rightarrow> v_next (view b))"
  define pv where "pv = (case hd_or zs None of Some t \<Rightarrow> (v_prev (view b))(t := last_or None ys) | None \<Rightarrow> v_prev (view b))"
  have c1: "chain pv nx None ys (hd_or zs None)"
  proof (cases ys rule: rev_cases)
    case (snoc ws t)
    have "chain (v_prev (view b)) ((v_next (view b))(t := hd_or zs None)) None ys (hd_or zs None)"
      using chain_set_last [of ws t "v_prev (view b)" "v_next (view b)" None "Some p"] assms snoc by (simp add: area_list_def)
    moreover have "hd_or zs None = Some u \<Longrightarrow> u \<notin> set ys" for u using assms by (cases zs) (auto simp: area_list_def)
    ultimately show ?thesis using snoc by (auto simp: nx_def pv_def simp del: chain_append split: option.splits)
  qed simp
  have c2: "chain pv nx (last_or None ys) zs None"
  proof (cases zs)
    case (Cons t ws)
    have "chain ((v_prev (view b))(t := last_or None ys)) (v_next (view b)) (last_or None ys) zs None"
      using chain_set_hd [of t ws "v_prev (view b)" "v_next (view b)" "Some p" None] assms Cons by (simp add: area_list_def)
    moreover have "last_or None ys = Some u \<Longrightarrow> u \<notin> set zs" for u
      using assms by (cases ys rule: rev_cases) (auto simp: area_list_def)
    ultimately show ?thesis using Cons by (auto simp: nx_def pv_def simp del: chain.simps split: option.splits)
  qed simp
  have d: "distinct (ys @ zs)" "p \<notin> set (ys @ zs)" using assms by (auto simp: area_list_def)
  obtain b1 where b1: "(case last_or None ys of Some q \<Rightarrow> buddy_page_set_next q (hd_or zs None) b | None \<Rightarrow> upd_area i (\<lambda>a. a\<lparr>fa_head := hd_or zs None\<rparr>) b) = Some b1"
    "view b1 = (view b)\<lparr>v_next := nx, v_area := (v_area (view b))[i := (v_area (view b) ! i)\<lparr>fa_head := hd_or (ys @ zs) None\<rparr>]\<rparr>"
  proof (cases ys rule: rev_cases)
    case Nil
    then show ?thesis using that i a by (simp add: nx_def area_of_view)
  next
    case (snoc ws t)
    have "t < v_len (view b)" "\<forall>q. hd_or zs None = Some q \<longrightarrow> page_ok (view b) q"
      using assms snoc by (auto simp: fa_simps hd_or_def split: list.splits)
    from set_next_view [OF this] obtain b' where b': "buddy_page_set_next t (hd_or zs None) b = Some b'"
      "view b' = (view b)\<lparr>v_next := (v_next (view b))(t := hd_or zs None)\<rparr>" by auto
    have "(v_area (view b))[i := (v_area (view b) ! i)\<lparr>fa_head := hd_or (ys @ zs) None\<rparr>] = v_area (view b)"
      using a snoc i by (cases ws) (simp_all add: list_update_same_conv)
    then show ?thesis using that [of b'] b' snoc by (simp add: nx_def)
  qed
  obtain b2 where b2: "(case hd_or zs None of Some q \<Rightarrow> Some (buddy_page_set_prev q (last_or None ys) b1) | None \<Rightarrow> upd_area i (\<lambda>a. a\<lparr>fa_tail := last_or None ys\<rparr>) b1) = Some b2"
    "view b2 = (view b)\<lparr>v_next := nx, v_prev := pv, v_area := (v_area (view b))[i := \<lparr>fa_head = hd_or (ys @ zs) None, fa_tail = last_or None (ys @ zs), nr_free = of_nat (length (ys @ p # zs))\<rparr>]\<rparr>"
    using b1(2) i a that by (cases zs) (auto simp: pv_def area_of_view)
  have "p < v_len (view b2)" using p b2 by simp
  from set_next_view [OF this, of None] obtain b3 where b3: "buddy_page_set_next p None b2 = Some b3"
    "view b3 = (view b2)\<lparr>v_next := (v_next (view b2))(p := None)\<rparr>" by auto
  have r: "buddy_fa_remove i p b = upd_area i (\<lambda>a. a\<lparr>nr_free := nr_free a - 1\<rparr>) (buddy_page_set_prev p None b3)"
    using n g b1(1) b2(1) b3(1) by (simp add: buddy_fa_remove_def Let_def)
  have "\<forall>x. x \<notin> insert p (set (ys @ zs)) \<longrightarrow> nx x = v_next (view b) x \<and> pv x = v_prev (view b) x"
    using assms by (auto simp: nx_def pv_def last_or_def hd_or_def split: list.splits)
  then show ?thesis using r b2(2) b3(2) i assms c1 c2 d by (simp add: fa_simps)
qed

end
