(* ===== verification/BuddyBlocks.thy ===== *)
theory BuddyBlocks
  imports BuddyLists
begin

text \<open>
  Blocks of the buddy allocator: what is free, what has been handed out, and that allocating and freeing
  move exactly the pages of one block between the two.
\<close>

section \<open>Blocks\<close>

type_synonym block = "nat \<times> nat"

text \<open>The pages of a block of order \<open>o\<close> starting at a frame.\<close>

definition blk :: "block \<Rightarrow> nat set" where
  "blk c = {fst c ..< fst c + 2 ^ snd c}"

definition free_blocks :: "(nat \<Rightarrow> nat list) \<Rightarrow> block set" where
  "free_blocks F = {(x, i). i < BUDDY_MAX_ORDER \<and> x \<in> set (F i)}"

definition blk_ok :: "nat \<Rightarrow> block \<Rightarrow> bool" where
  "blk_ok n c \<longleftrightarrow> 0 < fst c \<and> 2 ^ snd c dvd fst c \<and> fst c + 2 ^ snd c \<le> n \<and> snd c < BUDDY_MAX_ORDER"

definition apart :: "block set \<Rightarrow> bool" where
  "apart B \<longleftrightarrow> (\<forall>c \<in> B. \<forall>d \<in> B. c \<noteq> d \<longrightarrow> blk c \<inter> blk d = {})"

definition lists :: "bview \<Rightarrow> (nat \<Rightarrow> nat list) \<Rightarrow> bool" where
  "lists v F \<longleftrightarrow> length (v_area v) = BUDDY_MAX_ORDER \<and> (\<forall>i < BUDDY_MAX_ORDER. area_list v i (F i))"

text \<open>The free lists are \<open>F\<close>, the blocks in use \<open>A\<close>, and the pages \<open>H\<close> are in transit between the two.\<close>

definition bi :: "bview \<Rightarrow> (nat \<Rightarrow> nat list) \<Rightarrow> block set \<Rightarrow> nat set \<Rightarrow> bool" where
  "bi v F A H \<longleftrightarrow> v_len v \<le> 2 ^ 52 \<and> lists v F \<and> (\<forall>c \<in> free_blocks F \<union> A. blk_ok (v_len v) c)
     \<and> apart (free_blocks F \<union> A) \<and> free_blocks F \<inter> A = {}
     \<and> (\<forall>c \<in> free_blocks F \<union> A. blk c \<inter> H = {}) \<and> H \<subseteq> {0 <..< v_len v}
     \<and> (\<forall>(x, i) \<in> free_blocks F. v_tag v x = PAGE_TAG_BUDDY \<and> v_free v x \<and> v_ord v x = of_nat i)
     \<and> (\<forall>(x, i) \<in> A. v_tag v x = PAGE_TAG_NONE)
     \<and> (\<forall>x < v_len v. x \<notin> \<Union> (blk ` (free_blocks F \<union> A)) \<union> H \<longrightarrow> \<not> (v_tag v x = PAGE_TAG_BUDDY \<and> v_free v x))"

definition free_pages :: "(nat \<Rightarrow> nat list) \<Rightarrow> nat set" where
  "free_pages F = \<Union> (blk ` free_blocks F)"

lemma head_in_blk [simp]: "x \<in> blk (x, i)"
  by (simp add: blk_def)

lemma apart_head: "\<lbrakk>apart B; (x, i) \<in> B; (x, j) \<in> B\<rbrakk> \<Longrightarrow> i = j"
  unfolding apart_def by (metis disjoint_iff head_in_blk prod.inject)

lemma apart_subset: "apart B \<Longrightarrow> B' \<subseteq> B \<Longrightarrow> apart B'"
  unfolding apart_def by blast

lemma in_free_blocks [simp]: "(x, i) \<in> free_blocks F \<longleftrightarrow> i < BUDDY_MAX_ORDER \<and> x \<in> set (F i)"
  by (simp add: free_blocks_def)

lemma bi_list: "bi v F A H \<Longrightarrow> i < BUDDY_MAX_ORDER \<Longrightarrow> area_list v i (F i)"
  by (simp add: bi_def lists_def)

lemma free_blocks_del:
  assumes "i < BUDDY_MAX_ORDER" "F i = ys @ p # zs" "distinct (F i)"
  shows "free_blocks (F(i := ys @ zs)) = free_blocks F - {(p, i)}"
  using assms by (auto simp: free_blocks_def split: if_splits)

lemma free_blocks_add: "i < BUDDY_MAX_ORDER \<Longrightarrow> free_blocks (F(i := F i @ [p])) = insert (p, i) (free_blocks F)"
  by (auto simp: free_blocks_def split: if_splits)

lemma other_list_apart:
  assumes "bi v F A H" "i < BUDDY_MAX_ORDER" "j < BUDDY_MAX_ORDER" "i \<noteq> j"
  shows "set (F i) \<inter> set (F j) = {}"
  using assms apart_head [of "free_blocks F \<union> A"] by (fastforce simp: bi_def)

text \<open>Taking a block out of its list.\<close>

lemma bi_take:
  assumes b: "bi v F A H" and i: "i < BUDDY_MAX_ORDER" and F: "F i = ys @ p # zs"
    and a: "area_list v' i (ys @ zs)" and l: "links_only (insert p (set (ys @ zs))) i v v'"
  shows "bi v' (F(i := ys @ zs)) A (H \<union> blk (p, i))"
proof -
  have d: "distinct (F i)" using bi_list [OF b i] by (simp add: area_list_def)
  note fb = free_blocks_del [of i F ys p zs, OF i F d]
  have pin: "(p, i) \<in> free_blocks F" using F i by simp
  have lists: "lists v' (F(i := ys @ zs))"
    unfolding lists_def
  proof (intro conjI allI impI)
    show "length (v_area v') = BUDDY_MAX_ORDER" using b l by (simp add: bi_def lists_def links_only_def)
    fix j assume j: "j < BUDDY_MAX_ORDER"
    show "area_list v' j ((F(i := ys @ zs)) j)"
    proof (cases "j = i")
      case False
      have "set (F j) \<inter> insert p (set (ys @ zs)) = {}" using other_list_apart [OF b i j] F False by auto
      then show ?thesis using area_list_frame [OF l False, of "F j"] bi_list [OF b j] False by simp
    qed (simp add: a)
  qed
  have v: "v_len v' = v_len v" "v_tag v' = v_tag v" "v_free v' = v_free v" "v_ord v' = v_ord v" using l by (auto simp: links_only_def)
  have un: "\<Union> (blk ` (free_blocks F \<union> A)) \<union> H = \<Union> (blk ` (free_blocks F - {(p, i)} \<union> A)) \<union> (H \<union> blk (p, i))"
    using pin by blast
  have p: "blk_ok (v_len v) (p, i)" using b pin unfolding bi_def by blast
  have ap: "\<forall>c \<in> free_blocks F - {(p, i)} \<union> A. blk c \<inter> blk (p, i) = {}"
    using b pin unfolding bi_def apart_def by (metis DiffD1 DiffD2 IntI UnCI UnE empty_iff insertCI)
  have sub: "apart (free_blocks F - {(p, i)} \<union> A)"
    using b unfolding bi_def by (meson Diff_subset Un_mono apart_subset subset_refl)
  have H: "H \<union> blk (p, i) \<subseteq> {0 <..< v_len v}" using b p by (auto simp: bi_def blk_ok_def blk_def)
  show ?thesis unfolding bi_def fb v
    using b lists ap sub H un unfolding bi_def by (simp add: Int_Un_distrib) blast
qed

text \<open>Only descriptors of pages in \<open>S\<close> may differ.\<close>

definition headers_only :: "nat set \<Rightarrow> bview \<Rightarrow> bview \<Rightarrow> bool" where
  "headers_only S v v' \<longleftrightarrow> v_len v' = v_len v \<and> v_area v' = v_area v
     \<and> (\<forall>x. x \<notin> S \<longrightarrow> v_next v' x = v_next v x \<and> v_prev v' x = v_prev v x \<and> v_tag v' x = v_tag v x \<and> v_ord v' x = v_ord v x \<and> v_free v' x = v_free v x)"

lemma area_list_headers: "\<lbrakk>headers_only S v v'; set xs \<inter> S = {}\<rbrakk> \<Longrightarrow> area_list v' i xs = area_list v i xs"
  using chain_cong [of xs "v_prev v'" "v_prev v" "v_next v'" "v_next v" None None]
  by (auto simp: headers_only_def area_list_def page_ok_def)

lemma free_head_not_in_transit: "\<lbrakk>bi v F A H; c \<in> free_blocks F \<union> A\<rbrakk> \<Longrightarrow> fst c \<notin> H"
  unfolding bi_def by (metis disjoint_iff head_in_blk prod.collapse)

lemma bi_headers:
  assumes b: "bi v F A H" and h: "headers_only S v v'" and S: "S \<subseteq> H"
  shows "bi v' F A H"
proof -
  have n: "(x, i) \<in> free_blocks F \<union> A \<Longrightarrow> x \<notin> S" for x i using free_head_not_in_transit [OF b] S by fastforce
  have "lists v' F" unfolding lists_def
  proof (intro conjI allI impI)
    show "length (v_area v') = BUDDY_MAX_ORDER" using b h by (simp add: bi_def lists_def headers_only_def)
    fix j assume j: "j < BUDDY_MAX_ORDER"
    then have "set (F j) \<inter> S = {}" using n by fastforce
    then show "area_list v' j (F j)" using area_list_headers [OF h] bi_list [OF b j] by simp
  qed
  moreover have "\<forall>(x, i) \<in> free_blocks F. v_tag v' x = PAGE_TAG_BUDDY \<and> v_free v' x \<and> v_ord v' x = of_nat i"
    using b n h unfolding bi_def headers_only_def by fastforce
  moreover have "\<forall>(x, i) \<in> A. v_tag v' x = PAGE_TAG_NONE" using b n h unfolding bi_def headers_only_def by fastforce
  moreover have "\<forall>x < v_len v. x \<notin> \<Union> (blk ` (free_blocks F \<union> A)) \<union> H \<longrightarrow> \<not> (v_tag v' x = PAGE_TAG_BUDDY \<and> v_free v' x)"
    using b h S unfolding bi_def headers_only_def by (metis UnCI subsetD)
  moreover have "v_len v' = v_len v" using h by (simp add: headers_only_def)
  ultimately show ?thesis using b unfolding bi_def by simp
qed

text \<open>Putting a block into its list.\<close>

lemma bi_put:
  assumes b: "bi v F A H" and i: "i < BUDDY_MAX_ORDER" and pH: "blk (p, i) \<subseteq> H" and dv: "2 ^ i dvd p"
    and a: "area_list v' i (F i @ [p])" and l: "links_only (insert p (set (F i))) i v v'"
    and hd: "v_tag v p = PAGE_TAG_BUDDY" "v_ord v p = of_nat i"
  shows "bi (v'\<lparr>v_free := (v_free v')(p := True)\<rparr>) (F(i := F i @ [p])) A (H - blk (p, i))"
proof -
  let ?v = "v'\<lparr>v_free := (v_free v')(p := True)\<rparr>"
  note fb = free_blocks_add [of i F p, OF i]
  have pin: "p \<in> H" using pH by auto
  have nb: "c \<in> free_blocks F \<union> A \<Longrightarrow> blk c \<inter> blk (p, i) = {}" for c using b pH unfolding bi_def by blast
  have np: "(x, j) \<in> free_blocks F \<union> A \<Longrightarrow> x \<noteq> p" for x j using free_head_not_in_transit [OF b] pin by fastforce
  have lists: "lists ?v (F(i := F i @ [p]))"
    unfolding lists_def
  proof (intro conjI allI impI)
    show "length (v_area ?v) = BUDDY_MAX_ORDER" using b l by (simp add: bi_def lists_def links_only_def)
    fix j assume j: "j < BUDDY_MAX_ORDER"
    have "area_list v' j ((F(i := F i @ [p])) j)"
    proof (cases "j = i")
      case False
      have "set (F j) \<inter> insert p (set (F i)) = {}" using other_list_apart [OF b i j] False np j by fastforce
      then show ?thesis using area_list_frame [OF l False, of "F j"] bi_list [OF b j] False by simp
    qed (simp add: a)
    then show "area_list ?v j ((F(i := F i @ [p])) j)" by (simp add: area_list_def page_ok_def)
  qed
  have v: "v_len ?v = v_len v" "v_tag ?v = v_tag v" "v_free ?v = (v_free v)(p := True)" "v_ord ?v = v_ord v" using l by (auto simp: links_only_def)
  have "p + 2 ^ i - 1 \<in> blk (p, i)" by (cases "2 ^ i :: nat") (auto simp: blk_def)
  then have "p + 2 ^ i - 1 \<in> H" "0 < p" using pH b pin unfolding bi_def by auto
  then have "p + 2 ^ i - 1 < v_len v" "0 < p" using b by (auto simp: bi_def)
  then have ok: "blk_ok (v_len v) (p, i)" using dv i by (simp add: blk_ok_def)
  have un: "\<Union> (blk ` (insert (p, i) (free_blocks F) \<union> A)) \<union> (H - blk (p, i)) = \<Union> (blk ` (free_blocks F \<union> A)) \<union> H"
    using pH by blast
  have ap: "apart (insert (p, i) (free_blocks F) \<union> A)"
    using b nb unfolding bi_def apart_def by (simp add: Int_commute)
  have nA: "insert (p, i) (free_blocks F) \<inter> A = {}" using b np unfolding bi_def by blast
  have heads: "\<forall>(x, j) \<in> insert (p, i) (free_blocks F). v_tag v x = PAGE_TAG_BUDDY \<and> ((v_free v)(p := True)) x \<and> v_ord v x = of_nat j"
    using b hd unfolding bi_def by auto
  have out: "x \<notin> \<Union> (blk ` (free_blocks F \<union> A)) \<union> H \<Longrightarrow> x \<noteq> p" for x using pin by blast
  have H: "\<forall>c \<in> insert (p, i) (free_blocks F) \<union> A. blk c \<inter> (H - blk (p, i)) = {}" "H - blk (p, i) \<subseteq> {0 <..< v_len v}"
    using b unfolding bi_def by blast+
  show ?thesis unfolding bi_def fb v un
    using b lists ap ok nA heads out H unfolding bi_def by simp
qed

text \<open>The other half of a block.\<close>

lemma xor_half:
  assumes "(2::nat) ^ i dvd x"
  shows "2 ^ i dvd x XOR 2 ^ i" "2 ^ Suc i dvd min x (x XOR 2 ^ i)"
    "blk (x, i) \<union> blk (x XOR 2 ^ i, i) = blk (min x (x XOR 2 ^ i), Suc i)" "blk (x, i) \<inter> blk (x XOR 2 ^ i, i) = {}"
    "x = x XOR 2 ^ i \<longleftrightarrow> False"
proof -
  obtain k where k: "x = 2 ^ i * k" using assms by auto
  have p: "push_bit i n = 2 ^ i * n" for n :: nat by (simp add: push_bit_eq_mult mult.commute)
  have "x XOR 2 ^ i = push_bit i k XOR push_bit i 1" by (simp add: k p)
  also have "\<dots> = push_bit i (k XOR 1)" by (rule push_bit_xor [symmetric])
  finally have y: "x XOR 2 ^ i = 2 ^ i * (k XOR 1)" by (simp only: p)
  have q: "k XOR 1 = (if even k then k + 1 else k - 1)" by (simp add: xor_Suc_0_eq)
  show "2 ^ i dvd x XOR 2 ^ i" by (simp add: y)
  show "2 ^ Suc i dvd min x (x XOR 2 ^ i)" "blk (x, i) \<union> blk (x XOR 2 ^ i, i) = blk (min x (x XOR 2 ^ i), Suc i)"
    "blk (x, i) \<inter> blk (x XOR 2 ^ i, i) = {}" "x = x XOR 2 ^ i \<longleftrightarrow> False"
    unfolding y q unfolding k by (cases "even k"; auto simp: blk_def algebra_simps elim!: evenE oddE)+
qed

section \<open>Moving blocks\<close>

lemma bi_page_ok: "\<lbrakk>bi v F A H; x \<in> H\<rbrakk> \<Longrightarrow> page_ok v x"
  by (auto simp: bi_def page_ok_def)

lemma order_small: "i < BUDDY_MAX_ORDER \<Longrightarrow> (of_nat i :: u64) < 2 ^ 7"
  by (simp add: BUDDY_MAX_ORDER_def word_less_nat_alt unat_of_nat)

lemma tag_small: "PAGE_TAG_BUDDY < 2 ^ 3" "PAGE_TAG_NONE < 2 ^ 3"
  by (simp_all add: PAGE_TAG_BUDDY_def PAGE_TAG_NONE_def)

lemma bi_free_head:
  assumes "bi v F A H" "i < BUDDY_MAX_ORDER" "x \<in> set (F i)"
  shows "v_tag v x = PAGE_TAG_BUDDY" "v_free v x" "v_ord v x = of_nat i" "blk_ok (v_len v) (x, i)"
proof -
  have m: "(x, i) \<in> free_blocks F" using assms by simp
  have h: "\<forall>(x, i) \<in> free_blocks F. v_tag v x = PAGE_TAG_BUDDY \<and> v_free v x \<and> v_ord v x = of_nat i"
    "\<forall>c \<in> free_blocks F \<union> A. blk_ok (v_len v) c" using assms(1) unfolding bi_def by simp_all
  show "v_tag v x = PAGE_TAG_BUDDY" "v_free v x" "v_ord v x = of_nat i" using bspec [OF h(1) m] by simp_all
  show "blk_ok (v_len v) (x, i)" using bspec [OF h(2)] m by blast
qed

lemma remove_from_free_area_spec:
  assumes b: "bi (view b) F A H" and i: "i < BUDDY_MAX_ORDER" and F: "F i = p # xs"
  shows "\<exists>b'. buddy_remove_from_free_area i b = Some (Some p, b') \<and> bi (view b') (F(i := xs)) A (H \<union> blk (p, i))
    \<and> v_tag (view b') = v_tag (view b) \<and> v_len (view b') = v_len (view b)"
proof -
  have "area_list (view b) i (p # xs)" using bi_list [OF b i] F by simp
  from fa_pop_head_spec [OF this] obtain b1 where b1: "buddy_fa_pop_head i b = Some (Some p, b1)" "area_list (view b1) i xs"
    "links_only (insert p (set xs)) i (view b) (view b1)" by auto
  have t: "bi (view b1) (F(i := xs)) A (H \<union> blk (p, i))" using bi_take [OF b i, of "[]" p xs "view b1"] F b1 by simp
  have "p < v_len (view b1)" using bi_page_ok [OF t, of p] by (simp add: page_ok_def)
  from set_free_view [OF this, of False] obtain b2 where b2: "upd_meta p (buddy_page_set_free False) b1 = Some b2"
    "view b2 = (view b1)\<lparr>v_free := (v_free (view b1))(p := False)\<rparr>" by auto
  have "headers_only {p} (view b1) (view b2)" by (simp add: headers_only_def b2)
  then have "bi (view b2) (F(i := xs)) A (H \<union> blk (p, i))" by (rule bi_headers [OF t]) simp
  then show ?thesis using b1 b2 by (simp add: buddy_remove_from_free_area_def links_only_def)
qed

lemma add_to_free_area_spec:
  assumes b: "bi (view b) F A H" and i: "i < BUDDY_MAX_ORDER" and pH: "blk (p, i) \<subseteq> H" and dv: "2 ^ i dvd p"
    and hd: "v_tag (view b) p = PAGE_TAG_BUDDY" "v_ord (view b) p = of_nat i"
  shows "\<exists>b'. buddy_add_to_free_area p i b = Some b' \<and> bi (view b') (F(i := F i @ [p])) A (H - blk (p, i))
    \<and> v_tag (view b') = v_tag (view b) \<and> v_ord (view b') = v_ord (view b) \<and> v_len (view b') = v_len (view b)"
proof -
  have pin: "p \<in> H" using pH by auto
  note ok = bi_page_ok [OF b pin]
  have "p \<notin> set (F i)" using free_head_not_in_transit [OF b, of "(p, i)"] pin i by auto
  from fa_push_tail_spec [OF bi_list [OF b i] ok this] obtain b1 where b1: "buddy_fa_push_tail i p b = Some b1"
    "area_list (view b1) i (F i @ [p])" "links_only (insert p (set (F i))) i (view b) (view b1)" by auto
  have "p < v_len (view b1)" using ok b1(3) by (simp add: links_only_def page_ok_def)
  from set_free_view [OF this, of True] obtain b2 where b2: "upd_meta p (buddy_page_set_free True) b1 = Some b2"
    "view b2 = (view b1)\<lparr>v_free := (v_free (view b1))(p := True)\<rparr>" by auto
  have "buddy_page_assert_tag p PAGE_TAG_BUDDY b = Some ()" using assert_tag_view [of p b] ok hd by (simp add: page_ok_def)
  then show ?thesis using bi_put [OF b i pH dv b1(2,3) hd] b1 b2 by (simp add: buddy_add_to_free_area_def links_only_def)
qed

text \<open>One split hands both halves to the next lower list.\<close>

lemma blk_split: "blk (p, Suc n) = blk (p, n) \<union> blk (p + 2 ^ n, n)" "blk (p, n) \<inter> blk (p + 2 ^ n, n) = {}"
  by (auto simp: blk_def)

lemma split_block_spec:
  assumes b: "bi (view b) F A {}" and n: "Suc n < BUDDY_MAX_ORDER" and F: "F (Suc n) = p # xs"
  shows "\<exists>b'. split_block (Suc n) b = Some (True, b') \<and> bi (view b') (F(Suc n := xs, n := F n @ [p, p + 2 ^ n])) A {}
    \<and> v_len (view b') = v_len (view b)"
proof -
  let ?q = "p + 2 ^ n" and ?F1 = "F(Suc n := xs)"
  obtain b1 where b1: "buddy_remove_from_free_area (Suc n) b = Some (Some p, b1)" "bi (view b1) ?F1 A (blk (p, Suc n))"
    "v_tag (view b1) = v_tag (view b)" "v_len (view b1) = v_len (view b)"
    using remove_from_free_area_spec [OF b n F] by auto
  have hp: "v_tag (view b) p = PAGE_TAG_BUDDY" "2 ^ Suc n dvd p" using bi_free_head [OF b n, of p] F by (auto simp: blk_ok_def)
  have in_blk: "p \<in> blk (p, Suc n)" "?q \<in> blk (p, Suc n)" by (auto simp: blk_def)
  have lt: "p < v_len (view b1)" "?q < v_len (view b1)" using bi_page_ok [OF b1(2)] in_blk by (auto simp: page_ok_def)
  have as: "buddy_page_assert_tag p PAGE_TAG_BUDDY b1 = Some ()" using assert_tag_view [OF lt(1)] b1(3) hp by simp
  obtain b2 where b2: "upd_meta ?q (page_set_tag PAGE_TAG_BUDDY) b1 = Some b2"
    "view b2 = (view b1)\<lparr>v_tag := (v_tag (view b1))(?q := PAGE_TAG_BUDDY)\<rparr>" using set_tag_view [OF lt(2) tag_small(1)] by auto
  obtain b3 where b3: "upd_meta ?q (buddy_page_set_next_pfn 0) b2 = Some b3"
    "view b3 = (view b2)\<lparr>v_next := (v_next (view b2))(?q := None)\<rparr>" using clear_next_view [of ?q b2] lt b2 by auto
  have ord: "(of_nat n :: u64) < 2 ^ 7" by (rule order_small) (use n in simp)
  obtain b4 where b4: "upd_meta p (buddy_page_set_order (of_nat n)) b3 = Some b4"
    "view b4 = (view b3)\<lparr>v_ord := (v_ord (view b3))(p := of_nat n)\<rparr>" using set_order_view [of p b3, OF _ ord] lt b2 b3 by auto
  obtain b5 where b5: "upd_meta ?q (buddy_page_set_order (of_nat n)) b4 = Some b5"
    "view b5 = (view b4)\<lparr>v_ord := (v_ord (view b4))(?q := of_nat n)\<rparr>" using set_order_view [of ?q b4, OF _ ord] lt b2 b3 b4 by auto
  have "headers_only {p, ?q} (view b1) (view b5)" by (simp add: headers_only_def b2 b3 b4 b5)
  then have i5: "bi (view b5) ?F1 A (blk (p, n) \<union> blk (?q, n))" using bi_headers [OF b1(2)] in_blk by (simp add: blk_split)
  have n': "n < BUDDY_MAX_ORDER" using n by simp
  have dv: "2 ^ n dvd p" "2 ^ n dvd ?q" using hp(2) dvd_mult_right [of 2 "2 ^ n" p] by auto
  have h5: "v_tag (view b5) p = PAGE_TAG_BUDDY" "v_ord (view b5) p = of_nat n" "v_tag (view b5) ?q = PAGE_TAG_BUDDY" "v_ord (view b5) ?q = of_nat n"
    using b1(3) hp by (simp_all add: b2 b3 b4 b5)
  obtain b6 where b6: "buddy_add_to_free_area p n b5 = Some b6" "bi (view b6) (?F1(n := ?F1 n @ [p])) A (blk (?q, n))"
    "v_tag (view b6) = v_tag (view b5)" "v_ord (view b6) = v_ord (view b5)" "v_len (view b6) = v_len (view b5)"
    using add_to_free_area_spec [OF i5 n' _ dv(1) h5(1,2)] blk_split(2) [of p n] by (auto simp: Un_Diff Diff_triv Int_commute)
  obtain b7 where b7: "buddy_add_to_free_area ?q n b6 = Some b7" "bi (view b7) (F(Suc n := xs, n := F n @ [p, ?q])) A {}"
    "v_len (view b7) = v_len (view b6)"
    using add_to_free_area_spec [OF b6(2) n' _ dv(2)] h5 b6 by auto
  show ?thesis using b1 as b2 b3 b4 b5 b6 b7 lt by (simp add: split_block_def)
qed

section \<open>Allocating\<close>

text \<open>The order of a request: the least block that holds it.\<close>

definition block_order :: "nat \<Rightarrow> nat" where
  "block_order n = (LEAST k. n \<le> 2 ^ k)"

lemma block_order_eq: "n \<le> 2 ^ k \<Longrightarrow> (k = 0 \<or> 2 ^ (k - 1) < n) \<Longrightarrow> block_order n = k"
  unfolding block_order_def
proof (rule Least_equality)
  fix j assume a: "k = 0 \<or> 2 ^ (k - 1) < n" and j: "n \<le> 2 ^ j"
  show "k \<le> j"
  proof (rule ccontr)
    assume "\<not> k \<le> j"
    then have "(2::nat) ^ j \<le> 2 ^ (k - 1)" by (intro power_increasing) auto
    then have "n \<le> 2 ^ (k - 1)" using j by (rule order_trans [rotated])
    then show False using a \<open>\<not> k \<le> j\<close> by auto
  qed
qed

lemma order_from_step:
  assumes "k \<le> 63" "unat count \<le> 2 ^ 63" "k = 0 \<or> 2 ^ (k - 1) < unat count"
  shows "order_from count k (2 ^ k) = Some (block_order (unat count))"
  using assms
proof (induction "63 - k" arbitrary: k)
  case (Suc m)
  have u: "unat ((2::u64) ^ k) = 2 ^ k" using Suc.prems(1) using unat_of_nat_small [of "2 ^ k", where 'a = 64] power_strict_increasing [of k 64 "2::nat"] by simp
  show ?case
  proof (cases "(2::u64) ^ k < count")
    case True
    then have "2 ^ k < unat count" by (simp add: word_less_nat_alt u)
    then have "order_from count (Suc k) (2 ^ Suc k) = Some (block_order (unat count))"
      using Suc.hyps(2) Suc.prems by (intro Suc.hyps(1)) auto
    then show ?thesis using True by (subst order_from.simps) (simp add: push_bit_eq_mult mult.commute)
  next
    case False
    then have "block_order (unat count) = k" using Suc.prems by (intro block_order_eq) (auto simp: word_less_nat_alt u)
    then show ?thesis using False by (subst order_from.simps) simp
  qed
next
  case 0
  then have k: "k = 63" by simp
  have "unat ((2::u64) ^ k) = 2 ^ k" using k by simp
  then have "\<not> (2::u64) ^ k < count" "block_order (unat count) = k"
    using "0.prems" k by (auto simp: word_less_nat_alt intro!: block_order_eq)
  then show ?case by (subst order_from.simps) simp
qed

lemma order_from_spec: "unat count \<le> 2 ^ 63 \<Longrightarrow> order_from count 0 1 = Some (block_order (unat count))"
  using order_from_step [of 0 count] by simp

lemma area_count:
  assumes "bi (view b) F A H" "i < BUDDY_MAX_ORDER"
  shows "\<exists>a. rd (free_area b) i = Some a \<and> (nr_free a = 0 \<longleftrightarrow> F i = [])"
proof -
  have l: "area_list (view b) i (F i)" by (rule bi_list [OF assms])
  have "set (F i) \<subseteq> {..< 2 ^ 52}" using l by (auto simp: area_list_def page_ok_def)
  then have "card (set (F i)) \<le> 2 ^ 52" using card_mono [of "{..< 2 ^ 52 :: nat}" "set (F i)"] by simp
  then have "length (F i) \<le> 2 ^ 52" using l by (simp add: area_list_def distinct_card)
  then have "(of_nat (length (F i)) :: u64) = 0 \<longleftrightarrow> F i = []"
    by (simp add: word_unat_eq_iff unat_of_nat)
  then show ?thesis using l area_view [of i b] by (simp add: area_list_def)
qed

lemma find_area_spec:
  assumes "bi (view b) F A H" "i \<le> BUDDY_MAX_ORDER"
  shows "\<exists>c. find_area b i = Some c \<and> i \<le> c \<and> c \<le> BUDDY_MAX_ORDER \<and> (\<forall>j. i \<le> j \<and> j < c \<longrightarrow> F j = []) \<and> (c < BUDDY_MAX_ORDER \<longrightarrow> F c \<noteq> [])"
  using assms(2)
proof (induction "BUDDY_MAX_ORDER - i" arbitrary: i)
  case 0
  then show ?case by (subst find_area.simps) auto
next
  case (Suc m)
  then have i: "i < BUDDY_MAX_ORDER" by simp
  obtain a where a: "rd (free_area b) i = Some a" "nr_free a = 0 \<longleftrightarrow> F i = []" using area_count [OF assms(1) i] by auto
  show ?case
  proof (cases "F i = []")
    case True
    obtain c where c: "find_area b (i + 1) = Some c" "i + 1 \<le> c" "c \<le> BUDDY_MAX_ORDER" "\<forall>j. i + 1 \<le> j \<and> j < c \<longrightarrow> F j = []" "c < BUDDY_MAX_ORDER \<longrightarrow> F c \<noteq> []"
      using Suc.hyps(1) [of "i + 1"] Suc.hyps(2) i by fastforce
    then have "\<forall>j. i \<le> j \<and> j < c \<longrightarrow> F j = []" using True by (metis Suc_eq_plus1 Suc_leI le_neq_implies_less)
    moreover have "find_area b i = Some c" "i \<le> c" using a i True c by (simp_all add: find_area.simps [of b i] rd_def)
    ultimately show ?thesis using c by (intro exI [of _ c]) simp
  next
    case False
    then show ?thesis using a i by (auto simp: find_area.simps [of b i] rd_def)
  qed
qed

text \<open>Splitting down to an order leaves one upper half in each list on the way.\<close>

definition ladder :: "nat \<Rightarrow> nat \<Rightarrow> nat \<Rightarrow> nat list \<Rightarrow> (nat \<Rightarrow> nat list) \<Rightarrow> nat \<Rightarrow> nat list" where
  "ladder k c p xs F = (\<lambda>j. if j = c then xs else if k \<le> j \<and> j < c then [p + 2 ^ j] else F j)"

lemma split_to_spec:
  assumes "bi (view b) F A {}" "k \<le> c" "c < BUDDY_MAX_ORDER" "F c = p # xs" "\<forall>j. k \<le> j \<and> j < c \<longrightarrow> F j = []"
  shows "\<exists>b' F'. split_to k c b = Some (True, b') \<and> bi (view b') F' A {} \<and> v_len (view b') = v_len (view b)
    \<and> F' k = p # ladder k c p xs F k \<and> F'(k := ladder k c p xs F k) = ladder k c p xs F"
  using assms
proof (induction c arbitrary: b F xs)
  case 0
  then show ?case by (auto simp: ladder_def fun_eq_iff)
next
  case (Suc c)
  show ?case
  proof (cases "k = Suc c")
    case True
    then show ?thesis using Suc.prems by (auto simp: ladder_def fun_eq_iff)
  next
    case False
    then have k: "k \<le> c" using Suc.prems by simp
    define G where "G = F(Suc c := xs, c := [p, p + 2 ^ c])"
    have "F c = []" using Suc.prems(5) k by simp
    then obtain b1 where b1: "split_block (Suc c) b = Some (True, b1)" "bi (view b1) G A {}" "v_len (view b1) = v_len (view b)"
      using split_block_spec [OF Suc.prems(1,3,4)] by (auto simp: G_def)
    have "G c = [p, p + 2 ^ c]" by (simp add: G_def)
    have "\<forall>j. k \<le> j \<and> j < c \<longrightarrow> G j = []" using Suc.prems(5) by (simp add: G_def)
    then have
      "\<exists>b' F'. split_to k c b1 = Some (True, b') \<and> bi (view b') F' A {} \<and> v_len (view b') = v_len (view b1)
        \<and> F' k = p # ladder k c p [p + 2 ^ c] G k \<and> F'(k := ladder k c p [p + 2 ^ c] G k) = ladder k c p [p + 2 ^ c] G"
      using Suc.prems(3) b1(2) k \<open>G c = [p, p + 2 ^ c]\<close> by (intro Suc.IH) simp_all
    then obtain b2 F' where b2: "split_to k c b1 = Some (True, b2)" "bi (view b2) F' A {}" "v_len (view b2) = v_len (view b1)"
      "F' k = p # ladder k c p [p + 2 ^ c] G k" "F'(k := ladder k c p [p + 2 ^ c] G k) = ladder k c p [p + 2 ^ c] G" by (elim exE conjE)
    have "ladder k c p [p + 2 ^ c] G = ladder k (Suc c) p xs F" using k by (auto simp: ladder_def fun_eq_iff less_Suc_eq G_def)
    then show ?thesis using b1 b2 k by (intro exI [of _ b2] exI [of _ F'] conjI) simp_all
  qed
qed

text \<open>Pages in transit become a block in use, and back.\<close>

lemma bi_use:
  assumes b: "bi v F A H" and i: "i < BUDDY_MAX_ORDER" and pH: "blk (p, i) \<subseteq> H" and dv: "2 ^ i dvd p" and hd: "v_tag v p = PAGE_TAG_NONE"
  shows "bi v F (insert (p, i) A) (H - blk (p, i))"
proof -
  have pin: "p \<in> H" using pH by auto
  have nb: "c \<in> free_blocks F \<union> A \<Longrightarrow> blk c \<inter> blk (p, i) = {}" for c using b pH unfolding bi_def by blast
  have np: "(p, j) \<notin> free_blocks F \<union> A" for j using free_head_not_in_transit [OF b, of "(p, j)"] pin by auto
  have "p + 2 ^ i - 1 \<in> blk (p, i)" by (cases "2 ^ i :: nat") (auto simp: blk_def)
  then have "p + 2 ^ i - 1 \<in> H" "0 < p" using pH b pin unfolding bi_def by auto
  then have "p + 2 ^ i - 1 < v_len v" "0 < p" using b by (auto simp: bi_def)
  then have ok: "blk_ok (v_len v) (p, i)" using dv i by (simp add: blk_ok_def)
  have un: "\<Union> (blk ` (free_blocks F \<union> insert (p, i) A)) \<union> (H - blk (p, i)) = \<Union> (blk ` (free_blocks F \<union> A)) \<union> H"
    using pH by blast
  have ap: "apart (free_blocks F \<union> insert (p, i) A)"
    using b nb unfolding bi_def apart_def by (simp add: Int_commute)
  have nA: "free_blocks F \<inter> insert (p, i) A = {}" using b np unfolding bi_def by blast
  have H: "\<forall>c \<in> free_blocks F \<union> insert (p, i) A. blk c \<inter> (H - blk (p, i)) = {}" "H - blk (p, i) \<subseteq> {0 <..< v_len v}"
    using b unfolding bi_def by blast+
  show ?thesis unfolding bi_def un
    using b ap ok nA H hd unfolding bi_def by simp
qed

lemma bi_release:
  assumes b: "bi v F A H" and p: "(p, i) \<in> A"
  shows "bi v F (A - {(p, i)}) (H \<union> blk (p, i))"
proof -
  have nf: "(p, i) \<notin> free_blocks F" using b p unfolding bi_def by blast
  have un: "\<Union> (blk ` (free_blocks F \<union> (A - {(p, i)}))) \<union> (H \<union> blk (p, i)) = \<Union> (blk ` (free_blocks F \<union> A)) \<union> H"
    using p by blast
  have ok: "blk_ok (v_len v) (p, i)" using b p unfolding bi_def by blast
  have ap: "\<forall>c \<in> free_blocks F \<union> (A - {(p, i)}). blk c \<inter> blk (p, i) = {}"
    using b p nf unfolding bi_def apart_def by (metis DiffD1 DiffD2 UnCI UnE insertCI)
  have sub: "apart (free_blocks F \<union> (A - {(p, i)}))"
    using b unfolding bi_def by (meson Diff_subset Un_mono apart_subset subset_refl)
  have H: "H \<union> blk (p, i) \<subseteq> {0 <..< v_len v}" using b ok by (auto simp: bi_def blk_ok_def blk_def)
  show ?thesis unfolding bi_def un
    using b ap sub H unfolding bi_def by (simp add: Int_Un_distrib) blast
qed

section \<open>The allocator's invariant\<close>

text \<open>No two halves of a block are free at once.\<close>

definition no_pairs :: "(nat \<Rightarrow> nat list) \<Rightarrow> bool" where
  "no_pairs F \<longleftrightarrow> (\<forall>i. Suc i < BUDDY_MAX_ORDER \<longrightarrow> (\<forall>x \<in> set (F i). x XOR 2 ^ i \<notin> set (F i)))"

definition buddy_ok :: "buddy \<Rightarrow> (nat \<Rightarrow> nat list) \<Rightarrow> block set \<Rightarrow> bool" where
  "buddy_ok b F A \<longleftrightarrow> bi (view b) F A {}"

lemma no_pairs_ladder:
  assumes "bi v F A {}" "no_pairs F" "F c = p # xs" "k \<le> c" "c < BUDDY_MAX_ORDER"
  shows "no_pairs (ladder k c p xs F)"
  unfolding no_pairs_def
proof (intro allI impI ballI)
  fix i x assume i: "Suc i < BUDDY_MAX_ORDER" and x: "x \<in> set (ladder k c p xs F i)"
  show "x XOR 2 ^ i \<notin> set (ladder k c p xs F i)"
  proof (cases "k \<le> i \<and> i < c")
    case True
    have "2 ^ c dvd p" using bi_free_head(4) [OF assms(1,5), of p] assms(3) by (simp add: blk_ok_def)
    then have "2 ^ Suc i dvd p" by (rule power_le_dvd) (use True in simp)
    then have "2 ^ i dvd p + 2 ^ i" using dvd_mult_right [of 2 "2 ^ i" p] by simp
    then show ?thesis using True x xor_half(5) [of i "p + 2 ^ i"] by (auto simp: ladder_def)
  next
    case False
    then have "set (ladder k c p xs F i) \<subseteq> set (F i)" using assms(3) by (auto simp: ladder_def)
    then show ?thesis using assms(2) i x unfolding no_pairs_def by blast
  qed
qed

lemma blk_ladder: "k \<le> c \<Longrightarrow> blk (p, c) = blk (p, k) \<union> (\<Union>j \<in> {k ..< c}. blk (p + 2 ^ j, j))"
proof (induction c)
  case (Suc c)
  show ?case
  proof (cases "k = Suc c")
    case False
    then have "{k ..< Suc c} = insert c {k ..< c}" using Suc.prems by auto
    then show ?thesis using Suc False by (simp add: blk_split Un_ac)
  qed simp
qed simp

lemma free_blocks_ladder:
  assumes "F c = p # xs" "distinct (F c)" "c < BUDDY_MAX_ORDER" "\<forall>j. k \<le> j \<and> j < c \<longrightarrow> F j = []"
  shows "free_blocks (ladder k c p xs F) = (free_blocks F - {(p, c)}) \<union> (\<lambda>j. (p + 2 ^ j, j)) ` {k ..< c}"
proof (rule set_eqI)
  fix d :: block
  obtain x i where d: "d = (x, i)" by (cases d)
  consider "i = c" | "k \<le> i \<and> i < c" | "i \<noteq> c" "\<not> (k \<le> i \<and> i < c)" by blast
  then show "d \<in> free_blocks (ladder k c p xs F) \<longleftrightarrow> d \<in> (free_blocks F - {(p, c)}) \<union> (\<lambda>j. (p + 2 ^ j, j)) ` {k ..< c}"
    using assms by cases (auto simp: d ladder_def)
qed

lemma free_pages_ladder:
  assumes "F c = p # xs" "distinct (F c)" "k \<le> c" "c < BUDDY_MAX_ORDER" "\<forall>j. k \<le> j \<and> j < c \<longrightarrow> F j = []"
  shows "free_pages F = free_pages (ladder k c p xs F) \<union> blk (p, k)"
proof -
  have "(p, c) \<in> free_blocks F" using assms by simp
  then have "free_pages F = \<Union> (blk ` (free_blocks F - {(p, c)})) \<union> blk (p, c)" unfolding free_pages_def by blast
  also have "\<dots> = free_pages (ladder k c p xs F) \<union> blk (p, k)"
    unfolding free_pages_def free_blocks_ladder [of F c p xs, OF assms(1,2,4,5)] blk_ladder [OF assms(3)] by (simp add: image_Un image_image Un_ac)
  finally show ?thesis .
qed

lemma alloc_found:
  assumes b: "buddy_ok b F A" and n: "count \<noteq> 0" "unat count \<le> 2 ^ 63" and k: "block_order (unat count) = k" "k \<le> c" "c < BUDDY_MAX_ORDER"
    and F: "F c = p # xs" "\<forall>j. k \<le> j \<and> j < c \<longrightarrow> F j = []"
  shows "\<exists>b'. buddy_alloc_pages b count = Some (Inr (p * PAGE_BYTES, b')) \<and> buddy_ok b' (ladder k c p xs F) (insert (p, k) A)
    \<and> v_len (view b') = v_len (view b)"
proof -
  have bi: "bi (view b) F A {}" using b by (simp add: buddy_ok_def)
  obtain c' where c': "find_area b k = Some c'" "k \<le> c'" "\<forall>j. k \<le> j \<and> j < c' \<longrightarrow> F j = []" "c' < BUDDY_MAX_ORDER \<longrightarrow> F c' \<noteq> []"
    using find_area_spec [OF bi, of k] k by auto
  then have "c' = c" using F k by (metis linorder_neqE_nat list.distinct(1) order.strict_trans)
  then have fa: "find_area b k = Some c" using c' by simp
  obtain b1 F1 where b1: "split_to k c b = Some (True, b1)" "bi (view b1) F1 A {}" "v_len (view b1) = v_len (view b)"
    "F1 k = p # ladder k c p xs F k" "F1(k := ladder k c p xs F k) = ladder k c p xs F"
    using split_to_spec [of b F A k c p xs, OF bi k(2,3) F] by (elim exE conjE)
  have kM: "k < BUDDY_MAX_ORDER" using k by simp
  have hp: "v_tag (view b1) p = PAGE_TAG_BUDDY" "2 ^ k dvd p" using bi_free_head [OF b1(2) kM, of p] b1(4) by (auto simp: blk_ok_def)
  obtain b2 where b2: "buddy_remove_from_free_area k b1 = Some (Some p, b2)" "bi (view b2) (ladder k c p xs F) A (blk (p, k))"
    "v_tag (view b2) = v_tag (view b1)" "v_len (view b2) = v_len (view b1)"
    using remove_from_free_area_spec [OF b1(2) kM b1(4)] unfolding b1(5) by auto
  have lt: "p < v_len (view b2)" using bi_page_ok [OF b2(2), of p] by (simp add: page_ok_def)
  obtain b3 where b3: "upd_meta p (page_set_tag PAGE_TAG_NONE) b2 = Some b3" "view b3 = (view b2)\<lparr>v_tag := (v_tag (view b2))(p := PAGE_TAG_NONE)\<rparr>"
    using set_tag_view [OF lt tag_small(2)] by auto
  have "headers_only {p} (view b2) (view b3)" by (simp add: headers_only_def b3)
  then have "bi (view b3) (ladder k c p xs F) A (blk (p, k))" by (rule bi_headers [OF b2(2)]) simp
  from bi_use [OF this kM _ hp(2)] have "bi (view b3) (ladder k c p xs F) (insert (p, k) A) {}" by (simp add: b3)
  moreover have "buddy_page_assert_tag p PAGE_TAG_BUDDY b2 = Some ()" using assert_tag_view [OF lt] b2(3) hp by simp
  ultimately show ?thesis using n kM order_from_spec [OF n(2)] k fa b1 b2 b3 by (simp add: buddy_alloc_pages_def buddy_ok_def)
qed

lemma alloc_none:
  assumes b: "buddy_ok b F A" and n: "count \<noteq> 0" "unat count \<le> 2 ^ 63" and F: "\<forall>i. block_order (unat count) \<le> i \<and> i < BUDDY_MAX_ORDER \<longrightarrow> F i = []"
  shows "buddy_alloc_pages b count = Some (Inl TOO_MANY_PAGES)"
proof (cases "block_order (unat count) < BUDDY_MAX_ORDER")
  case True
  then obtain c where "find_area b (block_order (unat count)) = Some c" "block_order (unat count) \<le> c" "c < BUDDY_MAX_ORDER \<longrightarrow> F c \<noteq> []"
    using find_area_spec [of b F A "{}" "block_order (unat count)"] b by (auto simp: buddy_ok_def)
  moreover from this have "\<not> c < BUDDY_MAX_ORDER" using F by blast
  ultimately show ?thesis using n True order_from_spec [OF n(2)] by (simp add: buddy_alloc_pages_def)
next
  case False
  then show ?thesis using n order_from_spec [OF n(2)] by (simp add: buddy_alloc_pages_def)
qed

text \<open>What an allocation does.\<close>

lemma alloc_spec:
  assumes b: "buddy_ok b F A" and n: "count \<noteq> 0" "unat count \<le> 2 ^ 63" and k: "k = block_order (unat count)"
  shows "(if \<exists>i. k \<le> i \<and> i < BUDDY_MAX_ORDER \<and> F i \<noteq> []
     then \<exists>p b' F'. buddy_alloc_pages b count = Some (Inr (p * PAGE_BYTES, b')) \<and> buddy_ok b' F' (insert (p, k) A) \<and> (p, k) \<notin> A
       \<and> free_pages F = free_pages F' \<union> blk (p, k) \<and> free_pages F' \<inter> blk (p, k) = {} \<and> v_len (view b') = v_len (view b)
       \<and> (no_pairs F \<longrightarrow> no_pairs F')
     else buddy_alloc_pages b count = Some (Inl TOO_MANY_PAGES))"
proof (cases "\<exists>i. k \<le> i \<and> i < BUDDY_MAX_ORDER \<and> F i \<noteq> []")
  case True
  define c where "c = (LEAST i. k \<le> i \<and> i < BUDDY_MAX_ORDER \<and> F i \<noteq> [])"
  have c: "k \<le> c \<and> c < BUDDY_MAX_ORDER \<and> F c \<noteq> []" unfolding c_def using True by (rule LeastI_ex)
  have e: "\<forall>j. k \<le> j \<and> j < c \<longrightarrow> F j = []" using not_less_Least [of _ "\<lambda>i. k \<le> i \<and> i < BUDDY_MAX_ORDER \<and> F i \<noteq> []"] c
    by (metis c_def order.strict_trans)
  obtain p xs where F: "F c = p # xs" using c by (cases "F c") auto
  have bi: "bi (view b) F A {}" using b by (simp add: buddy_ok_def)
  obtain b' where b': "buddy_alloc_pages b count = Some (Inr (p * PAGE_BYTES, b'))" "buddy_ok b' (ladder k c p xs F) (insert (p, k) A)"
    "v_len (view b') = v_len (view b)" using alloc_found [of b F A count k c p xs, OF b n k [symmetric] _ _ F e] c by auto
  have "distinct (F c)" using bi_list [OF bi, of c] c by (simp add: area_list_def)
  then have "free_pages F = free_pages (ladder k c p xs F) \<union> blk (p, k)" using free_pages_ladder [of F c p xs k] F e c by simp
  moreover have "free_pages (ladder k c p xs F) \<inter> blk (p, k) = {}"
    using b'(2) unfolding buddy_ok_def bi_def apart_def free_pages_def by blast
  moreover have "(p, k) \<notin> A"
  proof
    assume "(p, k) \<in> A"
    then have "(p, k) = (p, c)" "(p, c) \<in> free_blocks F" using apart_head [of "free_blocks F \<union> A" p k c] bi F c by (auto simp: bi_def)
    moreover have "free_blocks F \<inter> A = {}" using bi by (simp add: bi_def)
    ultimately show False using \<open>(p, k) \<in> A\<close> by (metis disjoint_iff)
  qed
  moreover have "no_pairs F \<longrightarrow> no_pairs (ladder k c p xs F)" using no_pairs_ladder [OF bi _ F] c by simp
  ultimately show ?thesis using True b' by auto
next
  case False
  then show ?thesis using alloc_none [OF b n] k by auto
qed

section \<open>Freeing\<close>

lemma aligned_in:
  assumes "2 ^ i dvd x" "2 ^ j dvd m" "y \<in> blk (x, i)" "y \<in> blk (m, j)" "j \<le> i"
  shows "blk (m, j) \<subseteq> blk (x, i)"
proof -
  obtain a c where a: "x = 2 ^ i * a" and c: "m = 2 ^ j * c" using assms(1,2) by (elim dvdE)
  have i: "(2::nat) ^ i = 2 ^ j * 2 ^ (i - j)" using assms(5) by (simp add: power_add [symmetric])
  have y: "2 ^ j * c \<le> y" "y < 2 ^ j * (c + 1)" "2 ^ j * (2 ^ (i - j) * a) \<le> y" "y < 2 ^ j * (2 ^ (i - j) * (a + 1))"
    using assms(3,4) by (auto simp: blk_def a c i algebra_simps)
  have "(2::nat) ^ j * (2 ^ (i - j) * a) < 2 ^ j * (c + 1)" "(2::nat) ^ j * c < 2 ^ j * (2 ^ (i - j) * (a + 1))" using y by linarith+
  then have "2 ^ (i - j) * a < c + 1" "c < 2 ^ (i - j) * (a + 1)" by (simp_all only: mult_less_cancel1)
  then have "(2::nat) ^ j * (2 ^ (i - j) * a) \<le> 2 ^ j * c" "(2::nat) ^ j * (c + 1) \<le> 2 ^ j * (2 ^ (i - j) * (a + 1))" by (simp_all only: mult_le_mono2 Suc_eq_plus1 [symmetric] less_Suc_eq_le Suc_leI)
  then show ?thesis by (auto simp: blk_def a c i algebra_simps)
qed

lemma bi_block: "\<lbrakk>bi v F A H; c \<in> free_blocks F \<union> A\<rbrakk> \<Longrightarrow> blk_ok (v_len v) c \<and> blk c \<inter> H = {}"
  unfolding bi_def by blast

text \<open>A buddy marked free with the right order is a block of the free list.\<close>

lemma buddy_is_listed:
  assumes b: "bi v F A (blk (p, k))" and k: "Suc k < BUDDY_MAX_ORDER" and dv: "2 ^ k dvd p"
    and y: "y = p XOR 2 ^ k" "y < v_len v" "v_tag v y = PAGE_TAG_BUDDY" "v_free v y" "v_ord v y = of_nat k"
  shows "y \<in> set (F k)"
proof -
  have dy: "2 ^ k dvd y" and un: "blk (p, k) \<union> blk (y, k) = blk (min p y, Suc k)" and dj: "blk (p, k) \<inter> blk (y, k) = {}" and dm: "2 ^ Suc k dvd min p y"
    using xor_half [OF dv] by (auto simp: y(1))
  have "y \<in> \<Union> (blk ` (free_blocks F \<union> A)) \<union> blk (p, k)" using b y(2-4) unfolding bi_def by blast
  moreover have "y \<notin> blk (p, k)" using dj head_in_blk [of y k] by blast
  ultimately obtain d where "d \<in> free_blocks F \<union> A" "y \<in> blk d" by blast
  then obtain x i where c: "(x, i) \<in> free_blocks F \<union> A" "y \<in> blk (x, i)" by (cases d) simp
  have ok: "2 ^ i dvd x" "i < BUDDY_MAX_ORDER" "blk (x, i) \<inter> blk (p, k) = {}" using bi_block [OF b c(1)] by (auto simp: blk_ok_def)
  have "i \<le> k"
  proof (rule ccontr)
    assume "\<not> i \<le> k"
    then have "blk (min p y, Suc k) \<subseteq> blk (x, i)" using un by (intro aligned_in [OF ok(1) dm c(2)]) (auto simp flip: un)
    then show False using ok(3) un head_in_blk [of p k] by blast
  qed
  then have "blk (x, i) \<subseteq> blk (y, k)" by (intro aligned_in [OF dy ok(1) _ c(2)]) auto
  then have "x = y" using c(2) head_in_blk [of x i] by (auto simp: blk_def)
  moreover have "(y, i) \<notin> A"
  proof
    assume "(y, i) \<in> A"
    then have "v_tag v y = PAGE_TAG_NONE" using b unfolding bi_def by auto
    then show False using y(3) by (simp add: PAGE_TAG_NONE_def PAGE_TAG_BUDDY_def)
  qed
  ultimately have yi: "i < BUDDY_MAX_ORDER" "y \<in> set (F i)" using c(1) by auto
  then have "(of_nat i :: u64) = of_nat k" using bi_free_head(3) [OF b yi] y(5) by simp
  then have "i = k" using ok(2) k by (simp add: word_unat_eq_iff unat_of_nat BUDDY_MAX_ORDER_def)
  then show ?thesis using yi by simp
qed

text \<open>The header of a block that becomes free.\<close>

lemma set_header_spec:
  assumes "p < v_len (view b)" "i < BUDDY_MAX_ORDER"
  shows "\<exists>b1 b2 b3. upd_meta p (buddy_page_set_next_pfn 0) b = Some b1 \<and> upd_meta p (buddy_page_set_order (of_nat i)) b1 = Some b2
    \<and> upd_meta p (page_set_tag PAGE_TAG_BUDDY) b2 = Some b3 \<and> headers_only {p} (view b) (view b3)
    \<and> v_tag (view b3) p = PAGE_TAG_BUDDY \<and> v_ord (view b3) p = of_nat i \<and> v_len (view b3) = v_len (view b)"
proof -
  obtain b1 where b1: "upd_meta p (buddy_page_set_next_pfn 0) b = Some b1" "view b1 = (view b)\<lparr>v_next := (v_next (view b))(p := None)\<rparr>"
    using clear_next_view [OF assms(1)] by auto
  obtain b2 where b2: "upd_meta p (buddy_page_set_order (of_nat i)) b1 = Some b2" "view b2 = (view b1)\<lparr>v_ord := (v_ord (view b1))(p := of_nat i)\<rparr>"
    using set_order_view [of p b1, OF _ order_small [OF assms(2)]] assms(1) b1 by auto
  obtain b3 where "upd_meta p (page_set_tag PAGE_TAG_BUDDY) b2 = Some b3" "view b3 = (view b2)\<lparr>v_tag := (v_tag (view b2))(p := PAGE_TAG_BUDDY)\<rparr>"
    using set_tag_view [of p b2, OF _ tag_small(1)] assms(1) b1 b2 by auto
  then show ?thesis using b1 b2 by (simp add: headers_only_def)
qed

text \<open>Merging stops at the largest block whose buddy is not free.\<close>

definition merge_ready :: "buddy \<Rightarrow> (nat \<Rightarrow> nat list) \<Rightarrow> block set \<Rightarrow> nat \<Rightarrow> nat \<Rightarrow> bool" where
  "merge_ready b F A p k \<longleftrightarrow> bi (view b) F A (blk (p, k)) \<and> 2 ^ k dvd p \<and> k < BUDDY_MAX_ORDER
     \<and> v_tag (view b) p = PAGE_TAG_BUDDY \<and> v_ord (view b) p = of_nat k"

lemma is_free_view: "x < v_len (view b) \<Longrightarrow> \<exists>m. meta_of b x = Some m \<and> (buddy_page_is_free m \<longleftrightarrow> v_tag (view b) x = PAGE_TAG_BUDDY \<and> v_free (view b) x) \<and> buddy_page_get_order m = v_ord (view b) x"
  by (simp add: meta_of_def rd_def view_def is_free_bit)

text \<open>One merge.\<close>

lemma merge_step:
  assumes r: "merge_ready b F A p k" and k: "Suc k < BUDDY_MAX_ORDER" and y: "y = p XOR 2 ^ k" "y \<in> set (F k)"
  shows "\<exists>b' F'. merge_up (v_len (view b)) p k b = merge_up (v_len (view b)) (min p y) (Suc k) b' \<and> merge_ready b' F' A (min p y) (Suc k)
    \<and> v_len (view b') = v_len (view b) \<and> (\<forall>i. set (F' i) \<subseteq> set (F i)) \<and> free_pages F \<union> blk (p, k) = free_pages F' \<union> blk (min p y, Suc k)"
proof -
  have b: "bi (view b) F A (blk (p, k))" and dv: "2 ^ k dvd p" using r by (auto simp: merge_ready_def)
  have k': "k < BUDDY_MAX_ORDER" using k by simp
  note h = bi_free_head [OF b k' y(2)]
  have lt: "y < v_len (view b)" using h(4) by (cases "2 ^ k :: nat") (auto simp: blk_ok_def)
  obtain m where m: "meta_of b y = Some m" "buddy_page_is_free m" "buddy_page_get_order m = of_nat k" using is_free_view [OF lt] h by auto
  obtain b1 where b1: "upd_meta y (page_set_tag PAGE_TAG_BUDDY) b = Some b1" "view b1 = view b"
    using set_tag_view [OF lt tag_small(1)] h(1) by (metis bview.surjective bview.update_convs(3) fun_upd_triv)
  obtain ys zs where F: "F k = ys @ y # zs" using y(2) by (meson split_list)
  have "area_list (view b1) k (ys @ y # zs)" using bi_list [OF b k'] F b1(2) by simp
  from fa_remove_spec [OF this] obtain b2 where b2: "buddy_fa_remove k y b1 = Some b2" "area_list (view b2) k (ys @ zs)"
    "links_only (insert y (set (ys @ zs))) k (view b) (view b2)" using b1(2) by auto
  have un: "blk (p, k) \<union> blk (y, k) = blk (min p y, Suc k)" and dm: "2 ^ Suc k dvd min p y" using xor_half [OF dv] by (auto simp: y(1))
  have i2: "bi (view b2) (F(k := ys @ zs)) A (blk (min p y, Suc k))" using bi_take [OF b k' F b2(2,3)] un by simp
  have ltm: "min p y < v_len (view b2)" using bi_page_ok [OF i2, of "min p y"] by (simp add: page_ok_def)
  obtain b3 b4 b5 where b5: "upd_meta (min p y) (buddy_page_set_next_pfn 0) b2 = Some b3" "upd_meta (min p y) (buddy_page_set_order (of_nat (Suc k))) b3 = Some b4"
    "upd_meta (min p y) (page_set_tag PAGE_TAG_BUDDY) b4 = Some b5" "headers_only {min p y} (view b2) (view b5)"
    "v_tag (view b5) (min p y) = PAGE_TAG_BUDDY" "v_ord (view b5) (min p y) = of_nat (Suc k)" "v_len (view b5) = v_len (view b2)"
    using set_header_spec [OF ltm k] by (elim exE conjE)
  have "bi (view b5) (F(k := ys @ zs)) A (blk (min p y, Suc k))" by (rule bi_headers [OF i2 b5(4)]) simp
  then have r5: "merge_ready b5 (F(k := ys @ zs)) A (min p y) (Suc k)" using k dm b5 by (simp add: merge_ready_def)
  have l2: "v_len (view b2) = v_len (view b)" using b2(3) by (simp add: links_only_def)
  have "k < BUDDY_MAX_ORDER - 1" using k by simp
  then have "merge_up (v_len (view b)) p k b = merge_up (v_len (view b)) (min p y) (Suc k) b5"
    using lt m b1 b2(1) b5(1-3) ltm l2 by (subst merge_up.simps) (simp add: y(1) [symmetric] Let_def)
  moreover have "free_pages F \<union> blk (p, k) = free_pages (F(k := ys @ zs)) \<union> blk (min p y, Suc k)"
  proof -
    have d: "distinct (F k)" using bi_list [OF b k'] by (simp add: area_list_def)
    have "(y, k) \<in> free_blocks F" using y k' by simp
    then show ?thesis unfolding free_pages_def free_blocks_del [of k F ys y zs, OF k' F d] un [symmetric] by blast
  qed
  moreover have "\<forall>i. set ((F(k := ys @ zs)) i) \<subseteq> set (F i)" using F by auto
  ultimately show ?thesis using r5 b5(7) l2 by (intro exI [of _ b5] exI [of _ "F(k := ys @ zs)"]) simp
qed

lemma merge_up_spec:
  assumes "merge_ready b F A p k"
  shows "\<exists>p' k' b' F'. merge_up (v_len (view b)) p k b = Some (p', k', b') \<and> merge_ready b' F' A p' k' \<and> v_len (view b') = v_len (view b)
    \<and> (\<forall>i. set (F' i) \<subseteq> set (F i)) \<and> (Suc k' < BUDDY_MAX_ORDER \<longrightarrow> p' XOR 2 ^ k' \<notin> set (F' k'))
    \<and> free_pages F \<union> blk (p, k) = free_pages F' \<union> blk (p', k')"
  using assms
proof (induction "BUDDY_MAX_ORDER - k" arbitrary: b F p k rule: less_induct)
  case less
  have b: "bi (view b) F A (blk (p, k))" and dv: "2 ^ k dvd p" using less.prems by (auto simp: merge_ready_def)
  define y where "y = p XOR 2 ^ k"
  show ?case
  proof (cases "Suc k < BUDDY_MAX_ORDER \<and> y \<in> set (F k)")
    case True
    obtain b1 F1 where s: "merge_up (v_len (view b)) p k b = merge_up (v_len (view b)) (min p y) (Suc k) b1" "merge_ready b1 F1 A (min p y) (Suc k)"
      "v_len (view b1) = v_len (view b)" "\<forall>i. set (F1 i) \<subseteq> set (F i)" "free_pages F \<union> blk (p, k) = free_pages F1 \<union> blk (min p y, Suc k)"
      using merge_step [OF less.prems conjunct1 [OF True] y_def conjunct2 [OF True]] by (elim conjE exE)
    have "BUDDY_MAX_ORDER - Suc k < BUDDY_MAX_ORDER - k" using True by linarith
    from less.hyps [OF this s(2)] obtain p' k' b' F' where
      "merge_up (v_len (view b1)) (min p y) (Suc k) b1 = Some (p', k', b')" "merge_ready b' F' A p' k'" "v_len (view b') = v_len (view b1)"
      "\<forall>i. set (F' i) \<subseteq> set (F1 i)" "Suc k' < BUDDY_MAX_ORDER \<longrightarrow> p' XOR 2 ^ k' \<notin> set (F' k')"
      "free_pages F1 \<union> blk (min p y, Suc k) = free_pages F' \<union> blk (p', k')" by (elim conjE exE)
    then show ?thesis using s by (intro exI [of _ p'] exI [of _ k'] exI [of _ b'] exI [of _ F']) (simp, blast)
  next
    case False
    have "merge_up (v_len (view b)) p k b = Some (p, k, b)"
    proof (cases "Suc k < BUDDY_MAX_ORDER \<and> y < v_len (view b)")
      case True
      then obtain m where m: "meta_of b y = Some m" "buddy_page_is_free m \<longleftrightarrow> v_tag (view b) y = PAGE_TAG_BUDDY \<and> v_free (view b) y" "buddy_page_get_order m = v_ord (view b) y"
        using is_free_view [of y b] by auto
      have "\<not> (buddy_page_is_free m \<and> buddy_page_get_order m = of_nat k)" using buddy_is_listed [OF b _ dv y_def] True False m by auto
      then show ?thesis using True m(1) by (subst merge_up.simps) (auto simp: y_def [symmetric] Let_def)
    next
      case False
      then show ?thesis by (subst merge_up.simps) (auto simp: y_def [symmetric] Let_def)
    qed
    then show ?thesis using less.prems False by (auto simp: y_def)
  qed
qed

lemma no_pairs_add:
  assumes "no_pairs F" "\<forall>i. set (F' i) \<subseteq> set (F i)" "2 ^ k dvd p" "Suc k < BUDDY_MAX_ORDER \<longrightarrow> p XOR 2 ^ k \<notin> set (F' k)"
  shows "no_pairs (F'(k := F' k @ [p]))"
  unfolding no_pairs_def
proof (intro allI impI ballI)
  fix i x assume i: "Suc i < BUDDY_MAX_ORDER" and x: "x \<in> set ((F'(k := F' k @ [p])) i)"
  have old: "z \<in> set (F' i) \<Longrightarrow> z XOR 2 ^ i \<notin> set (F' i)" for z using assms(1,2) i unfolding no_pairs_def by blast
  have "z XOR 2 ^ k = p \<Longrightarrow> z = p XOR 2 ^ k" for z by (auto simp: xor.assoc)
  then show "x XOR 2 ^ i \<notin> set ((F'(k := F' k @ [p])) i)"
    using old x assms(3,4) i xor_half(5) [of k p] by (auto split: if_splits)
qed

text \<open>What freeing a block in use does.\<close>

lemma free_spec:
  assumes b: "buddy_ok b F A" and n: "count \<noteq> 0" "unat count \<le> 2 ^ 63" and k: "k = block_order (unat count)" and p: "(p, k) \<in> A"
  shows "\<exists>b' F'. buddy_free_pages (p * PAGE_BYTES) count b (v_len (view b)) = Some b' \<and> buddy_ok b' F' (A - {(p, k)})
    \<and> free_pages F' = free_pages F \<union> blk (p, k) \<and> v_len (view b') = v_len (view b) \<and> (no_pairs F \<longrightarrow> no_pairs F')"
proof -
  have bi: "bi (view b) F A {}" using b by (simp add: buddy_ok_def)
  have ok: "blk_ok (v_len (view b)) (p, k)" using bi_block [OF bi, of "(p, k)"] p by blast
  have tag: "v_tag (view b) p = PAGE_TAG_NONE" using bi p unfolding bi_def by blast
  have kM: "k < BUDDY_MAX_ORDER" "2 ^ k dvd p" "0 < p" using ok by (auto simp: blk_ok_def)
  have i0: "bi (view b) F (A - {(p, k)}) (blk (p, k))" using bi_release [OF bi p] by simp
  have lt: "p < v_len (view b)" using bi_page_ok [OF i0, of p] by (simp add: page_ok_def)
  obtain b1 b2 b3 where b3: "upd_meta p (buddy_page_set_next_pfn 0) b = Some b1" "upd_meta p (buddy_page_set_order (of_nat k)) b1 = Some b2"
    "upd_meta p (page_set_tag PAGE_TAG_BUDDY) b2 = Some b3" "headers_only {p} (view b) (view b3)"
    "v_tag (view b3) p = PAGE_TAG_BUDDY" "v_ord (view b3) p = of_nat k" "v_len (view b3) = v_len (view b)"
    using set_header_spec [OF lt kM(1)] by (elim exE conjE)
  have "bi (view b3) F (A - {(p, k)}) (blk (p, k))" by (rule bi_headers [OF i0 b3(4)]) simp
  then have "merge_ready b3 F (A - {(p, k)}) p k" using kM b3 by (simp add: merge_ready_def)
  from merge_up_spec [OF this] obtain p' k' b4 F4 where b4: "merge_up (v_len (view b)) p k b3 = Some (p', k', b4)" "merge_ready b4 F4 (A - {(p, k)}) p' k'"
    "v_len (view b4) = v_len (view b)" "\<forall>i. set (F4 i) \<subseteq> set (F i)" "Suc k' < BUDDY_MAX_ORDER \<longrightarrow> p' XOR 2 ^ k' \<notin> set (F4 k')"
    "free_pages F \<union> blk (p, k) = free_pages F4 \<union> blk (p', k')" unfolding b3(7) by (elim exE conjE)
  have i4: "bi (view b4) F4 (A - {(p, k)}) (blk (p', k'))" "k' < BUDDY_MAX_ORDER" "2 ^ k' dvd p'" "v_tag (view b4) p' = PAGE_TAG_BUDDY" "v_ord (view b4) p' = of_nat k'"
    using b4(2) by (auto simp: merge_ready_def)
  have lt': "p' < v_len (view b4)" using bi_page_ok [OF i4(1), of p'] by (simp add: page_ok_def)
  obtain b5 where b5: "buddy_add_to_free_area p' k' b4 = Some b5" "bi (view b5) (F4(k' := F4 k' @ [p'])) (A - {(p, k)}) {}" "v_len (view b5) = v_len (view b)"
    using add_to_free_area_spec [OF i4(1,2) _ i4(3-5)] b4(3) by auto
  have "no_pairs F \<longrightarrow> no_pairs (F4(k' := F4 k' @ [p']))" using no_pairs_add [OF _ b4(4) i4(3) b4(5)] by blast
  moreover have "free_pages (F4(k' := F4 k' @ [p'])) = free_pages F \<union> blk (p, k)"
    using b4(6) by (simp add: free_pages_def free_blocks_add [of k' F4 p', OF i4(2)] Un_commute)
  moreover have "buddy_page_assert_tag p PAGE_TAG_NONE b = Some ()" using assert_tag_view [OF lt] tag by simp
  moreover have "p * PAGE_BYTES div PAGE_BYTES = p" "p * PAGE_BYTES \<noteq> 0" using kM by (auto simp: PAGE_BYTES_def)
  ultimately show ?thesis using n order_from_spec [OF n(2)] k lt b3(1-3) b4(1) lt' b4(3) b5
    by (intro exI [of _ b5] exI [of _ "F4(k' := F4 k' @ [p'])"]) (simp add: buddy_free_pages_def Let_def buddy_ok_def)
qed

end
