(* ===== verification/BuddyClient.thy ===== *)
theory BuddyClient
  imports BuddyBlocks
begin

text \<open>
  Clients of the buddy allocator: a page allocator contract, the code that relies on it, and the correctness of
  allocation and freeing stated over the allocator state alone.
\<close>

section \<open>Reading the free lists\<close>

fun walk :: "('a \<Rightarrow> 'a option) \<Rightarrow> nat \<Rightarrow> 'a option \<Rightarrow> 'a list" where
  "walk nx 0 p = []"
| "walk nx (Suc n) None = []"
| "walk nx (Suc n) (Some x) = x # walk nx n (nx x)"

definition free_list :: "buddy \<Rightarrow> nat \<Rightarrow> nat list" where
  "free_list b i = (case rd (free_area b) i of None \<Rightarrow> [] | Some a \<Rightarrow> walk (v_next (view b)) (v_len (view b)) (fa_head a))"

lemma walk_chain: "chain pv nx p xs None \<Longrightarrow> length xs \<le> n \<Longrightarrow> walk nx n (hd_or xs None) = xs"
proof (induction xs arbitrary: p n)
  case Nil
  then show ?case by (cases n) auto
next
  case (Cons x xs)
  then show ?case by (cases n) auto
qed

lemma free_list_eq:
  assumes "area_list (view b) i xs"
  shows "free_list b i = xs"
proof -
  have "set xs \<subseteq> {..< v_len (view b)}" using assms by (auto simp: area_list_def page_ok_def)
  then have "card (set xs) \<le> v_len (view b)" using card_mono [of "{..< v_len (view b)}" "set xs"] by simp
  then have "length xs \<le> v_len (view b)" using assms by (simp add: area_list_def distinct_card)
  then show ?thesis using assms walk_chain [of "v_prev (view b)" "v_next (view b)" None xs]
    by (simp add: free_list_def area_list_def area_view)
qed

text \<open>The pages that can be allocated, and a consistent allocator with blocks \<open>A\<close> in use.\<close>

definition avail :: "buddy \<Rightarrow> nat set" where
  "avail b = free_pages (free_list b)"

definition allocator_ok :: "buddy \<Rightarrow> block set \<Rightarrow> bool" where
  "allocator_ok b A \<longleftrightarrow> buddy_ok b (free_list b) A"

definition coalesced :: "buddy \<Rightarrow> bool" where
  "coalesced b \<longleftrightarrow> no_pairs (free_list b)"

lemma buddy_ok_lists:
  assumes "buddy_ok b F A"
  shows "allocator_ok b A" "avail b = free_pages F" "coalesced b = no_pairs F"
proof -
  have e: "i < BUDDY_MAX_ORDER \<Longrightarrow> free_list b i = F i" for i using assms by (intro free_list_eq bi_list) (auto simp: buddy_ok_def)
  then have f: "free_blocks (free_list b) = free_blocks F" by (auto simp: free_blocks_def)
  have l: "lists v (free_list b) = lists v F" for v using e by (simp add: lists_def)
  show "allocator_ok b A" using assms by (simp add: allocator_ok_def buddy_ok_def bi_def f l)
  show "avail b = free_pages F" by (simp add: avail_def free_pages_def f)
  show "coalesced b = no_pairs F" using e by (simp add: coalesced_def no_pairs_def)
qed

lemma blocks_apart: "allocator_ok b A \<Longrightarrow> apart A \<and> (\<forall>c \<in> A. blk c \<inter> avail b = {})"
proof -
  assume a: "allocator_ok b A"
  have p: "apart (free_blocks (free_list b) \<union> A)" "free_blocks (free_list b) \<inter> A = {}"
    using a by (simp_all only: allocator_ok_def buddy_ok_def bi_def simp_thms)
  have "blk c \<inter> blk d = {}" if "c \<in> A" "d \<in> free_blocks (free_list b)" for c d
  proof -
    have "c \<noteq> d" using that p(2) by blast
    then show ?thesis using p(1) that unfolding apart_def by blast
  qed
  then show ?thesis using apart_subset [OF p(1), of A] unfolding avail_def free_pages_def by blast
qed

section \<open>Clients of a page allocator\<close>

text \<open>The block at an address that a request of \<open>n\<close> pages gets.\<close>

definition block_at :: "nat \<Rightarrow> u64 \<Rightarrow> block" where
  "block_at a n = (a div PAGE_BYTES, block_order (unat n))"

definition request_ok :: "u64 \<Rightarrow> bool" where
  "request_ok n \<longleftrightarrow> n \<noteq> 0 \<and> unat n \<le> 2 ^ 63"

datatype request = Get u64 | Give nat

text \<open>A client gets blocks and gives back the ones it holds, in any order. \<open>Inl\<close> is a panic, \<open>None\<close> a crash.\<close>

fun client :: "('s \<Rightarrow> u64 \<Rightarrow> ('e + nat \<times> 's) option) \<Rightarrow> (nat \<Rightarrow> u64 \<Rightarrow> 's \<Rightarrow> 's option) \<Rightarrow> request list \<Rightarrow> 's \<Rightarrow> (nat \<times> u64) list
    \<Rightarrow> ('e + 's \<times> (nat \<times> u64) list) option" where
  "client al fr [] s held = Some (Inr (s, held))"
| "client al fr (Get n # rs) s held =
     do { r \<leftarrow> al s n; case r of Inl e \<Rightarrow> Some (Inl e) | Inr (a, s) \<Rightarrow> client al fr rs s (held @ [(a, n)]) }"
| "client al fr (Give i # rs) s held =
     (if i < length held
      then do { s \<leftarrow> fr (fst (held ! i)) (snd (held ! i)) s; client al fr rs s (take i held @ drop (Suc i) held) }
      else client al fr rs s held)"

definition held_blocks :: "(nat \<times> u64) list \<Rightarrow> block list" where
  "held_blocks held = map (\<lambda>(a, n). block_at a n) held"

locale page_allocator =
  fixes al :: "'s \<Rightarrow> u64 \<Rightarrow> ('e + nat \<times> 's) option"
    and fr :: "nat \<Rightarrow> u64 \<Rightarrow> 's \<Rightarrow> 's option"
    and ok :: "'s \<Rightarrow> block set \<Rightarrow> bool"
    and pool :: "'s \<Rightarrow> nat set"
  assumes ok_apart: "ok s A \<Longrightarrow> apart A \<and> (\<forall>c \<in> A. blk c \<inter> pool s = {})"
    and al_law: "\<lbrakk>ok s A; request_ok n\<rbrakk> \<Longrightarrow> (\<exists>e. al s n = Some (Inl e))
      \<or> (\<exists>a s'. al s n = Some (Inr (a, s')) \<and> PAGE_BYTES dvd a \<and> ok s' (insert (block_at a n) A) \<and> block_at a n \<notin> A
           \<and> blk (block_at a n) \<subseteq> pool s \<and> pool s' = pool s - blk (block_at a n))"
    and fr_law: "\<lbrakk>ok s A; request_ok n; block_at a n \<in> A; PAGE_BYTES dvd a\<rbrakk> \<Longrightarrow>
      \<exists>s'. fr a n s = Some s' \<and> ok s' (A - {block_at a n}) \<and> pool s' = pool s \<union> blk (block_at a n)"
begin

definition holds :: "'s \<Rightarrow> (nat \<times> u64) list \<Rightarrow> bool" where
  "holds s held \<longleftrightarrow> ok s (set (held_blocks held)) \<and> distinct (held_blocks held) \<and> (\<forall>(a, n) \<in> set held. request_ok n \<and> PAGE_BYTES dvd a)"

definition owned :: "'s \<Rightarrow> (nat \<times> u64) list \<Rightarrow> nat set" where
  "owned s held = pool s \<union> \<Union> (blk ` set (held_blocks held))"

lemma get_step:
  assumes "holds s held" "request_ok n"
  shows "(\<exists>e. al s n = Some (Inl e)) \<or> (\<exists>a s'. al s n = Some (Inr (a, s')) \<and> holds s' (held @ [(a, n)]) \<and> owned s' (held @ [(a, n)]) = owned s held)"
  using al_law [of s "set (held_blocks held)" n] assms by (auto simp: holds_def owned_def held_blocks_def)

lemma give_step:
  assumes h: "holds s held" and i: "i < length held"
  shows "\<exists>s'. fr (fst (held ! i)) (snd (held ! i)) s = Some s' \<and> holds s' (take i held @ drop (Suc i) held) \<and> owned s' (take i held @ drop (Suc i) held) = owned s held"
proof -
  obtain a n where an: "held ! i = (a, n)" by (cases "held ! i")
  obtain xs ys where x: "xs = take i held" "ys = drop (Suc i) held" by blast
  have l: "held = xs @ (a, n) # ys" using id_take_nth_drop [OF i] an x by simp
  have "request_ok n" "block_at a n \<in> set (held_blocks held)" "PAGE_BYTES dvd a" using h l by (auto simp: holds_def held_blocks_def)
  moreover have "ok s (set (held_blocks held))" using h by (simp add: holds_def)
  ultimately obtain s' where s': "fr a n s = Some s'" "ok s' (set (held_blocks held) - {block_at a n})" "pool s' = pool s \<union> blk (block_at a n)"
    using fr_law by blast
  have e: "set (held_blocks held) - {block_at a n} = set (held_blocks (xs @ ys))" using h l by (auto simp: holds_def held_blocks_def)
  have "holds s' (xs @ ys)" using s'(2) h unfolding holds_def e by (simp add: l held_blocks_def)
  moreover have "owned s' (xs @ ys) = owned s held" using s'(3) by (auto simp: owned_def held_blocks_def l)
  ultimately show ?thesis using s'(1) an unfolding x by simp
qed

lemma client_safe:
  assumes "holds s held" "\<forall>n. Get n \<in> set rs \<longrightarrow> request_ok n"
  shows "\<exists>r. client al fr rs s held = Some r \<and> (\<forall>s' held'. r = Inr (s', held') \<longrightarrow> holds s' held' \<and> owned s' held' = owned s held)"
  using assms
proof (induction rs arbitrary: s held)
  case (Cons r rs)
  show ?case
  proof (cases r)
    case (Get n)
    then have "request_ok n" using Cons.prems by simp
    from get_step [OF Cons.prems(1) this] show ?thesis
    proof (elim disjE exE conjE)
      fix a s' assume "al s n = Some (Inr (a, s'))" "holds s' (held @ [(a, n)])" "owned s' (held @ [(a, n)]) = owned s held"
      then show ?thesis using Cons.IH [of s' "held @ [(a, n)]"] Cons.prems(2) Get by simp
    qed (simp add: Get)
  next
    case (Give i)
    show ?thesis
    proof (cases "i < length held")
      case True
      obtain s' where "fr (fst (held ! i)) (snd (held ! i)) s = Some s'" "holds s' (take i held @ drop (Suc i) held)"
        "owned s' (take i held @ drop (Suc i) held) = owned s held" using give_step [OF Cons.prems(1) True] by blast
      then show ?thesis using Cons.IH [of s' "take i held @ drop (Suc i) held"] Cons.prems(2) Give True by simp
    next
      case False
      then show ?thesis using Cons.IH [OF Cons.prems(1)] Cons.prems(2) Give by simp
    qed
  qed
qed simp

lemma holds_apart: "holds s held \<Longrightarrow> apart (set (held_blocks held)) \<and> (\<forall>c \<in> set (held_blocks held). blk c \<inter> pool s = {})"
  using ok_apart [of s "set (held_blocks held)"] by (simp add: holds_def)

end

text \<open>The buddy allocator on its own page array.\<close>

lemma view_len: "v_len (view b) = length (page_array b)"
  by (simp add: view_def)

lemma alloc_law:
  assumes ok: "allocator_ok b A" and n: "request_ok count"
  shows "if \<exists>i. block_order (unat count) \<le> i \<and> i < BUDDY_MAX_ORDER \<and> free_list b i \<noteq> []
     then \<exists>addr b'. buddy_alloc_pages b count = Some (Inr (addr, b')) \<and> allocator_ok b' (insert (block_at addr count) A)
       \<and> block_at addr count \<notin> A \<and> blk (block_at addr count) \<subseteq> avail b \<and> avail b' = avail b - blk (block_at addr count)
       \<and> PAGE_BYTES dvd addr \<and> length (page_array b') = length (page_array b) \<and> (coalesced b \<longrightarrow> coalesced b')
     else buddy_alloc_pages b count = Some (Inl TOO_MANY_PAGES)"
proof -
  let ?k = "block_order (unat count)"
  have b: "buddy_ok b (free_list b) A" and n: "count \<noteq> 0" "unat count \<le> 2 ^ 63" using ok n by (auto simp: allocator_ok_def request_ok_def)
  note s = alloc_spec [OF b n refl]
  show ?thesis
  proof (cases "\<exists>i. ?k \<le> i \<and> i < BUDDY_MAX_ORDER \<and> free_list b i \<noteq> []")
    case True
    obtain p b' F' where r: "buddy_alloc_pages b count = Some (Inr (p * PAGE_BYTES, b'))" "buddy_ok b' F' (insert (p, ?k) A)" "(p, ?k) \<notin> A"
      "free_pages (free_list b) = free_pages F' \<union> blk (p, ?k)" "free_pages F' \<inter> blk (p, ?k) = {}" "v_len (view b') = v_len (view b)"
      "no_pairs (free_list b) \<longrightarrow> no_pairs F'" using s unfolding if_P [OF True] by (elim exE conjE)
    have e: "block_at (p * PAGE_BYTES) count = (p, ?k)" by (simp add: block_at_def PAGE_BYTES_def)
    have "avail b = avail b' \<union> blk (p, ?k)" "avail b' \<inter> blk (p, ?k) = {}" using r(4,5) buddy_ok_lists(2) [OF r(2)] by (simp_all add: avail_def)
    then have "blk (p, ?k) \<subseteq> avail b" "avail b' = avail b - blk (p, ?k)" by auto
    then show ?thesis unfolding if_P [OF True] using r buddy_ok_lists(1,3) [OF r(2)]
      by (intro exI [of _ "p * PAGE_BYTES"] exI [of _ b']) (simp add: e view_len coalesced_def)
  next
    case False
    then show ?thesis using s unfolding if_not_P [OF False] by simp
  qed
qed

lemma free_law:
  assumes ok: "allocator_ok b A" and n: "request_ok count" and a: "block_at addr count \<in> A" "PAGE_BYTES dvd addr"
  shows "\<exists>b'. buddy_free_pages addr count b (length (page_array b)) = Some b' \<and> allocator_ok b' (A - {block_at addr count})
    \<and> avail b' = avail b \<union> blk (block_at addr count) \<and> length (page_array b') = length (page_array b) \<and> (coalesced b \<longrightarrow> coalesced b')"
proof -
  let ?k = "block_order (unat count)"
  obtain p where p: "addr = p * PAGE_BYTES" using a(2) by (metis dvdE mult.commute)
  have e: "block_at addr count = (p, ?k)" by (simp add: block_at_def PAGE_BYTES_def p)
  have b: "buddy_ok b (free_list b) A" and n: "count \<noteq> 0" "unat count \<le> 2 ^ 63" using ok n by (auto simp: allocator_ok_def request_ok_def)
  have m: "(p, ?k) \<in> A" using a(1) e by simp
  obtain b' F' where r: "buddy_free_pages addr count b (length (page_array b)) = Some b'" "buddy_ok b' F' (A - {(p, ?k)})"
    "free_pages F' = free_pages (free_list b) \<union> blk (p, ?k)" "v_len (view b') = v_len (view b)" "no_pairs (free_list b) \<longrightarrow> no_pairs F'"
    using free_spec [OF b n refl m] unfolding p view_len by (elim exE conjE)
  show ?thesis using r buddy_ok_lists [OF r(2)] by (intro exI [of _ b']) (simp add: e view_len coalesced_def avail_def)
qed

interpretation bud: page_allocator buddy_alloc_pages "\<lambda>addr count b. buddy_free_pages addr count b (length (page_array b))" allocator_ok avail
proof unfold_locales
  show "allocator_ok s A \<Longrightarrow> apart A \<and> (\<forall>c \<in> A. blk c \<inter> avail s = {})" for s A by (rule blocks_apart)
next
  fix s A n assume "allocator_ok s A" "request_ok n"
  from alloc_law [OF this] show "(\<exists>e. buddy_alloc_pages s n = Some (Inl e)) \<or> (\<exists>a s'. buddy_alloc_pages s n = Some (Inr (a, s')) \<and> PAGE_BYTES dvd a
      \<and> allocator_ok s' (insert (block_at a n) A) \<and> block_at a n \<notin> A \<and> blk (block_at a n) \<subseteq> avail s \<and> avail s' = avail s - blk (block_at a n))"
    by (auto split: if_splits)
next
  fix s A n a assume "allocator_ok s A" "request_ok n" "block_at a n \<in> A" "PAGE_BYTES dvd a"
  from free_law [OF this] show "\<exists>s'. buddy_free_pages a n s (length (page_array s)) = Some s' \<and> allocator_ok s' (A - {block_at a n}) \<and> avail s' = avail s \<union> blk (block_at a n)"
    by blast
qed

section \<open>A small allocator\<close>

text \<open>Eight pages, of which the upper four are one free block.\<close>

definition four :: buddy where
  "four = \<lparr>page_array = [0, 0, 0, 0, 73, 0, 0, 0], free_link = (\<lambda>x. None),
     free_area = (replicate 18 \<lparr>fa_head = None, fa_tail = None, nr_free = 0\<rparr>)[2 := \<lparr>fa_head = Some 4, fa_tail = Some 4, nr_free = 1\<rparr>]\<rparr>"

definition four_lists :: "nat \<Rightarrow> nat list" where
  "four_lists i = (if i = 2 then [4] else [])"

lemma four_header: "next_in 73 = None" "page_get_tag 73 = PAGE_TAG_BUDDY" "buddy_page_get_order 73 = 2" "free_bit 73"
  by (simp_all add: next_in_def buddy_page_get_next_pfn_def BUDDY_NEXT_PFN_MASK_def BIT_def page_get_tag_def PAGE_TAG_MASK_def PAGE_TAG_BUDDY_def
      buddy_page_get_order_def BUDDY_ORDER_MASK_def free_bit_def BUDDY_IS_FREE_MASK_def)

lemma four_free: "free_blocks four_lists = {(4, 2)}"
  by (auto simp: free_blocks_def four_lists_def BUDDY_MAX_ORDER_def split: if_splits)

lemma four_ok: "buddy_ok four four_lists {}"
  unfolding buddy_ok_def bi_def four_free
proof (intro conjI)
  show "lists (view four) four_lists"
    by (auto simp: lists_def area_list_def view_def four_def four_lists_def four_header BUDDY_MAX_ORDER_def page_ok_def nth_list_update)
  show "\<forall>x < v_len (view four). x \<notin> \<Union> (blk ` ({(4, 2)} \<union> {})) \<union> {} \<longrightarrow> \<not> (v_tag (view four) x = PAGE_TAG_BUDDY \<and> v_free (view four) x)"
    by (auto simp: view_def four_def blk_def less_Suc_eq numeral_eq_Suc page_get_tag_def PAGE_TAG_BUDDY_def)
qed (auto simp: view_def four_def blk_ok_def BUDDY_MAX_ORDER_def apart_def four_header)

lemma four_avail: "avail four = {4 ..< 8}"
  using buddy_ok_lists(2) [OF four_ok] by (simp add: free_pages_def four_free blk_def)

lemma four_order: "block_order 3 = 2"
  by (rule block_order_eq) auto

lemma four_ready: "allocator_ok four {}" "request_ok 3" "\<exists>i. block_order (unat (3::u64)) \<le> i \<and> i < BUDDY_MAX_ORDER \<and> free_list four i \<noteq> []"
proof -
  show "allocator_ok four {}" by (rule buddy_ok_lists [OF four_ok])
  show "request_ok 3" by (simp add: request_ok_def)
  have "free_list four 2 = [4]"
    using free_list_eq [OF bi_list, of four four_lists "{}" "{}" 2] four_ok by (simp add: buddy_ok_def four_lists_def BUDDY_MAX_ORDER_def)
  then show "\<exists>i. block_order (unat (3::u64)) \<le> i \<and> i < BUDDY_MAX_ORDER \<and> free_list four i \<noteq> []"
    by (intro exI [of _ 2]) (simp add: four_order BUDDY_MAX_ORDER_def)
qed

section \<open>Properties\<close>

text \<open>
  C3. In a consistent state, \<open>buddy_alloc_pages\<close> panics exactly when no list from the order of the request upwards has a block.
  Otherwise it returns the address of a block of exactly the requested order, aligned to its size, that was free and in no
  block in use, takes exactly its pages from the free pages, and leaves a consistent state. Free memory stays coalesced.
\<close>

theorem buddy_alloc_correct:
  assumes "allocator_ok b A" "count \<noteq> 0" "unat count \<le> 2 ^ 63" "k = block_order (unat count)"
  shows "if \<exists>i. k \<le> i \<and> i < BUDDY_MAX_ORDER \<and> free_list b i \<noteq> []
     then \<exists>p b'. buddy_alloc_pages b count = Some (Inr (p * PAGE_BYTES, b')) \<and> 0 < p \<and> 2 ^ k dvd p \<and> unat count \<le> 2 ^ k
       \<and> {p ..< p + 2 ^ k} \<subseteq> avail b \<and> avail b' = avail b - {p ..< p + 2 ^ k} \<and> (p, k) \<notin> A \<and> allocator_ok b' (insert (p, k) A)
       \<and> (coalesced b \<longrightarrow> coalesced b')
     else buddy_alloc_pages b count = Some (Inl TOO_MANY_PAGES)"
proof (cases "\<exists>i. k \<le> i \<and> i < BUDDY_MAX_ORDER \<and> free_list b i \<noteq> []")
  case True
  obtain addr b' where r: "buddy_alloc_pages b count = Some (Inr (addr, b'))" "allocator_ok b' (insert (block_at addr count) A)" "block_at addr count \<notin> A"
    "blk (block_at addr count) \<subseteq> avail b" "avail b' = avail b - blk (block_at addr count)" "PAGE_BYTES dvd addr" "coalesced b \<longrightarrow> coalesced b'"
    using alloc_law [OF assms(1), of count] assms(2-4) True by (auto simp: request_ok_def)
  obtain p where p: "addr = p * PAGE_BYTES" using r(6) by (metis dvdE mult.commute)
  have e: "block_at addr count = (p, k)" by (simp add: block_at_def PAGE_BYTES_def p assms(4))
  have "bi (view b') (free_list b') (insert (p, k) A) {}" using r(2) by (simp add: allocator_ok_def buddy_ok_def e)
  from bi_block [OF this, of "(p, k)"] have "blk_ok (v_len (view b')) (p, k)" by blast
  moreover have "unat count \<le> 2 ^ k" unfolding assms(4) block_order_def by (rule LeastI [of _ 63]) (rule assms(3))
  ultimately show ?thesis unfolding if_P [OF True] using r [unfolded e] by (intro exI [of _ p] exI [of _ b']) (simp add: p blk_ok_def blk_def)
next
  case False
  have "request_ok count" using assms(2,3) by (simp add: request_ok_def)
  from alloc_law [OF assms(1) this] show ?thesis unfolding assms(4) [symmetric] if_not_P [OF False] .
qed

theorem buddy_alloc_correct_witness:
  "allocator_ok four {} \<and> (\<exists>p b'. buddy_alloc_pages four 3 = Some (Inr (p * PAGE_BYTES, b')) \<and> {p ..< p + 4} \<subseteq> {4 ..< 8} \<and> avail b' = {4 ..< 8} - {p ..< p + 4})"
proof -
  have k: "2 = block_order (unat (3::u64))" by (simp add: four_order)
  have n: "(3::u64) \<noteq> 0" "unat (3::u64) \<le> 2 ^ 63" by simp_all
  have c: "\<exists>i. 2 \<le> i \<and> i < BUDDY_MAX_ORDER \<and> free_list four i \<noteq> []" using four_ready(3) unfolding k .
  obtain p b' where "buddy_alloc_pages four 3 = Some (Inr (p * PAGE_BYTES, b'))" "{p ..< p + 2 ^ 2} \<subseteq> avail four" "avail b' = avail four - {p ..< p + 2 ^ 2}"
    using buddy_alloc_correct [OF four_ready(1) n k] unfolding if_P [OF c] by (elim exE conjE)
  then show ?thesis using four_ready(1) by (intro conjI exI [of _ p] exI [of _ b']) (simp_all add: four_avail)
qed

text \<open>
  C4. Giving back a block in use always succeeds: \<open>buddy_free_pages\<close> returns exactly its pages to the free pages, removes exactly
  this block from the blocks in use, keeps the state consistent and merges the block with its free buddies, so that coalesced
  memory stays coalesced.
\<close>

theorem buddy_free_correct:
  assumes "allocator_ok b A" "count \<noteq> 0" "unat count \<le> 2 ^ 63" "k = block_order (unat count)" "(p, k) \<in> A"
  shows "\<exists>b'. buddy_free_pages (p * PAGE_BYTES) count b (length (page_array b)) = Some b' \<and> allocator_ok b' (A - {(p, k)})
    \<and> avail b' = avail b \<union> {p ..< p + 2 ^ k} \<and> (coalesced b \<longrightarrow> coalesced b')"
proof -
  have e: "block_at (p * PAGE_BYTES) count = (p, k)" by (simp add: block_at_def PAGE_BYTES_def assms(4))
  show ?thesis using free_law [of b A count "p * PAGE_BYTES"] assms by (auto simp: e request_ok_def blk_def)
qed

theorem buddy_free_correct_witness:
  "\<exists>b p b'. allocator_ok b {(p, 2)} \<and> avail b = {4 ..< 8} - {p ..< p + 4} \<and> buddy_free_pages (p * PAGE_BYTES) 3 b (length (page_array b)) = Some b' \<and> avail b' = {4 ..< 8}"
proof -
  obtain a b where b: "allocator_ok b {block_at a 3}" "blk (block_at a 3) \<subseteq> {4 ..< 8}" "avail b = {4 ..< 8} - blk (block_at a 3)"
    using alloc_law [OF four_ready(1,2)] four_ready(3) by (auto simp: four_avail)
  define p where "p = a div PAGE_BYTES"
  have e: "block_at a 3 = (p, 2)" by (simp add: block_at_def p_def four_order)
  have k: "2 = block_order (unat (3::u64))" by (simp add: four_order)
  have n: "(3::u64) \<noteq> 0" "unat (3::u64) \<le> 2 ^ 63" by simp_all
  obtain b' where "buddy_free_pages (p * PAGE_BYTES) 3 b (length (page_array b)) = Some b'" "avail b' = avail b \<union> {p ..< p + 2 ^ 2}"
    using buddy_free_correct [OF b(1) [unfolded e] n k, of p, OF singletonI] by (elim exE conjE)
  then show ?thesis using b by (intro exI [of _ b] exI [of _ p] exI [of _ b']) (auto simp: e blk_def)
qed

text \<open>
  C2. Any sequence of requests and returns, in any order, runs without a null dereference, a failed assertion or an endless loop;
  it ends normally or with the out-of-memory panic. The blocks a client holds never overlap each other or free memory, and no page is
  lost or invented: the free pages and the held pages are together always the pages that were free at the start.
\<close>

theorem buddy_clients_apart:
  assumes "allocator_ok b {}" "\<forall>n. Get n \<in> set rs \<longrightarrow> n \<noteq> 0 \<and> unat n \<le> 2 ^ 63"
  shows "\<exists>r. client buddy_alloc_pages (\<lambda>addr count b. buddy_free_pages addr count b (length (page_array b))) rs b [] = Some r
    \<and> (\<forall>b' held. r = Inr (b', held) \<longrightarrow> distinct (held_blocks held) \<and> apart (set (held_blocks held))
         \<and> (\<forall>c \<in> set (held_blocks held). blk c \<inter> avail b' = {}) \<and> avail b' \<union> \<Union> (blk ` set (held_blocks held)) = avail b)"
proof -
  have "bud.holds b []" using assms(1) by (simp add: bud.holds_def held_blocks_def)
  moreover have "\<forall>n. Get n \<in> set rs \<longrightarrow> request_ok n" using assms(2) by (simp add: request_ok_def)
  ultimately obtain r where r: "client buddy_alloc_pages (\<lambda>addr count b. buddy_free_pages addr count b (length (page_array b))) rs b [] = Some r"
    "\<forall>b' held. r = Inr (b', held) \<longrightarrow> bud.holds b' held \<and> bud.owned b' held = bud.owned b []"
    using bud.client_safe [of b "[]" rs] by blast
  show ?thesis
  proof (intro exI [of _ r] conjI allI impI)
    fix b' held assume "r = Inr (b', held)"
    then have h: "bud.holds b' held" "bud.owned b' held = avail b" using r(2) by (auto simp: bud.owned_def held_blocks_def)
    show "distinct (held_blocks held)" using h(1) by (simp add: bud.holds_def)
    show "apart (set (held_blocks held))" "\<forall>c \<in> set (held_blocks held). blk c \<inter> avail b' = {}" using bud.holds_apart [OF h(1)] by blast+
    show "avail b' \<union> \<Union> (blk ` set (held_blocks held)) = avail b" using h(2) by (simp add: bud.owned_def)
  qed (rule r(1))
qed

theorem buddy_clients_apart_witness:
  "\<exists>r. client buddy_alloc_pages (\<lambda>addr count b. buddy_free_pages addr count b (length (page_array b))) [Get 1, Get 2, Give 0, Get 3] four [] = Some r"
  using buddy_clients_apart [OF four_ready(1), of "[Get 1, Get 2, Give 0, Get 3]"] by auto

text \<open>
  C8. The free areas are double-ended queues: on an area that holds the list \<open>xs\<close>, pushing, popping at either end and removing any
  member have exactly the effect on the list and never dereference a null pointer.
\<close>

theorem free_area_deque:
  assumes "area_list (view b) i xs"
  shows "(\<forall>p. page_ok (view b) p \<and> p \<notin> set xs \<longrightarrow>
      (\<exists>b'. buddy_fa_push_tail i p b = Some b' \<and> area_list (view b') i (xs @ [p])) \<and> (\<exists>b'. buddy_fa_push_head i p b = Some b' \<and> area_list (view b') i (p # xs)))
    \<and> (xs = [] \<longrightarrow> buddy_fa_pop_head i b = Some (None, b) \<and> buddy_fa_pop_tail i b = Some (None, b))
    \<and> (xs \<noteq> [] \<longrightarrow> (\<exists>b'. buddy_fa_pop_head i b = Some (Some (hd xs), b') \<and> area_list (view b') i (tl xs))
         \<and> (\<exists>b'. buddy_fa_pop_tail i b = Some (Some (last xs), b') \<and> area_list (view b') i (butlast xs)))
    \<and> (\<forall>p \<in> set xs. \<exists>b'. buddy_fa_remove i p b = Some b' \<and> area_list (view b') i (remove1 p xs))"
proof (intro conjI allI impI ballI)
  fix p assume "page_ok (view b) p \<and> p \<notin> set xs"
  then show "\<exists>b'. buddy_fa_push_tail i p b = Some b' \<and> area_list (view b') i (xs @ [p])" "\<exists>b'. buddy_fa_push_head i p b = Some b' \<and> area_list (view b') i (p # xs)"
    using fa_push_tail_spec [OF assms] fa_push_head_spec [OF assms] by blast+
next
  show "xs = [] \<Longrightarrow> buddy_fa_pop_head i b = Some (None, b)" "xs = [] \<Longrightarrow> buddy_fa_pop_tail i b = Some (None, b)"
    using assms pop_head_empty pop_tail_empty by auto
next
  assume "xs \<noteq> []"
  then have "area_list (view b) i (hd xs # tl xs)" "area_list (view b) i (butlast xs @ [last xs])" using assms by simp_all
  from fa_pop_head_spec [OF this(1)] fa_pop_tail_spec [OF this(2)]
  show "\<exists>b'. buddy_fa_pop_head i b = Some (Some (hd xs), b') \<and> area_list (view b') i (tl xs)" "\<exists>b'. buddy_fa_pop_tail i b = Some (Some (last xs), b') \<and> area_list (view b') i (butlast xs)"
    by blast+
next
  fix p assume "p \<in> set xs"
  then obtain ys zs where x: "xs = ys @ p # zs" "p \<notin> set ys" by (meson split_list_first)
  then have "remove1 p xs = ys @ zs" by (simp add: remove1_append)
  then show "\<exists>b'. buddy_fa_remove i p b = Some b' \<and> area_list (view b') i (remove1 p xs)" using fa_remove_spec [of b i ys p zs] assms x by auto
qed

theorem free_area_deque_witness:
  "area_list (view four) 2 [4] \<and> (\<exists>b'. buddy_fa_push_head 2 6 four = Some b' \<and> area_list (view b') 2 [6, 4])"
proof -
  have a: "area_list (view four) 2 [4]" using bi_list [of "view four" four_lists "{}" "{}" 2] four_ok by (simp add: buddy_ok_def four_lists_def BUDDY_MAX_ORDER_def)
  have "page_ok (view four) 6" by (simp add: page_ok_def view_def four_def)
  then show ?thesis using a free_area_deque [OF a] by auto
qed

end
