(* ===== verification/Pmm.thy ===== *)
theory Pmm
  imports BuddyClient Bitmap U128
begin

text \<open>
  Start-up of physical memory: \<^verbatim>\<open>kernel/mem/pmm.c\<close> reads the boot loader's memory map, and
  \<^verbatim>\<open>kernel/mem/buddy/init.c\<close> builds the buddy allocator from it. Addresses are natural numbers
  below \<open>2 ^ 64\<close>, with the wrap-around of sums written out. \<open>None\<close> is a failed
  assertion or a null dereference, \<open>Inl\<close> a panic.
\<close>

section \<open>The memory map\<close>

definition LIMINE_MEMMAP_USABLE :: nat where "LIMINE_MEMMAP_USABLE = 0"

record limine_memmap_entry =
  base :: nat
  len :: nat
  type :: nat

definition add64 :: "nat \<Rightarrow> nat \<Rightarrow> nat" where
  "add64 x y = (x + y) mod 2 ^ 64"

definition sub64 :: "nat \<Rightarrow> nat \<Rightarrow> nat" where
  "sub64 x y = (x + 2 ^ 64 - y) mod 2 ^ 64"

definition ALIGN_DOWN :: "nat \<Rightarrow> nat" where
  "ALIGN_DOWN x = x div PAGE_BYTES * PAGE_BYTES"

definition ALIGN_UP :: "nat \<Rightarrow> nat option" where
  "ALIGN_UP x = (if 2 ^ 64 \<le> x + (PAGE_BYTES - 1) then None else Some ((x + (PAGE_BYTES - 1)) div PAGE_BYTES * PAGE_BYTES))"

text \<open>\<open>pmm_early_init\<close>: the pages of usable entries leave the boot bitmap; the last frame and the page count.\<close>

definition clear_page :: "nat \<Rightarrow> u8 list \<Rightarrow> u8 list" where
  "clear_page index bm = (if index < unat (to_bits BOOT_BITMAP_SIZE) then bm_clear_bit (of_nat index) bm else bm)"

fun clear_usable :: "limine_memmap_entry list \<Rightarrow> nat \<Rightarrow> u8 list \<Rightarrow> (nat \<times> u8 list) option" where
  "clear_usable [] total_phys bm = Some (total_phys, bm)"
| "clear_usable (entry # es) total_phys bm =
     (if type entry = LIMINE_MEMMAP_USABLE
      then do {
        let start = ALIGN_DOWN (base entry);
        e \<leftarrow> ALIGN_UP (add64 (base entry) (len entry));
        clear_usable es (add64 total_phys (len entry)) (fold clear_page [start div PAGE_BYTES ..< e div PAGE_BYTES] bm)
      }
      else clear_usable es total_phys bm)"

fun last_usable :: "limine_memmap_entry list \<Rightarrow> nat \<Rightarrow> nat option" where
  "last_usable [] pfn = Some pfn"
| "last_usable (entry # es) pfn =
     (if type entry \<noteq> LIMINE_MEMMAP_USABLE then last_usable es pfn
      else do {
        e \<leftarrow> ALIGN_UP (add64 (base entry) (len entry));
        last_usable es (if pfn < e div PAGE_BYTES then e div PAGE_BYTES else pfn)
      })"

record mem_globals =
  last_pfn :: nat
  total_pages :: nat

datatype init_panic = INIT_FAILED | OUT_OF_MEMORY

text \<open>The response is \<open>None\<close> when the loader left it, or its array of entries, null.\<close>

definition pmm_early_init :: "limine_memmap_entry list option \<Rightarrow> u8 list \<Rightarrow> (init_panic + mem_globals \<times> u8 list) option" where
  "pmm_early_init response bm =
     (case response of
        None \<Rightarrow> Some (Inl INIT_FAILED)
      | Some memmap \<Rightarrow>
          do {
            (total_phys, bm) \<leftarrow> clear_usable memmap 0 bm;
            last_usable_pfn \<leftarrow> last_usable memmap 0;
            Some (Inr (\<lparr>last_pfn = last_usable_pfn, total_pages = total_phys div PAGE_BYTES\<rparr>, bm))
          })"

definition pmm_get_usable_ram :: "mem_globals \<Rightarrow> nat" where
  "pmm_get_usable_ram g = total_pages g * PAGE_BYTES mod 2 ^ 64"

section \<open>Building the buddy allocator\<close>

fun pfn_usable_at :: "limine_memmap_entry list \<Rightarrow> nat \<Rightarrow> bool option" where
  "pfn_usable_at [] addr = Some False"
| "pfn_usable_at (entry # es) addr =
     (if type entry \<noteq> LIMINE_MEMMAP_USABLE then pfn_usable_at es addr
      else do {
        let start = ALIGN_DOWN (base entry);
        e \<leftarrow> ALIGN_UP (add64 (base entry) (len entry));
        if start \<le> addr \<and> addr < e then Some True else pfn_usable_at es addr
      })"

definition pfn_usable_from_memmap :: "limine_memmap_entry list \<Rightarrow> nat \<Rightarrow> bool option" where
  "pfn_usable_from_memmap memmap pfn = pfn_usable_at memmap (pfn * PAGE_BYTES mod 2 ^ 64)"

fun pages_free :: "limine_memmap_entry list \<Rightarrow> u8 list \<Rightarrow> nat list \<Rightarrow> bool option" where
  "pages_free memmap bm [] = Some True"
| "pages_free memmap bm (cur_pfn # ps) =
     (if cur_pfn < unat (to_bits BOOT_BITMAP_SIZE)
      then if bm_test_bit (of_nat cur_pfn) bm then Some False else pages_free memmap bm ps
      else do { u \<leftarrow> pfn_usable_from_memmap memmap cur_pfn; if \<not> u then Some False else pages_free memmap bm ps })"

definition is_block_free :: "limine_memmap_entry list \<Rightarrow> u8 list \<Rightarrow> nat \<Rightarrow> nat \<Rightarrow> bool option" where
  "is_block_free memmap bm pfn order = pages_free memmap bm [pfn ..< pfn + 2 ^ order]"

definition order_base_2 :: "nat \<Rightarrow> nat" where
  "order_base_2 x = 64 - ci_clzll (of_nat x) - 1"

fun align_order :: "nat \<Rightarrow> nat \<Rightarrow> nat" where
  "align_order region_start 0 = 0"
| "align_order region_start (Suc order) = (if region_start mod 2 ^ Suc order \<noteq> 0 then align_order region_start order else Suc order)"

definition add_block :: "nat \<Rightarrow> nat \<Rightarrow> buddy \<Rightarrow> buddy option" where
  "add_block region_start order b =
     do {
       page \<leftarrow> page_for_pfn b region_start;
       b \<leftarrow> upd_meta page (page_set_tag PAGE_TAG_BUDDY) b;
       b \<leftarrow> upd_meta page (buddy_page_set_order (of_nat order)) b;
       b \<leftarrow> upd_meta page (buddy_page_set_free True) b;
       b \<leftarrow> upd_meta page (buddy_page_set_next_pfn 0) b;
       buddy_add_to_free_area page order b
     }"

lemma align_order_le: "align_order s k \<le> k"
  by (induction k) auto

text \<open>The next block of a region: its order and its size.\<close>

definition next_block :: "nat \<Rightarrow> nat \<Rightarrow> nat \<times> nat" where
  "next_block region_start region_size =
     (let order = align_order region_start (min (order_base_2 region_size) (BUDDY_MAX_ORDER - 1)); block_size = 2 ^ order
      in (order, if region_size < block_size then region_size else block_size))"

function add_region :: "limine_memmap_entry list \<Rightarrow> u8 list \<Rightarrow> nat \<Rightarrow> nat \<Rightarrow> buddy \<Rightarrow> buddy option" where
  "add_region memmap bm region_start region_size b =
     (if 0 < region_size
      then let (order, block_size) = next_block region_start region_size
           in do {
             free \<leftarrow> is_block_free memmap bm region_start order;
             b \<leftarrow> (if free then add_block region_start order b else Some b);
             add_region memmap bm (region_start + block_size) (region_size - block_size) b
           }
      else Some b)"
  by pat_completeness auto
termination
  by (relation "measure (\<lambda>(memmap, bm, region_start, region_size, b). region_size)") (auto simp: next_block_def Let_def)

declare add_region.simps [simp del]

definition buddy_add_entry :: "limine_memmap_entry list \<Rightarrow> u8 list \<Rightarrow> limine_memmap_entry \<Rightarrow> buddy \<Rightarrow> buddy option" where
  "buddy_add_entry memmap bm entry b =
     (if type entry \<noteq> LIMINE_MEMMAP_USABLE then Some b
      else do {
        start \<leftarrow> ALIGN_UP (base entry);
        let e = ALIGN_DOWN (add64 (base entry) (len entry));
        if e \<le> start then Some b
        else add_region memmap bm (start div PAGE_BYTES) ((e - start) div PAGE_BYTES) b
      })"

text \<open>The first usable entry with room for the page array gives its first pages.\<close>

definition keep_entry :: "limine_memmap_entry \<Rightarrow> (init_panic + nat \<times> limine_memmap_entry list \<times> u8 list) option
    \<Rightarrow> (init_panic + nat \<times> limine_memmap_entry list \<times> u8 list) option" where
  "keep_entry entry r = map_option (map_sum id (\<lambda>(start, es, bm). (start, entry # es, bm))) r"

fun mid_init_buddy :: "nat \<Rightarrow> limine_memmap_entry list \<Rightarrow> u8 list \<Rightarrow> (init_panic + nat \<times> limine_memmap_entry list \<times> u8 list) option" where
  "mid_init_buddy n [] bm = Some (Inl OUT_OF_MEMORY)"
| "mid_init_buddy n (entry # es) bm =
     (if type entry \<noteq> LIMINE_MEMMAP_USABLE then keep_entry entry (mid_init_buddy n es bm)
      else do {
        start \<leftarrow> ALIGN_UP (base entry);
        let e = ALIGN_DOWN (add64 (base entry) (len entry));
        let run_len = (if start < e then (e - start) div PAGE_BYTES else 0);
        if n \<le> run_len
        then let base' = start + n * PAGE_BYTES
             in Some (Inr (start, entry\<lparr>base := base', len := sub64 e base'\<rparr> # es,
                  fold (\<lambda>j. bm_set_bit (of_nat (start div PAGE_BYTES + j))) [0 ..< n] bm))
        else keep_entry entry (mid_init_buddy n es bm)
      })"

text \<open>\<open>lk\<close> is whatever the memory of the pages holds.\<close>

definition empty_area :: buddy_free_area where
  "empty_area = \<lparr>fa_head = None, fa_tail = None, nr_free = 0\<rparr>"

fun add_entries :: "limine_memmap_entry list \<Rightarrow> u8 list \<Rightarrow> limine_memmap_entry list \<Rightarrow> buddy \<Rightarrow> buddy option" where
  "add_entries memmap bm [] b = Some b"
| "add_entries memmap bm (entry # es) b = do { b \<leftarrow> buddy_add_entry memmap bm entry b; add_entries memmap bm es b }"

text \<open>The pages of the page array, eight bytes for each page.\<close>

definition pages_needed :: "mem_globals \<Rightarrow> nat" where
  "pages_needed g = (let bytes = 8 * last_pfn g mod 2 ^ 64 in bytes div PAGE_BYTES + (if bytes mod PAGE_BYTES \<noteq> 0 then 1 else 0))"

definition buddy_init :: "mem_globals \<Rightarrow> limine_memmap_entry list \<Rightarrow> u8 list \<Rightarrow> (nat \<Rightarrow> nat option)
    \<Rightarrow> (init_panic + buddy \<times> nat \<times> limine_memmap_entry list \<times> u8 list) option" where
  "buddy_init g memmap bm lk =
     do {
       r \<leftarrow> mid_init_buddy (pages_needed g) memmap bm;
       case r of
         Inl e \<Rightarrow> Some (Inl e)
       | Inr (start, memmap, bm) \<Rightarrow>
           do {
             b \<leftarrow> add_entries memmap bm memmap
                    \<lparr>page_array = replicate (last_pfn g) 0, free_link = lk, free_area = replicate BUDDY_MAX_ORDER empty_area\<rparr>;
             Some (Inr (b, start, memmap, bm))
           }
     }"

section \<open>Well-formed memory maps\<close>

abbreviation usable :: "limine_memmap_entry \<Rightarrow> bool" where
  "usable e \<equiv> type e = LIMINE_MEMMAP_USABLE"

text \<open>The whole pages of an entry.\<close>

definition region :: "limine_memmap_entry \<Rightarrow> nat set" where
  "region e = (if usable e then {(base e + 4095) div 4096 ..< (base e + len e) div 4096} else {})"

text \<open>
  What the boot protocol promises of usable entries: they do not reach the end of the address space, never contain
  address 0, and do not overlap.
\<close>

definition entry_ok :: "limine_memmap_entry \<Rightarrow> bool" where
  "entry_ok e \<longleftrightarrow> (usable e \<longrightarrow> 0 < base e \<and> base e + len e + PAGE_BYTES \<le> 2 ^ 64)"

definition no_overlap :: "limine_memmap_entry \<Rightarrow> limine_memmap_entry \<Rightarrow> bool" where
  "no_overlap e f \<longleftrightarrow> (usable e \<and> usable f \<longrightarrow> base e + len e \<le> base f \<or> base f + len f \<le> base e)"

definition mm_ok :: "limine_memmap_entry list \<Rightarrow> bool" where
  "mm_ok m \<longleftrightarrow> (\<forall>e \<in> set m. entry_ok e) \<and> sorted_wrt no_overlap m"

lemma ALIGN_UP_ok: "x + PAGE_BYTES \<le> 2 ^ 64 \<Longrightarrow> ALIGN_UP x = Some ((x + 4095) div 4096 * 4096)"
  by (simp add: ALIGN_UP_def PAGE_BYTES_def)

lemma entry_end: "entry_ok e \<Longrightarrow> usable e \<Longrightarrow> add64 (base e) (len e) = base e + len e"
  by (simp add: entry_ok_def add64_def PAGE_BYTES_def)

lemma entry_aligns:
  assumes "entry_ok e" "usable e"
  shows "ALIGN_UP (base e) = Some ((base e + 4095) div 4096 * 4096)" "ALIGN_UP (base e + len e) = Some ((base e + len e + 4095) div 4096 * 4096)"
  using assms by (auto simp: entry_ok_def PAGE_BYTES_def intro!: ALIGN_UP_ok)

lemma regions_apart: "no_overlap e f \<Longrightarrow> region e \<inter> region f = {}"
proof (rule ccontr)
  assume n: "no_overlap e f" and "region e \<inter> region f \<noteq> {}"
  then obtain x where x: "x \<in> region e" "x \<in> region f" by blast
  then have u: "usable e" "usable f" by (auto simp: region_def split: if_splits)
  have "base e \<le> x * 4096" "x * 4096 + 4096 \<le> base e + len e" "base f \<le> x * 4096" "x * 4096 + 4096 \<le> base f + len f"
    using x u by (auto simp: region_def)
  then show False using n u by (auto simp: no_overlap_def)
qed

lemma last_usable_spec:
  assumes "\<forall>e \<in> set m. entry_ok e" "n \<le> 2 ^ 52"
  shows "\<exists>r. last_usable m n = Some r \<and> n \<le> r \<and> r \<le> 2 ^ 52 \<and> (\<forall>e \<in> set m. region e \<subseteq> {0 <..< r})"
  using assms
proof (induction m arbitrary: n)
  case (Cons e m)
  show ?case
  proof (cases "usable e")
    case True
    have ok: "entry_ok e" using Cons.prems by simp
    let ?k = "(base e + len e + 4095) div 4096"
    have k: "?k \<le> 2 ^ 52" using div_le_mono [of "base e + len e + 4095" "2 ^ 64" 4096] ok True by (simp add: entry_ok_def PAGE_BYTES_def)
    have "(if n < ?k then ?k else n) \<le> 2 ^ 52" using Cons.prems(2) k by simp
    moreover have "\<forall>e \<in> set m. entry_ok e" using Cons.prems(1) by simp
    ultimately obtain r where r: "last_usable m (if n < ?k then ?k else n) = Some r" "(if n < ?k then ?k else n) \<le> r" "r \<le> 2 ^ 52" "\<forall>e \<in> set m. region e \<subseteq> {0 <..< r}"
      using Cons.IH by blast
    have "(base e + len e) div 4096 \<le> ?k" by (intro div_le_mono) simp
    then have "(base e + len e) div 4096 \<le> r" using r(2) by (auto split: if_splits)
    moreover have "0 < (base e + 4095) div 4096" using ok True by (auto simp: entry_ok_def div_greater_zero_iff)
    ultimately have "region e \<subseteq> {0 <..< r}" using True by (auto simp: region_def)
    then show ?thesis using r True ok by (auto simp: entry_aligns entry_end PAGE_BYTES_def split: if_splits)
  next
    case False
    then show ?thesis using Cons.IH [of n] Cons.prems by (auto simp: region_def)
  qed
qed auto

lemma last_usable_pos:
  assumes "last_usable m n = Some 0" "e \<in> set m" "\<forall>e \<in> set m. entry_ok e"
  shows "\<not> usable e"
  using assms
proof (induction m arbitrary: n)
  case (Cons f m)
  have up: "last_usable m k = Some r \<Longrightarrow> \<forall>e \<in> set m. entry_ok e \<Longrightarrow> k \<le> r" for k r
  proof (induction m arbitrary: k)
    case (Cons h m)
    then show ?case by (cases "usable h") (fastforce simp: entry_aligns entry_end split: if_splits)+
  qed simp
  show ?case
  proof (cases "usable f")
    case True
    then have "last_usable m (if n < (base f + len f + 4095) div 4096 then (base f + len f + 4095) div 4096 else n) = Some 0"
      using Cons.prems by (auto simp: entry_aligns entry_end PAGE_BYTES_def split: if_splits)
    from up [OF this] Cons.prems(3) have "(base f + len f + 4095) div 4096 = 0" by (simp split: if_splits)
    then have "base f + len f + 4095 < 4096" by (simp only: div_eq_0_iff) simp
    then show ?thesis using Cons.prems(3) True by (simp add: entry_ok_def)
  next
    case False
    then show ?thesis using Cons by auto
  qed
qed simp

lemma clear_usable_total: "\<forall>e \<in> set m. entry_ok e \<Longrightarrow> \<exists>r. clear_usable m t bm = Some r"
  by (induction m arbitrary: t bm) (auto simp: entry_aligns entry_end Let_def)

lemma early_init_spec:
  assumes "mm_ok m"
  shows "\<exists>g bm'. pmm_early_init (Some m) bm = Some (Inr (g, bm')) \<and> last_pfn g \<le> 2 ^ 52 \<and> (\<forall>e \<in> set m. region e \<subseteq> {0 <..< last_pfn g})"
proof -
  have ok: "\<forall>e \<in> set m. entry_ok e" using assms by (simp add: mm_ok_def)
  obtain t bm' where "clear_usable m 0 bm = Some (t, bm')" using clear_usable_total [OF ok] by (metis surj_pair)
  moreover obtain r where "last_usable m 0 = Some r" "r \<le> 2 ^ 52" "\<forall>e \<in> set m. region e \<subseteq> {0 <..< r}" using last_usable_spec [OF ok, of 0] by auto
  ultimately show ?thesis by (simp add: pmm_early_init_def)
qed

section \<open>Regions become free blocks\<close>

text \<open>The pages the scan accepts.\<close>

definition page_good :: "limine_memmap_entry list \<Rightarrow> u8 list \<Rightarrow> nat \<Rightarrow> bool" where
  "page_good m bm x \<longleftrightarrow> (if x < unat (to_bits BOOT_BITMAP_SIZE) then \<not> bm_test_bit (of_nat x) bm
     else \<exists>e \<in> set m. usable e \<and> base e div 4096 \<le> x \<and> x < (base e + len e + 4095) div 4096)"

lemma pfn_usable_spec:
  assumes "\<forall>e \<in> set m. entry_ok e" "x < 2 ^ 52"
  shows "pfn_usable_from_memmap m x = Some (\<exists>e \<in> set m. usable e \<and> base e div 4096 \<le> x \<and> x < (base e + len e + 4095) div 4096)"
proof -
  have "pfn_usable_at m (x * 4096) = Some (\<exists>e \<in> set m. usable e \<and> base e div 4096 \<le> x \<and> x < (base e + len e + 4095) div 4096)"
    using assms(1) by (induction m) (auto simp: entry_aligns entry_end Let_def ALIGN_DOWN_def PAGE_BYTES_def)
  then show ?thesis using assms(2) by (simp add: pfn_usable_from_memmap_def PAGE_BYTES_def)
qed

lemma pages_free_spec:
  assumes "\<forall>e \<in> set m. entry_ok e" "\<forall>x \<in> set xs. x < 2 ^ 52"
  shows "pages_free m bm xs = Some (\<forall>x \<in> set xs. page_good m bm x)"
  using assms(2) by (induction xs) (auto simp: page_good_def pfn_usable_spec [OF assms(1)])

lemma is_block_free_spec:
  assumes "\<forall>e \<in> set m. entry_ok e" "p + 2 ^ k \<le> 2 ^ 52"
  shows "is_block_free m bm p k = Some (\<forall>x \<in> blk (p, k). page_good m bm x)"
  using assms pages_free_spec [OF assms(1), of "[p ..< p + 2 ^ k]"] by (simp add: is_block_free_def blk_def)

lemma clz_lower:
  assumes "w \<noteq> (0::u64)"
  shows "2 ^ (63 - ci_clzll w) \<le> unat w"
proof -
  let ?xs = "rev [0..<64 :: nat]" and ?c = "ci_clzll w"
  have c: "?c < 64" using clz_bound(2) [OF assms] .
  have "\<not> \<not> bit w (?xs ! ?c)" unfolding ci_clzll_def using c by (intro nth_length_takeWhile) (simp add: ci_clzll_def)
  then have "bit w (63 - ?c)" using c by (simp add: rev_nth)
  then have "odd (unat w div 2 ^ (63 - ?c))" by (simp add: bit_unsigned_iff flip: bit_iff_odd)
  then show ?thesis by (metis div_less even_zero not_le)
qed

lemma align_order_dvd: "2 ^ align_order s k dvd s"
  by (induction k) auto

lemma next_block_spec:
  assumes "0 < n" "n < 2 ^ 64"
  shows "\<exists>k. next_block s n = (k, 2 ^ k) \<and> k < BUDDY_MAX_ORDER \<and> 2 ^ k dvd s \<and> 2 ^ k \<le> n"
proof -
  define k where "k = align_order s (min (order_base_2 n) (BUDDY_MAX_ORDER - 1))"
  have u: "unat (of_nat n :: u64) = n" using assms(2) by (simp add: unat_of_nat)
  then have "(of_nat n :: u64) \<noteq> 0" using assms(1) by auto
  from clz_lower [OF this] have "2 ^ order_base_2 n \<le> n" by (simp add: u order_base_2_def diff_right_commute)
  moreover have "k \<le> order_base_2 n" "k \<le> BUDDY_MAX_ORDER - 1" using align_order_le [of s "min (order_base_2 n) (BUDDY_MAX_ORDER - 1)"] by (auto simp: k_def)
  moreover from this have "(2::nat) ^ k \<le> 2 ^ order_base_2 n" by (intro power_increasing) auto
  ultimately have "2 ^ k \<le> n" "k < BUDDY_MAX_ORDER" by (simp_all only: order_trans BUDDY_MAX_ORDER_def)
  moreover have "next_block s n = (k, 2 ^ k)" unfolding next_block_def Let_def k_def [symmetric] using \<open>2 ^ k \<le> n\<close> by simp
  moreover have "2 ^ k dvd s" unfolding k_def by (rule align_order_dvd)
  ultimately show ?thesis by blast
qed

text \<open>While the lists are built, the pages not yet handed over are in transit and untagged.\<close>

definition building :: "buddy \<Rightarrow> (nat \<Rightarrow> nat list) \<Rightarrow> nat set \<Rightarrow> bool" where
  "building b F H \<longleftrightarrow> bi (view b) F {} H \<and> (\<forall>x \<in> H. v_tag (view b) x = PAGE_TAG_NONE)"

lemma building_done:
  assumes "building b F H"
  shows "buddy_ok b F {}"
proof -
  have b: "bi (view b) F {} H" and t: "\<forall>x \<in> H. v_tag (view b) x = PAGE_TAG_NONE" using assms by (auto simp: building_def)
  have "\<forall>x < v_len (view b). x \<notin> \<Union> (blk ` (free_blocks F \<union> {})) \<union> {} \<longrightarrow> \<not> (v_tag (view b) x = PAGE_TAG_BUDDY \<and> v_free (view b) x)"
  proof (intro allI impI)
    fix x assume x: "x < v_len (view b)" "x \<notin> \<Union> (blk ` (free_blocks F \<union> {})) \<union> {}"
    show "\<not> (v_tag (view b) x = PAGE_TAG_BUDDY \<and> v_free (view b) x)"
    proof (cases "x \<in> H")
      case True
      then show ?thesis using t by (simp add: PAGE_TAG_NONE_def PAGE_TAG_BUDDY_def)
    next
      case False
      then show ?thesis using b x unfolding bi_def by blast
    qed
  qed
  then show ?thesis using b unfolding buddy_ok_def bi_def by simp
qed

lemma add_block_spec:
  assumes j: "building b F H" and k: "k < BUDDY_MAX_ORDER" and p: "blk (p, k) \<subseteq> H" "2 ^ k dvd p"
  shows "\<exists>b'. add_block p k b = Some b' \<and> building b' (F(k := F k @ [p])) (H - blk (p, k)) \<and> v_len (view b') = v_len (view b)"
proof -
  have b: "bi (view b) F {} H" using j by (simp add: building_def)
  have pH: "p \<in> H" using p(1) by auto
  have lt: "p < v_len (view b)" using bi_page_ok [OF b pH] by (simp add: page_ok_def)
  obtain b1 where b1: "upd_meta p (page_set_tag PAGE_TAG_BUDDY) b = Some b1" "view b1 = (view b)\<lparr>v_tag := (v_tag (view b))(p := PAGE_TAG_BUDDY)\<rparr>"
    using set_tag_view [OF lt tag_small(1)] by auto
  obtain b2 where b2: "upd_meta p (buddy_page_set_order (of_nat k)) b1 = Some b2" "view b2 = (view b1)\<lparr>v_ord := (v_ord (view b1))(p := of_nat k)\<rparr>"
    using set_order_view [of p b1, OF _ order_small [OF k]] lt b1 by auto
  obtain b3 where b3: "upd_meta p (buddy_page_set_free True) b2 = Some b3" "view b3 = (view b2)\<lparr>v_free := (v_free (view b2))(p := True)\<rparr>"
    using set_free_view [of p b2] lt b1 b2 by auto
  obtain b4 where b4: "upd_meta p (buddy_page_set_next_pfn 0) b3 = Some b4" "view b4 = (view b3)\<lparr>v_next := (v_next (view b3))(p := None)\<rparr>"
    using clear_next_view [of p b3] lt b1 b2 b3 by auto
  have "headers_only {p} (view b) (view b4)" by (simp add: headers_only_def b1 b2 b3 b4)
  then have i4: "bi (view b4) F {} H" by (rule bi_headers [OF b]) (simp add: pH)
  have h4: "v_tag (view b4) p = PAGE_TAG_BUDDY" "v_ord (view b4) p = of_nat k" by (simp_all add: b1 b2 b3 b4)
  obtain b5 where b5: "buddy_add_to_free_area p k b4 = Some b5" "bi (view b5) (F(k := F k @ [p])) {} (H - blk (p, k))"
    "v_tag (view b5) = v_tag (view b4)" "v_len (view b5) = v_len (view b4)"
    using add_to_free_area_spec [OF i4 k p h4] by auto
  have "\<forall>x \<in> H - blk (p, k). v_tag (view b5) x = PAGE_TAG_NONE" using j head_in_blk [of p k] by (auto simp: b5 b1 b2 b3 b4 building_def)
  then have "building b5 (F(k := F k @ [p])) (H - blk (p, k))" using b5(2) by (simp add: building_def)
  moreover have "add_block p k b = Some b5" using lt b1(1) b2(1) b3(1) b4(1) b5(1) by (simp add: add_block_def)
  ultimately show ?thesis using b1 b2 b3 b4 b5(4) by simp
qed

text \<open>What a step of building may do with the pages of \<open>D\<close>.\<close>

definition built :: "(nat \<Rightarrow> bool) \<Rightarrow> nat set \<Rightarrow> buddy \<Rightarrow> (nat \<Rightarrow> nat list) \<Rightarrow> nat set \<Rightarrow> buddy \<Rightarrow> bool" where
  "built good D b F H b' \<longleftrightarrow> (\<exists>F' H'. building b' F' H' \<and> H - D \<subseteq> H' \<and> H' \<subseteq> H \<and> v_len (view b') = v_len (view b)
     \<and> free_pages F' \<subseteq> free_pages F \<union> {x \<in> D. good x} \<and> ((\<forall>x \<in> D. good x) \<longrightarrow> free_pages F' = free_pages F \<union> D))"

lemma built_refl: "building b F H \<Longrightarrow> built good {} b F H b"
  unfolding built_def by auto

lemma built_trans:
  assumes "building b' F' H'" "H - D \<subseteq> H'" "H' \<subseteq> H" "v_len (view b') = v_len (view b)" "free_pages F' \<subseteq> free_pages F \<union> {x \<in> D. good x}"
    "(\<forall>x \<in> D. good x) \<longrightarrow> free_pages F' = free_pages F \<union> D" "built good E b' F' H' b''"
  shows "built good (D \<union> E) b F H b''"
proof -
  obtain F2 H2 where "building b'' F2 H2" "H' - E \<subseteq> H2" "H2 \<subseteq> H'" "v_len (view b'') = v_len (view b')"
    "free_pages F2 \<subseteq> free_pages F' \<union> {x \<in> E. good x}" "(\<forall>x \<in> E. good x) \<longrightarrow> free_pages F2 = free_pages F' \<union> E"
    using assms(7) unfolding built_def by (elim exE conjE)
  then show ?thesis unfolding built_def using assms(2-6) by (intro exI [of _ F2] exI [of _ H2]) auto
qed

lemma add_region_spec:
  assumes "building b F H" "{s ..< s + n} \<subseteq> H" "\<forall>e \<in> set m. entry_ok e"
  shows "\<exists>b'. add_region m bm s n b = Some b' \<and> built (page_good m bm) {s ..< s + n} b F H b'"
  using assms
proof (induction n arbitrary: s b F H rule: less_induct)
  case (less n)
  show ?case
  proof (cases "n = 0")
    case True
    then show ?thesis using less.prems built_refl by (simp add: add_region.simps)
  next
    case False
    have bi: "bi (view b) F {} H" using less.prems(1) by (simp add: building_def)
    have "s + n - 1 \<in> H" using less.prems(2) False by auto
    then have sn: "s + n \<le> 2 ^ 52" using bi_page_ok [OF bi] by (fastforce simp: page_ok_def)
    obtain k where k: "next_block s n = (k, 2 ^ k)" "k < BUDDY_MAX_ORDER" "2 ^ k dvd s" "2 ^ k \<le> n"
      using next_block_spec [of n s] False sn by auto
    have D: "{s ..< s + n} = blk (s, k) \<union> {s + 2 ^ k ..< (s + 2 ^ k) + (n - 2 ^ k)}" using k(4) by (auto simp: blk_def)
    have fr: "is_block_free m bm s k = Some (\<forall>x \<in> blk (s, k). page_good m bm x)" using is_block_free_spec [OF less.prems(3)] k(4) sn by simp
    have lt: "n - 2 ^ k < n" using k(4) False by simp
    have sub: "blk (s, k) \<subseteq> H" "{s + 2 ^ k ..< (s + 2 ^ k) + (n - 2 ^ k)} \<subseteq> H - blk (s, k)" using less.prems(2) unfolding D by (auto simp: blk_def)
    show ?thesis
    proof (cases "\<forall>x \<in> blk (s, k). page_good m bm x")
      case True
      obtain b1 where b1: "add_block s k b = Some b1" "building b1 (F(k := F k @ [s])) (H - blk (s, k))" "v_len (view b1) = v_len (view b)"
        using add_block_spec [OF less.prems(1) k(2) sub(1) k(3)] by blast
      have fp: "free_pages (F(k := F k @ [s])) = free_pages F \<union> blk (s, k)" using k(2) by (auto simp: free_pages_def free_blocks_add)
      obtain b2 where b2: "add_region m bm (s + 2 ^ k) (n - 2 ^ k) b1 = Some b2"
        "built (page_good m bm) {s + 2 ^ k ..< (s + 2 ^ k) + (n - 2 ^ k)} b1 (F(k := F k @ [s])) (H - blk (s, k)) b2"
        using less.IH [OF lt b1(2) sub(2) less.prems(3)] by blast
      have "built (page_good m bm) (blk (s, k) \<union> {s + 2 ^ k ..< (s + 2 ^ k) + (n - 2 ^ k)}) b F H b2"
        by (rule built_trans [OF b1(2) _ _ b1(3) _ _ b2(2)]) (use True fp in auto)
      then show ?thesis unfolding D using False fr k(1) True b1(1) b2(1) by (simp add: add_region.simps [of m bm s])
    next
      case bad: False
      obtain b2 where b2: "add_region m bm (s + 2 ^ k) (n - 2 ^ k) b = Some b2"
        "built (page_good m bm) {s + 2 ^ k ..< (s + 2 ^ k) + (n - 2 ^ k)} b F H b2"
        using less.IH [OF lt less.prems(1) _ less.prems(3)] sub(2) by blast
      have "built (page_good m bm) (blk (s, k) \<union> {s + 2 ^ k ..< (s + 2 ^ k) + (n - 2 ^ k)}) b F H b2"
        by (rule built_trans [OF less.prems(1) _ _ _ _ _ b2(2)]) (use bad in auto)
      moreover have "is_block_free m bm s k = Some False" using fr bad by simp
      ultimately show ?thesis unfolding D using False k(1) b2(1) by (simp add: add_region.simps [of m bm s])
    qed
  qed
qed

lemma pages_between [simp]: "(t * 4096 - s * 4096) div 4096 = t - (s::nat)"
  by (simp flip: diff_mult_distrib)

lemma add_entry_spec:
  assumes j: "building b F H" and e: "region e \<subseteq> H" "e \<in> set m" and m: "\<forall>e \<in> set m. entry_ok e"
  shows "\<exists>b'. buddy_add_entry m bm e b = Some b' \<and> built (page_good m bm) (region e) b F H b'"
proof (cases "usable e \<and> (base e + 4095) div 4096 < (base e + len e) div 4096")
  case True
  let ?s = "(base e + 4095) div 4096" and ?t = "(base e + len e) div 4096"
  have D: "region e = {?s ..< ?s + (?t - ?s)}" using True by (simp add: region_def)
  obtain b' where "add_region m bm ?s (?t - ?s) b = Some b'" "built (page_good m bm) (region e) b F H b'"
    using add_region_spec [of b F H ?s "?t - ?s" m bm, OF j e(1) [unfolded D] m] unfolding D by blast
  then show ?thesis using True m e(2)
    by (simp add: buddy_add_entry_def entry_aligns entry_end ALIGN_DOWN_def PAGE_BYTES_def Let_def)
next
  case False
  then have "region e = {}" by (auto simp: region_def)
  moreover have "buddy_add_entry m bm e b = Some b"
    using False m e(2) by (cases "usable e") (auto simp: buddy_add_entry_def entry_aligns entry_end ALIGN_DOWN_def PAGE_BYTES_def Let_def)
  ultimately show ?thesis using built_refl [OF j] by simp
qed

lemma add_entries_spec:
  assumes "building b F H" "\<Union> (region ` set es) \<subseteq> H" "set es \<subseteq> set m" "\<forall>e \<in> set m. entry_ok e" "sorted_wrt no_overlap es"
  shows "\<exists>b'. add_entries m bm es b = Some b' \<and> built (page_good m bm) (\<Union> (region ` set es)) b F H b'"
  using assms
proof (induction es arbitrary: b F H)
  case Nil
  then show ?case using built_refl by simp
next
  case (Cons e es)
  obtain b1 where b1: "buddy_add_entry m bm e b = Some b1" "built (page_good m bm) (region e) b F H b1"
    using add_entry_spec [of b F H e m bm, OF Cons.prems(1) _ _ Cons.prems(4)] Cons.prems(2,3) by auto
  obtain F1 H1 where h: "building b1 F1 H1" "H - region e \<subseteq> H1" "H1 \<subseteq> H" "v_len (view b1) = v_len (view b)"
    "free_pages F1 \<subseteq> free_pages F \<union> {x \<in> region e. page_good m bm x}" "(\<forall>x \<in> region e. page_good m bm x) \<longrightarrow> free_pages F1 = free_pages F \<union> region e"
    using b1(2) unfolding built_def by (elim exE conjE)
  have "region e \<inter> \<Union> (region ` set es) = {}" using Cons.prems(5) regions_apart by fastforce
  moreover have "\<Union> (region ` set es) \<subseteq> H" using Cons.prems(2) by simp
  ultimately have "\<Union> (region ` set es) \<subseteq> H1" using h(2) by blast
  then obtain b2 where b2: "add_entries m bm es b1 = Some b2" "built (page_good m bm) (\<Union> (region ` set es)) b1 F1 H1 b2"
    using Cons.IH [OF h(1)] Cons.prems by auto
  have "built (page_good m bm) (region e \<union> \<Union> (region ` set es)) b F H b2" by (rule built_trans [OF h b2(2)])
  then show ?case using b1(1) b2(1) by simp
qed

section \<open>The page array\<close>

definition within :: "limine_memmap_entry \<Rightarrow> limine_memmap_entry \<Rightarrow> bool" where
  "within f' f \<longleftrightarrow> (usable f' \<longrightarrow> usable f \<and> base f \<le> base f' \<and> base f' + len f' \<le> base f + len f)"

lemma within_refl [simp]: "within f f"
  by (simp add: within_def)

lemma no_overlap_within: "no_overlap e f \<Longrightarrow> within f' f \<Longrightarrow> no_overlap e f'"
  by (auto simp: no_overlap_def within_def)

lemma no_overlap_within': "no_overlap f e \<Longrightarrow> within f' f \<Longrightarrow> no_overlap f' e"
  by (auto simp: no_overlap_def within_def)

text \<open>What taking \<open>n\<close> pages from the map at \<open>start\<close> means.\<close>

definition taken :: "nat \<Rightarrow> limine_memmap_entry list \<Rightarrow> nat \<Rightarrow> limine_memmap_entry list \<Rightarrow> bool" where
  "taken n m start m' \<longleftrightarrow> mm_ok m' \<and> (\<forall>f' \<in> set m'. \<exists>f \<in> set m. within f' f) \<and> {start div 4096 ..< start div 4096 + n} \<subseteq> \<Union> (region ` set m)
     \<and> \<Union> (region ` set m') = \<Union> (region ` set m) - {start div 4096 ..< start div 4096 + n}"

lemma taken_cons:
  assumes "taken n m start m'" "mm_ok (e # m)"
  shows "taken n (e # m) start (e # m')"
proof -
  have "region e \<inter> \<Union> (region ` set m) = {}" using assms(2) regions_apart by (fastforce simp: mm_ok_def)
  then have "\<Union> (region ` set (e # m')) = \<Union> (region ` set (e # m)) - {start div 4096 ..< start div 4096 + n}"
    using assms(1) unfolding taken_def by auto
  moreover have "\<forall>f' \<in> set m'. no_overlap e f'" using assms no_overlap_within unfolding taken_def mm_ok_def by (metis sorted_wrt.simps(2))
  ultimately show ?thesis using assms unfolding taken_def mm_ok_def by auto
qed

lemma taken_head:
  assumes m: "mm_ok (e # m)" and u: "usable e" and n: "0 < n" "n \<le> t - s" and st: "s = (base e + 4095) div 4096" "t = (base e + len e) div 4096"
    and q: "q = (s + n) * 4096"
  shows "taken n (e # m) (s * 4096) (e\<lparr>base := q, len := sub64 (t * 4096) q\<rparr> # m)"
proof -
  let ?e = "e\<lparr>base := q, len := sub64 (t * 4096) q\<rparr>"
  have ok: "0 < base e" "base e + len e + 4096 \<le> 2 ^ 64" using m u by (auto simp: mm_ok_def entry_ok_def PAGE_BYTES_def)
  have tb: "t * 4096 \<le> base e + len e" "base e \<le> s * 4096" using st by auto
  have sn: "q \<le> t * 4096" "s * 4096 \<le> q" unfolding q using n by (auto intro: mult_le_mono1)
  have "t * 4096 - q < 2 ^ 64" using tb(1) ok(2) by linarith
  moreover have "t * 4096 + 2 ^ 64 - q = t * 4096 - q + 2 ^ 64" using sn(1) by simp
  ultimately have l: "sub64 (t * 4096) q = t * 4096 - q" unfolding sub64_def by (simp only: mod_add_self2 mod_less)
  have w: "within ?e e" using u tb sn by (simp add: within_def l)
  have "(k * 4096 + 4095) div 4096 = k" for k :: nat by simp
  then have c: "(q + 4095) div 4096 = s + n" unfolding q .
  have re: "region e = {s ..< t}" using u by (simp add: region_def st)
  have r': "region ?e = {s + n ..< t}" using u sn c by (simp add: region_def l)
  have "\<forall>f \<in> set m. no_overlap ?e f" using m no_overlap_within' [OF _ w] by (auto simp: mm_ok_def)
  moreover have "entry_ok ?e" using u ok tb sn by (auto simp: entry_ok_def l PAGE_BYTES_def)
  ultimately have mm: "mm_ok (?e # m)" using m by (auto simp: mm_ok_def)
  have ap: "region e \<inter> \<Union> (region ` set m) = {}" using m regions_apart by (fastforce simp: mm_ok_def)
  have sp: "region e = {s ..< s + n} \<union> region ?e" "{s ..< s + n} \<inter> region ?e = {}" unfolding re r' using n by auto
  have "\<Union> (region ` set (?e # m)) = \<Union> (region ` set (e # m)) - {s ..< s + n}"
    unfolding list.set image_insert Union_insert using ap sp by blast
  moreover have "\<forall>f' \<in> set (?e # m). \<exists>f \<in> set (e # m). within f' f" using w within_refl by (metis list.set_intros set_ConsD)
  ultimately show ?thesis using mm n by (auto simp: taken_def re)
qed

lemma mid_init_spec:
  assumes "mm_ok m" "0 < n \<or> (\<forall>e \<in> set m. \<not> usable e)"
  shows "(\<exists>start m' bm'. mid_init_buddy n m bm = Some (Inr (start, m', bm')) \<and> taken n m start m')
    \<or> (mid_init_buddy n m bm = Some (Inl OUT_OF_MEMORY) \<and> (\<forall>e \<in> set m. usable e \<longrightarrow> card (region e) < n))"
  using assms
proof (induction m)
  case (Cons e m)
  have m: "mm_ok m" and ok: "entry_ok e" using Cons.prems(1) by (auto simp: mm_ok_def)
  let ?s = "(base e + 4095) div 4096" and ?t = "(base e + len e) div 4096"
  have rest: "(\<exists>start m' bm'. keep_entry e (mid_init_buddy n m bm) = Some (Inr (start, m', bm')) \<and> taken n (e # m) start m')
      \<or> (keep_entry e (mid_init_buddy n m bm) = Some (Inl OUT_OF_MEMORY) \<and> (\<forall>e \<in> set m. usable e \<longrightarrow> card (region e) < n))"
    using Cons.IH [OF m] Cons.prems(2) taken_cons [OF _ Cons.prems(1)] by (auto simp: keep_entry_def)
  show ?case
  proof (cases "usable e")
    case True
    then have n: "0 < n" using Cons.prems(2) by simp
    show ?thesis
    proof (cases "n \<le> ?t - ?s")
      case fits: True
      have q: "?s * 4096 + n * 4096 = (?s + n) * 4096" by simp
      have "?s < ?t" using fits n by simp
      then have "\<exists>bm'. mid_init_buddy n (e # m) bm = Some (Inr (?s * 4096, e\<lparr>base := ?s * 4096 + n * 4096, len := sub64 (?t * 4096) (?s * 4096 + n * 4096)\<rparr> # m, bm'))"
        using True ok fits by (simp add: entry_aligns entry_end ALIGN_DOWN_def PAGE_BYTES_def Let_def)
      then show ?thesis using taken_head [OF Cons.prems(1) True n fits refl refl q] by blast
    next
      case False
      then have "mid_init_buddy n (e # m) bm = keep_entry e (mid_init_buddy n m bm)"
        using True ok n by (simp add: entry_aligns entry_end ALIGN_DOWN_def PAGE_BYTES_def Let_def)
      then show ?thesis using rest False by (auto simp: region_def)
    qed
  next
    case False
    then show ?thesis using rest by simp
  qed
qed simp

lemma new_allocator:
  assumes "n \<le> 2 ^ 52"
  shows "building \<lparr>page_array = replicate n 0, free_link = lk, free_area = replicate BUDDY_MAX_ORDER empty_area\<rparr> (\<lambda>i. []) {0 <..< n}"
    and "v_len (view \<lparr>page_array = replicate n 0, free_link = lk, free_area = replicate BUDDY_MAX_ORDER empty_area\<rparr>) = n"
  using assms by (auto simp: building_def bi_def lists_def area_list_def view_def free_blocks_def apart_def empty_area_def page_get_tag_def PAGE_TAG_NONE_def PAGE_TAG_BUDDY_def)

lemma pages_needed_enough:
  assumes "last_pfn g \<le> 2 ^ 52"
  shows "8 * last_pfn g \<le> pages_needed g * PAGE_BYTES"
proof -
  let ?x = "8 * last_pfn g"
  have "?x mod 2 ^ 64 = ?x" using assms by simp
  then have p: "pages_needed g = ?x div 4096 + (if ?x mod 4096 \<noteq> 0 then 1 else 0)" by (simp add: pages_needed_def Let_def PAGE_BYTES_def)
  have "x \<le> (x div 4096 + (if x mod 4096 \<noteq> 0 then 1 else 0)) * 4096" for x :: nat
    using div_mult_mod_eq [of x 4096] mod_less_divisor [of 4096 x] by (cases "x mod 4096 = 0") auto
  then show ?thesis unfolding p PAGE_BYTES_def by this
qed

text \<open>For a page of the map, being accepted is a matter of the boot bitmap alone.\<close>

lemma page_good_region:
  assumes "x \<in> \<Union> (region ` set m)"
  shows "page_good m bm x \<longleftrightarrow> (x < unat (to_bits BOOT_BITMAP_SIZE) \<longrightarrow> \<not> bm_test_bit (of_nat x) bm)"
proof -
  obtain e where e: "e \<in> set m" "x \<in> region e" using assms by blast
  then have "usable e \<and> base e div 4096 \<le> x \<and> x < (base e + len e + 4095) div 4096"
    using div_le_mono [of "base e" "base e + 4095" 4096] div_le_mono [of "base e + len e" "base e + len e + 4095" 4096] by (auto simp: region_def split: if_splits)
  then show ?thesis using e(1) by (auto simp: page_good_def)
qed

text \<open>How building the allocator may end, for the globals and the memory map it starts from.\<close>

definition init_result :: "mem_globals \<Rightarrow> limine_memmap_entry list \<Rightarrow> init_panic + buddy \<times> nat \<times> limine_memmap_entry list \<times> u8 list \<Rightarrow> bool" where
  "init_result g memmap r = (case r of
      Inl e \<Rightarrow> e = OUT_OF_MEMORY \<and> (\<forall>e \<in> set memmap. usable e \<longrightarrow> card (region e) < pages_needed g)
    | Inr (b, start, memmap', bm') \<Rightarrow> let ps = {start div 4096 ..< start div 4096 + pages_needed g}; pages = \<Union> (region ` set memmap) - ps
        in ps \<subseteq> \<Union> (region ` set memmap) \<and> 8 * length (page_array b) \<le> pages_needed g * PAGE_BYTES \<and> length (page_array b) = last_pfn g
          \<and> allocator_ok b {} \<and> avail b \<subseteq> {x \<in> pages. \<not> (x < unat (to_bits BOOT_BITMAP_SIZE) \<and> bm_test_bit (of_nat x) bm')}
          \<and> ((\<forall>x \<in> pages. \<not> (x < unat (to_bits BOOT_BITMAP_SIZE) \<and> bm_test_bit (of_nat x) bm')) \<longrightarrow> avail b = pages))"

text \<open>The bitmap is whatever the allocations since \<open>pmm_early_init\<close> have made of it.\<close>

lemma buddy_init_spec:
  assumes m: "mm_ok memmap" and g: "pmm_early_init (Some memmap) bm0 = Some (Inr (g, bm1))"
  shows "\<exists>r. buddy_init g memmap bm lk = Some r \<and> init_result g memmap r"
proof -
  have gs: "last_pfn g \<le> 2 ^ 52" "\<forall>e \<in> set memmap. region e \<subseteq> {0 <..< last_pfn g}" using early_init_spec [OF m, of bm0] g by auto
  note pn = pages_needed_enough [OF gs(1)]
  have pos: "0 < pages_needed g \<or> (\<forall>e \<in> set memmap. \<not> usable e)"
  proof (cases "last_pfn g = 0")
    case True
    have "\<not> usable e" if e: "e \<in> set memmap" for e
    proof
      assume "usable e"
      moreover have "last_usable memmap 0 = Some 0" using g True by (auto simp: pmm_early_init_def split: option.splits bind_splits)
      ultimately show False using last_usable_pos [OF _ e] m by (auto simp: mm_ok_def)
    qed
    then show ?thesis by blast
  next
    case False
    then show ?thesis using pn by (cases "pages_needed g") auto
  qed
  from mid_init_spec [OF m pos, of bm] show ?thesis
  proof (elim disjE exE conjE)
    assume "mid_init_buddy (pages_needed g) memmap bm = Some (Inl OUT_OF_MEMORY)" "\<forall>e \<in> set memmap. usable e \<longrightarrow> card (region e) < pages_needed g"
    then show ?thesis by (simp add: buddy_init_def init_result_def)
  next
    fix start m' bm' assume r: "mid_init_buddy (pages_needed g) memmap bm = Some (Inr (start, m', bm'))" and t: "taken (pages_needed g) memmap start m'"
    let ?b0 = "\<lparr>page_array = replicate (last_pfn g) 0, free_link = lk, free_area = replicate BUDDY_MAX_ORDER empty_area\<rparr>"
    let ?D = "\<Union> (region ` set m')" and ?ps = "{start div 4096 ..< start div 4096 + pages_needed g}"
    have m': "mm_ok m'" and D: "?D = \<Union> (region ` set memmap) - ?ps" and ps: "?ps \<subseteq> \<Union> (region ` set memmap)" using t by (auto simp: taken_def)
    have "?D \<subseteq> {0 <..< last_pfn g}" unfolding D using gs(2) by blast
    then obtain b where b: "add_entries m' bm' m' ?b0 = Some b" "built (page_good m' bm') ?D ?b0 (\<lambda>i. []) {0 <..< last_pfn g} b"
      using add_entries_spec [OF new_allocator(1) [OF gs(1)], of m' m' bm' lk] m' by (auto simp: mm_ok_def)
    have none: "free_pages (\<lambda>i. []) = {}" by (simp add: free_pages_def free_blocks_def)
    obtain F H where f: "building b F H" "v_len (view b) = last_pfn g" "free_pages F \<subseteq> {x \<in> ?D. page_good m' bm' x}" "(\<forall>x \<in> ?D. page_good m' bm' x) \<longrightarrow> free_pages F = ?D"
      using b(2) unfolding built_def new_allocator(2) [OF gs(1)] none Un_empty_left by (elim exE conjE)
    have ok: "allocator_ok b {}" "avail b = free_pages F" using buddy_ok_lists [OF building_done [OF f(1)]] by auto
    have good: "x \<in> ?D \<Longrightarrow> page_good m' bm' x \<longleftrightarrow> \<not> (x < unat (to_bits BOOT_BITMAP_SIZE) \<and> bm_test_bit (of_nat x) bm')" for x
      using page_good_region by blast
    have "buddy_init g memmap bm lk = Some (Inr (b, start, m', bm'))" using r b(1) by (simp add: buddy_init_def)
    moreover have "avail b \<subseteq> {x \<in> ?D. \<not> (x < unat (to_bits BOOT_BITMAP_SIZE) \<and> bm_test_bit (of_nat x) bm')}" using f(3) good ok(2) by blast
    moreover have "(\<forall>x \<in> ?D. \<not> (x < unat (to_bits BOOT_BITMAP_SIZE) \<and> bm_test_bit (of_nat x) bm')) \<longrightarrow> avail b = ?D" using f(4) good ok(2) by simp
    ultimately show ?thesis using ok(1) ps f(2) pn unfolding D by (intro exI [of _ "Inr (b, start, m', bm')"]) (simp add: init_result_def Let_def view_len)
  qed
qed

section \<open>Properties\<close>


text \<open>One usable entry of eight pages.\<close>

definition small_map :: "limine_memmap_entry list" where
  "small_map = [\<lparr>base = 4096, len = 32768, type = 0\<rparr>]"

lemma small_map_ok: "mm_ok small_map"
  by (simp add: mm_ok_def small_map_def entry_ok_def PAGE_BYTES_def)

lemma small_map_last: "last_usable small_map 0 = Some 9" "region \<lparr>base = 4096, len = 32768, type = 0\<rparr> = {1 ..< 9}"
  by (simp_all add: small_map_def LIMINE_MEMMAP_USABLE_def ALIGN_UP_def add64_def PAGE_BYTES_def region_def)

lemma small_map_globals:
  assumes "pmm_early_init (Some small_map) bm = Some (Inr (g, bm1))"
  shows "last_pfn g = 9" "pages_needed g = 1"
proof -
  show "last_pfn g = 9" using assms by (auto simp: pmm_early_init_def small_map_last split: bind_splits)
  then show "pages_needed g = 1" by (simp add: pages_needed_def PAGE_BYTES_def)
qed


lemma small_map_mid_init: "\<exists>m' bm'. mid_init_buddy 1 small_map bm = Some (Inr (4096, m', bm'))"
  by (simp add: small_map_def LIMINE_MEMMAP_USABLE_def ALIGN_UP_def ALIGN_DOWN_def add64_def PAGE_BYTES_def)

lemma small_map_bits:
  assumes "pmm_early_init (Some small_map) (replicate 4096 255) = Some (Inr (g, bm1))"
  shows "bm_test_bit 0 bm1" "\<not> bm_test_bit 1 bm1" 
proof -
  have "bm1 = fold clear_page [1 ..< 9] (replicate 4096 255)"
    using assms by (auto simp: pmm_early_init_def small_map_def LIMINE_MEMMAP_USABLE_def ALIGN_UP_def ALIGN_DOWN_def add64_def PAGE_BYTES_def split: bind_splits)
  then have "bm1 = fold (\<lambda>i. bm_clear_bit (of_nat i)) [1, 2, 3, 4, 5, 6, 7, 8] (replicate 4096 255)"
    by (simp add: clear_page_def bits_BOOT upt_rec)
  then show "bm_test_bit 0 bm1" "\<not> bm_test_bit 1 bm1"
    by (simp_all add: bm_test_clear_bit BOOT_BITMAP_SIZE_def) (simp add: bm_test_bit_alt BOOT_BITMAP_SIZE_def)
qed

lemma first_free_page:
  assumes "bm_test_bit 0 bm" "\<not> bm_test_bit 1 bm"
  shows "\<exists>st. bitmap_alloc_page \<lparr>bitmap = bm, bitmap_size = BOOT_BITMAP_SIZE, last_allocated_index = 0\<rparr> = Inr (4096, st)"
proof -
  have w: "word_range 0 (32768 :: u64) = 0 # 1 # word_range 2 32768"
    using word_range_Cons [of "0 :: u64" 32768] word_range_Cons [of "1 :: u64" 32768] by simp
  show ?thesis using assms by (simp add: bitmap_alloc_page_def bitmap_alloc_pages_def bits_BOOT w PAGE_SIZE_def Let_def)
qed

text \<open>
  The page array is placed without a look at the boot bitmap. On a machine whose first usable entry has room for it, it covers the pages
  that the boot allocator gave out first: here the one page taken between \<open>pmm_early_init\<close> and \<open>buddy_init\<close>, where the page tables come from.
\<close>

theorem page_array_over_used_page:
  "\<exists>g bm1 st b m' bm'. pmm_early_init (Some small_map) (replicate 4096 255) = Some (Inr (g, bm1))
    \<and> bitmap_alloc_page \<lparr>bitmap = bm1, bitmap_size = BOOT_BITMAP_SIZE, last_allocated_index = 0\<rparr> = Inr (4096, st)
    \<and> buddy_init g small_map (bitmap st) (\<lambda>x. None) = Some (Inr (b, 4096, m', bm'))"
proof -
  obtain g bm1 where g: "pmm_early_init (Some small_map) (replicate 4096 255) = Some (Inr (g, bm1))" using early_init_spec [OF small_map_ok] by blast
  obtain st where st: "bitmap_alloc_page \<lparr>bitmap = bm1, bitmap_size = BOOT_BITMAP_SIZE, last_allocated_index = 0\<rparr> = Inr (4096, st)"
    using first_free_page [OF small_map_bits [OF g]] by blast
  obtain r where r: "buddy_init g small_map (bitmap st) (\<lambda>x. None) = Some r" using buddy_init_spec [OF small_map_ok g] by blast
  obtain m' bm' where "mid_init_buddy (pages_needed g) small_map (bitmap st) = Some (Inr (4096, m', bm'))"
    using small_map_mid_init [of "bitmap st"] unfolding small_map_globals(2) [OF g] by blast
  then have "\<exists>b. r = Inr (b, 4096, m', bm')" using r by (auto simp: buddy_init_def split: bind_splits)
  then show ?thesis using g st r by blast
qed

end
