(* ===== verification/Spec2Isabelle.thy ===== *)
theory Spec2Isabelle
  imports Bitmap CMem CString CNum CpuMask U128 Fixed Parse LockSafe Minheap Pmm
begin

text \<open>
  A verification development for the charmos kernel, a C kernel for 64-bit PC hardware. It models the parts whose
  behaviour is determined by the C code alone: physical memory allocation, the lock validator, the binary heap, and the
  library code for bits, numbers, memory and text. Paths below are relative to \<^verbatim>\<open>src/\<close>.

  \<^bold>\<open>How code is translated.\<close> A struct is a record, an enum a datatype, an unsigned integer a word of its width, so that
  arithmetic wraps as in C; where a counter cannot wrap it is a natural number, and sums of addresses are written with
  their remainder modulo \<open>2 ^ 64\<close>. Signed overflow is taken to wrap around. A pointer to an element of an array is its
  index, a null pointer is \<open>None\<close>. Reading or storing outside an array gives \<open>None\<close> (\<open>rd\<close> and \<open>wr\<close> of
  \<open>Prelude\<close>), and so do a null dereference and a failed assertion unless the theorem tells them apart; panics are the
  left summand of a sum. Loops are recursive functions with a termination proof. A loop whose end depends on the
  data is a \<open>partial_function (option)\<close>, and the theorems show that it returns.

  \<^bold>\<open>Physical memory.\<close> At boot \<^verbatim>\<open>kernel/mem/pmm.c\<close> reads the memory map of the boot loader into a bitmap, from which
  \<^verbatim>\<open>kernel/mem/bitmap.c\<close> serves the first allocations; \<^verbatim>\<open>kernel/mem/buddy/init.c\<close> then takes room for the page array
  and builds the free lists of the buddy allocator of \<^verbatim>\<open>kernel/mem/buddy/core.c\<close>.
  \<^item> \<open>Bitmap\<close>: the boot allocator. An allocation takes a run of free pages and changes no other bit, and freeing it restores the
    bitmap; the run found after the search wraps around can be wrong, which is stated as a theorem.
  \<^item> \<open>Buddy\<close>: the page descriptors with their packed fields, the links stored in free memory, the doubly linked free
    areas, splitting and merging, all as in \<^verbatim>\<open>core.c\<close> and \<^verbatim>\<open>internal.h\<close>. \<open>BuddyLists\<close>: a free area is a chain
    of pages, and each list operation acts on the list of its pages. \<open>BuddyBlocks\<close>: the invariant that free blocks
    are aligned, do not overlap, and are linked in the area of their order, with the effect of allocating and freeing.
    \<open>BuddyClient\<close>: the allocator as its callers see it, by the set of available pages; the locale \<open>page_allocator\<close>
    states this contract and proves once that the blocks given to clients never overlap, for every sequence of requests; it is interpreted on
    \<open>buddy_alloc_pages\<close> and \<open>buddy_free_pages\<close>. Requests of more than \<open>2 ^ 63\<close> pages are excluded, since the loop that computes
    their order does not end.
  \<^item> \<open>Pmm\<close>: reading the memory map and building the allocator. The hypothesis \<open>mm_ok\<close> is what the boot protocol
    promises of usable entries: no overlap, not at address 0, not at the end of the address space. The state of the bitmap at
    \<open>buddy_init\<close> is arbitrary, because page tables are allocated in between; \<open>page_array_over_used_page\<close> shows that
    the page array can be laid over such pages.

  \<^bold>\<open>The lock validator\<close> (\<^verbatim>\<open>kernel/sync/lock_chk\<close>) is called around every lock operation. It keeps a graph of which
  class of locks was taken while which other was held, and refuses an acquisition that would close a cycle.
  \<^item> \<open>LockGraph\<close>: \<^verbatim>\<open>graph.c\<close>, with the node and edge arrays, hash chains, depth-first search, cycle reports and rollback.
  \<^item> \<open>LockPath\<close>: the graph invariant \<open>graph_ok\<close>; the search decides reachability and ends; cycle reports are real cycles;
    adding dependencies keeps the graph free of cycles and restores it when it refuses. Following parent links back in
    \<open>walk_back\<close> has fuel 2049, one more than the number of states, and a path visits a state once.
  \<^item> \<open>LockChk\<close>: \<^verbatim>\<open>engine.c\<close>, \<^verbatim>\<open>debug.c\<close>, \<^verbatim>\<open>lock_chk.c\<close> and the decisions of \<^verbatim>\<open>report.c\<close>. An \<open>enforce\<close> that fails is the
    error \<open>ENFORCE\<close>, a report that stops the machine is \<open>CRASH\<close>.
  \<^item> \<open>LockSafe\<close>: a system of threads as a step relation over the engine's operations, interleaved between threads and nested
    within each thread as a stack of operations under way. Its invariant gives the absence of circular waiting, and that
    the engine's own checks hold. A thread counts as waiting at its innermost operation while it holds only
    locks that it held when that operation was accepted; a lock taken inside a pending acquisition and kept while waiting is
    not ordered before it by the validator, and such a thread is outside the theorem.

  \<^bold>\<open>Containers.\<close> \<open>Minheap\<close>: \<^verbatim>\<open>kernel/structures/minheap.c\<close>, with heap order and back indices as invariant; the locale \<open>key_queue\<close>
  states the contract of a priority queue, from which draining in order of keys is proved, and is interpreted on the heap. Sizes stay
  below \<open>2 ^ 31\<close>, where the capacity can still double. \<open>BitVec\<close>: \<^verbatim>\<open>include/structures/bitmap.h\<close>; \<open>CpuMask\<close>: CPU masks, as
  sets of processors. Both interpret the locale \<open>index_set\<close>.

  \<^bold>\<open>Numbers.\<close> \<open>U128\<close>: the compiler helpers of \<^verbatim>\<open>kernel/types/ui128_t.c\<close> against machine arithmetic; \<open>Popcount\<close>: its
  bit counting. \<open>Fixed\<close>: the 32.32 fixed-point arithmetic of \<^verbatim>\<open>include/math/fixed.h\<close> against exact quotients and products, and
  \<open>fx_parse\<close> of \<^verbatim>\<open>kernel/math/fixed.c\<close>.

  \<^bold>\<open>Memory and text.\<close> \<open>CMem\<close>: the string instructions and block operations of \<^verbatim>\<open>include/string.h\<close>, on a byte memory where
  blocks may overlap. \<open>CString\<close> and \<open>CNum\<close>: \<^verbatim>\<open>kernel/string.c\<close>, with strings as lists of characters
  without the terminator and buffers as lists with it. \<open>Parse\<close>: the value parsers of \<^verbatim>\<open>kernel/parse.c\<close>: each accepts exactly its format, and the list parser
  leaks nothing whichever allocation fails. Reading a CPU list uses the length of the text as fuel, and each round consumes a character.

  \<^bold>\<open>Prelude\<close> holds the types, array access, ranges of loop counters and lemmas the theories share. Every property is followed
  by a witness that applies it to a concrete input when it has hypotheses.

  \<^bold>\<open>Not modelled.\<close> Code that lives by the hardware or by weak memory: page tables and translation caches, interrupts, the scheduler,
  threads and timers, atomic lock words, RCU, lock-free rings, drivers, ACPI. The slab allocator, memory domains and
  arenas above the buddy allocator, the block layer and file systems, the remaining containers, cryptography, and the series of
  \<^verbatim>\<open>kernel/math/fixed.c\<close>. Of modelled files: spin locks around an operation (the operation is then one step),
  message texts and printing, \<open>strtok\<close> with its static pointer, \<open>asprintf\<close>, and
  compile-time checks. Memory allocation appears as the outcome of each request.
\<close>

end
